(* ===== verification/Prelude.thy ===== *)
theory Prelude
  imports Main "HOL-Library.Word" "HOL-Library.Multiset"
begin

text \<open>
  Shared vocabulary of the development: the machine types of the sources (pointers and
  fixed-width integers), the comparison result of CFBase.h, the callback event log that
  makes retain and release calls of the collections observable, and the generic facts on
  lists, multisets and powers of two that the component theories use.
\<close>

unbundle bit_operations_syntax

type_synonym ptr = "64 word"
type_synonym u8 = "8 word"
type_synonym u16 = "16 word"
type_synonym u32 = "32 word"
type_synonym u64 = "64 word"

abbreviation NULL :: ptr where
  "NULL \<equiv> 0"

named_theorems list_facts \<open>reads and writes of arrays modelled as lists\<close>
named_theorems pow2_facts \<open>masks and powers of two\<close>

section \<open>Comparison results (CFBase.h)\<close>

datatype CFComparisonResult =
  kCFCompareLessThan | kCFCompareEqualTo | kCFCompareGreaterThan

text \<open>The numeric value of the enumeration constants, used where code tests a result for zero.\<close>

fun comparison_value :: "CFComparisonResult \<Rightarrow> int" where
  "comparison_value kCFCompareLessThan = -1"
| "comparison_value kCFCompareEqualTo = 0"
| "comparison_value kCFCompareGreaterThan = 1"

section \<open>Observable callback calls\<close>

text \<open>
  A collection calls the retain callback of its client for what it stores and the release
  callback for what it drops. The calls are the only effect of those callbacks the
  collections rely on, so the models record them, oldest first.
\<close>

datatype cb_event = Retain ptr | Release ptr

primrec retained :: "cb_event list \<Rightarrow> ptr multiset" where
  "retained [] = {#}"
| "retained (e # es) = (case e of Retain p \<Rightarrow> {#p#} | Release p \<Rightarrow> {#}) + retained es"

primrec released :: "cb_event list \<Rightarrow> ptr multiset" where
  "released [] = {#}"
| "released (e # es) = (case e of Retain p \<Rightarrow> {#} | Release p \<Rightarrow> {#p#}) + released es"

lemma retained_append [simp]: "retained (xs @ ys) = retained xs + retained ys"
  by (induction xs) (simp_all add: ac_simps)

lemma released_append [simp]: "released (xs @ ys) = released xs + released ys"
  by (induction xs) (simp_all add: ac_simps)

lemma retained_map_Release [simp]: "retained (map Release xs) = {#}"
  by (induction xs) simp_all

lemma released_map_Release [simp]: "released (map Release xs) = mset xs"
  by (induction xs) simp_all

lemma retained_map_Retain [simp]: "retained (map Retain xs) = mset xs"
  by (induction xs) simp_all

lemma released_map_Retain [simp]: "released (map Retain xs) = {#}"
  by (induction xs) simp_all

section \<open>Arrays as lists\<close>

text \<open>Accesses outside an array are \<open>None\<close>.\<close>

definition load :: "'a list \<Rightarrow> nat \<Rightarrow> 'a option" where
  "load a i = (if i < length a then Some (a ! i) else None)"

definition store :: "'a list \<Rightarrow> nat \<Rightarrow> 'a \<Rightarrow> 'a list option" where
  "store a i v = (if i < length a then Some (a[i := v]) else None)"

lemma mset_take_Suc [list_facts]:
  "n < length xs \<Longrightarrow> mset (take (Suc n) xs) = mset (take n xs) + {#xs ! n#}"
  by (simp add: take_Suc_conv_app_nth)

lemma mset_list_update [list_facts]:
  "i < length xs \<Longrightarrow> mset (xs[i := v]) + {#xs ! i#} = mset xs + {#v#}"
  by (simp add: mset_update)

lemma take_list_update_ge [list_facts]: "n \<le> i \<Longrightarrow> take n (xs[i := v]) = take n xs"
  by (simp add: take_update_cancel)

lemma take_list_update_less [list_facts]:
  "i < n \<Longrightarrow> take n (xs[i := v]) = (take n xs)[i := v]"
  by (simp add: take_update_swap)

lemma mset_take_Suc_update:
  "n < length xs \<Longrightarrow> mset (take (Suc n) (xs[n := v])) = mset (take n xs) + {#v#}"
  by (simp add: take_Suc_conv_app_nth)

lemma set_take_conv_nth [list_facts]:
  "n \<le> length xs \<Longrightarrow> set (take n xs) = {xs ! i | i. i < n}"
  by (auto simp flip: nth_image)

text \<open>Moving the element at \<open>p\<close> into slot \<open>k\<close> and the new value on to \<open>p\<close> permutes the array.\<close>

lemma mset_slide:
  assumes "p \<noteq> k" "p < n" "k < n" "n \<le> length xs"
  shows "mset (take n (xs[k := xs ! p, p := v])) = mset (take n (xs[k := v]))"
proof -
  let ?ys = "take n (xs[k := v])"
  have "take n (xs[k := xs ! p, p := v]) = ?ys[k := ?ys ! p, p := ?ys ! k]"
    using assms by (simp add: list_facts)
  also have "mset \<dots> = mset ?ys"
    using assms by (intro mset_swap) simp_all
  finally show ?thesis .
qed

lemma in_set_update_iff [list_facts]:
  "b < length xs \<Longrightarrow> x \<in> set (xs[b := y]) \<longleftrightarrow> x = y \<or> (\<exists>p<length xs. p \<noteq> b \<and> xs ! p = x)"
  by (auto simp: in_set_conv_nth nth_list_update split: if_splits)

lemma distinct_map_filter_nth:
  assumes "\<And>p q. p < length xs \<Longrightarrow> q < length xs \<Longrightarrow> P (xs ! p) \<Longrightarrow> f (xs ! p) = f (xs ! q) \<Longrightarrow> p = q"
  shows "distinct (map f (filter P xs))"
  using assms
proof (induction xs)
  case (Cons x xs)
  have "p = q" if "p < length xs" "q < length xs" "P (xs ! p)" "f (xs ! p) = f (xs ! q)" for p q
    using Cons.prems[of "Suc p" "Suc q"] that by simp
  then have "distinct (map f (filter P xs))" by (rule Cons.IH)
  moreover have "f x \<notin> f ` set (filter P xs)" if "P x"
  proof
    assume "f x \<in> f ` set (filter P xs)"
    then obtain q where "q < length xs" "f x = f (xs ! q)" by (auto simp: in_set_conv_nth)
    then show False using Cons.prems[of 0 "Suc q"] that by simp
  qed
  ultimately show ?case by simp
qed simp

section \<open>Powers of two\<close>

text \<open>\<open>flsl\<close> of the C library: the position of the most significant set bit, counted from 1.\<close>

fun flsl :: "nat \<Rightarrow> nat" where
  "flsl n = (if n = 0 then 0 else Suc (flsl (n div 2)))"

declare flsl.simps [simp del]

lemma flsl_0 [simp]: "flsl 0 = 0"
  by (simp add: flsl.simps)

lemma flsl_pos: "0 < n \<Longrightarrow> flsl n = Suc (flsl (n div 2))"
  by (simp add: flsl.simps)

lemma flsl_bound [pow2_facts]: "n < 2 ^ flsl n"
proof (induction n rule: flsl.induct)
  case (1 n)
  show ?case
  proof (cases "n = 0")
    case False
    with 1 have "n div 2 < 2 ^ flsl (n div 2)" by simp
    with False show ?thesis by (simp add: flsl_pos)
  qed simp
qed

lemma flsl_le [pow2_facts]: "n < 2 ^ k \<Longrightarrow> flsl n \<le> k"
proof (induction k arbitrary: n)
  case (Suc k)
  show ?case
  proof (cases "n = 0")
    case False
    have "n div 2 < 2 ^ k" using Suc.prems by auto
    then have "flsl (n div 2) \<le> k" by (rule Suc.IH)
    with False show ?thesis by (simp add: flsl_pos)
  qed simp
qed simp

lemma max_exp2 [pow2_facts]: "max ((2 :: nat) ^ a) (2 ^ b) = 2 ^ max a b"
  by (cases "a \<le> b") (simp_all add: max_def power_increasing)

lemma and_mask_mod_nat [pow2_facts]:
  "(x :: nat) AND (2 ^ k - 1) = x mod 2 ^ k"
  by (simp add: take_bit_eq_mask mask_eq_exp_minus_1 flip: take_bit_eq_mod)

section \<open>Machine words\<close>

lemma unat_ucast_mod:
  "unat (ucast (w :: 'a::len word) :: 'b::len word) = unat w mod 2 ^ LENGTH('b)"
  by (simp add: unsigned_ucast_eq take_bit_eq_mod)

lemma unat_less_exp: "unat (w :: 'a::len word) < 2 ^ LENGTH('a)"
  by (rule unsigned_less)

lemma unat_of_nat_small: "n < 2 ^ LENGTH('a) \<Longrightarrow> unat (of_nat n :: 'a::len word) = n"
  by (simp add: unsigned_of_nat take_bit_nat_eq_self)

lemma ucast_ucast_same:
  fixes w :: "'a::len word"
  assumes "unat w < 2 ^ LENGTH('b::len)"
  shows "ucast (ucast w :: 'b word) = w"
proof (rule unsigned_word_eqI)
  show "unat (ucast (ucast w :: 'b word) :: 'a word) = unat w"
    using assms unat_less_exp[of w] by (simp add: unat_ucast_mod)
qed

lemma sint_bounds: "- (2 ^ (LENGTH('a) - 1)) \<le> sint (w :: 'a::len word)" "sint w < 2 ^ (LENGTH('a) - 1)"
  by (simp_all add: sint_greater_eq sint_less)

lemma half_exp: "(2 :: int) ^ LENGTH('a::len) = 2 * 2 ^ (LENGTH('a) - 1)"
  by (cases "LENGTH('a)") simp_all

lemma sint_nonneg_unat: "0 \<le> sint (w :: 'a::len word) \<Longrightarrow> int (unat w) = sint w"
  using sint_bounds[of w] half_exp[where ?'a = 'a]
  by (simp add: uint_sint take_bit_int_eq_self del: uint_sint flip: uint_sint)
    (simp add: uint_sint take_bit_int_eq_self)

lemma sint_neg_unat:
  fixes w :: "'a::len word"
  assumes "sint w < 0"
  shows "int (unat (- w)) = - sint w"
proof -
  have "uint (- w) = (- uint w) mod 2 ^ LENGTH('a)" by (rule uint_word_ariths)
  also have "uint w = sint w mod 2 ^ LENGTH('a)" by (simp add: uint_sint take_bit_eq_mod)
  also have "(- (sint w mod 2 ^ LENGTH('a))) mod 2 ^ LENGTH('a) = (- sint w) mod 2 ^ LENGTH('a)"
    by (rule mod_minus_eq)
  also have "\<dots> = - sint w"
    using assms sint_bounds[of w] half_exp[where ?'a = 'a] by (intro mod_pos_pos_trivial) simp_all
  finally show ?thesis by simp
qed

section \<open>Unsigned 32-bit arithmetic on naturals\<close>

text \<open>Counters of type \<open>unsigned\<close> are kept as naturals; their arithmetic wraps at 32 bits.\<close>

definition u32_add :: "nat \<Rightarrow> nat \<Rightarrow> nat" where
  "u32_add a b = (a + b) mod 2 ^ 32"

definition u32_sub :: "nat \<Rightarrow> nat \<Rightarrow> nat" where
  "u32_sub a b = (a + (2 ^ 32 - b mod 2 ^ 32)) mod 2 ^ 32"

definition u32_mul :: "nat \<Rightarrow> nat \<Rightarrow> nat" where
  "u32_mul a b = (a * b) mod 2 ^ 32"

lemma u32_add_exact [simp]: "a + b < 2 ^ 32 \<Longrightarrow> u32_add a b = a + b"
  by (simp add: u32_add_def)

lemma u32_mul_exact [simp]: "a * b < 2 ^ 32 \<Longrightarrow> u32_mul a b = a * b"
  by (simp add: u32_mul_def)

lemma u32_sub_exact [simp]:
  assumes "b \<le> a" "a < 2 ^ 32"
  shows "u32_sub a b = a - b"
proof -
  have "a + (2 ^ 32 - b mod 2 ^ 32) = (a - b) + 2 ^ 32" using assms by simp
  then have "u32_sub a b = ((a - b) + 2 ^ 32) mod 2 ^ 32" by (simp only: u32_sub_def)
  also have "\<dots> = (a - b) mod 2 ^ 32" by (rule mod_add_self2)
  finally show ?thesis using assms by simp
qed

lemma filter_update_count [list_facts]:
  assumes "i < length xs"
  shows "length (filter P (xs[i := y])) + (if P (xs ! i) then 1 else 0) =
    length (filter P xs) + (if P y then 1 else 0)"
proof -
  have "size (filter_mset P (mset (xs[i := y]) + {#xs ! i#})) = size (filter_mset P (mset xs + {#y#}))"
    using mset_list_update[OF assms] by simp
  then have "size (filter_mset P (mset (xs[i := y]))) + (if P (xs ! i) then 1 else 0) =
      size (filter_mset P (mset xs)) + (if P y then 1 else 0)"
    unfolding filter_union_mset size_union by (simp split: if_splits)
  then show ?thesis by (simp only: size_mset flip: mset_filter)
qed

lemma flsl_iff [pow2_facts]: "flsl n \<le> k \<longleftrightarrow> n < 2 ^ k"
  using flsl_le[of n k] flsl_bound[of n] power_increasing[of "flsl n" k "2 :: nat"]
  by (auto intro: less_le_trans)

end
