(* ===== verification/CF_BinaryHeap.thy ===== *)
theory CF_BinaryHeap
  imports Prelude
begin

text \<open>
  CFBinaryHeap.c: a binary heap of client pointers in a growable array. The record is
  \<open>struct __CFBinaryHeap\<close>, with one extra field, the log of retain and release calls.
  Cells of the array past the count are never read; a fresh or regrown array fills them with
  \<open>NULL\<close>. Allocation is taken to succeed, except that the bucket array cannot grow once
  \<open>1 << flsl(capacity)\<close> leaves the range of \<open>int\<close>: \<open>None\<close> stands for that failure.
\<close>

section \<open>Data\<close>

text \<open>A function pointer is its address together with the code found there.\<close>

record CFBinaryHeapCallBacks =
  retain_cb :: "(ptr \<Rightarrow> ptr) option"
  release_cb :: bool
  compare_cb :: "(ptr \<times> (ptr \<Rightarrow> ptr \<Rightarrow> ptr \<Rightarrow> CFComparisonResult)) option"

record CFBinaryHeap =
  heap_count :: nat
  heap_capacity :: nat
  heap_callbacks :: CFBinaryHeapCallBacks
  heap_info :: ptr
  heap_buckets :: "ptr list"
  heap_variety :: nat
  heap_log :: "cb_event list"

abbreviation (input) kCFBinaryHeapMutable :: nat where
  "kCFBinaryHeapMutable \<equiv> 1"

definition CFBinaryHeapRoundUpCapacity :: "nat \<Rightarrow> nat option" where
  "CFBinaryHeapRoundUpCapacity capacity =
     (if capacity < 4 then Some 4
      else if flsl capacity < 31 then Some (2 ^ flsl capacity) else None)"

definition CFBinaryHeapMutableVarietyFromFlags :: "nat \<Rightarrow> nat" where
  "CFBinaryHeapMutableVarietyFromFlags flags = flags AND 3"

text \<open>The order test the code repeats inline: raw pointers without a compare callback.\<close>

definition heap_gt :: "CFBinaryHeap \<Rightarrow> ptr \<Rightarrow> ptr \<Rightarrow> bool" where
  "heap_gt heap a b =
     (case compare_cb (heap_callbacks heap) of
        None \<Rightarrow> a > b
      | Some (_, compare) \<Rightarrow> compare a b (heap_info heap) = kCFCompareGreaterThan)"

text \<open>The equality test of the search operations.\<close>

definition heap_same :: "CFBinaryHeap \<Rightarrow> ptr \<Rightarrow> ptr \<Rightarrow> bool" where
  "heap_same heap value item =
     (value = item \<or>
      (case compare_cb (heap_callbacks heap) of
         None \<Rightarrow> False
       | Some (_, compare) \<Rightarrow> compare value item (heap_info heap) = kCFCompareEqualTo))"

section \<open>Operations\<close>

definition CFBinaryHeapGrow :: "CFBinaryHeap \<Rightarrow> nat \<Rightarrow> CFBinaryHeap option" where
  "CFBinaryHeapGrow heap numNewValues =
     (case CFBinaryHeapRoundUpCapacity (heap_count heap + numNewValues) of
        None \<Rightarrow> None
      | Some capacity \<Rightarrow>
          Some (heap\<lparr>heap_capacity := capacity,
                     heap_buckets := take capacity (heap_buckets heap) @
                       replicate (capacity - length (heap_buckets heap)) NULL\<rparr>))"

text \<open>The loop of \<open>CFBinaryHeapAddValue\<close>: move larger parents down into the free slot.\<close>

function CFBinaryHeapAddValue_loop ::
    "(ptr \<Rightarrow> ptr \<Rightarrow> bool) \<Rightarrow> ptr list \<Rightarrow> nat \<Rightarrow> ptr \<Rightarrow> ptr list \<times> nat" where
  "CFBinaryHeapAddValue_loop gt buckets idx value =
     (if 0 < idx then
        let pidx = (idx - 1) div 2; item = buckets ! pidx
        in if \<not> gt item value then (buckets, idx)
           else CFBinaryHeapAddValue_loop gt (buckets[idx := item]) pidx value
      else (buckets, idx))"
  by pat_completeness auto
termination
  by (relation "measure (\<lambda>(gt, buckets, idx, value). idx)") auto

declare CFBinaryHeapAddValue_loop.simps [simp del]

definition CFBinaryHeapAddValue :: "CFBinaryHeap \<Rightarrow> ptr \<Rightarrow> CFBinaryHeap option" where
  "CFBinaryHeapAddValue heap value =
     (case (if heap_variety heap = kCFBinaryHeapMutable \<and> heap_count heap = heap_capacity heap
            then CFBinaryHeapGrow heap 1 else Some heap) of
        None \<Rightarrow> None
      | Some heap \<Rightarrow>
          let cnt = heap_count heap;
              (buckets, idx) = CFBinaryHeapAddValue_loop (heap_gt heap) (heap_buckets heap) cnt value;
              heap = heap\<lparr>heap_count := cnt + 1\<rparr>
          in Some (case retain_cb (heap_callbacks heap) of
               Some retain \<Rightarrow>
                 heap\<lparr>heap_buckets := buckets[idx := retain value],
                      heap_log := heap_log heap @ [Retain (retain value)]\<rparr>
             | None \<Rightarrow> heap\<lparr>heap_buckets := buckets[idx := value]\<rparr>))"

text \<open>The loop of \<open>CFBinaryHeapRemoveMinimumValue\<close>: move the smaller child up.\<close>

function CFBinaryHeapRemoveMinimumValue_loop ::
    "(ptr \<Rightarrow> ptr \<Rightarrow> bool) \<Rightarrow> ptr list \<Rightarrow> nat \<Rightarrow> nat \<Rightarrow> ptr \<Rightarrow> ptr list \<times> nat" where
  "CFBinaryHeapRemoveMinimumValue_loop gt buckets cnt idx val =
     (let cidx = 2 * idx + 1 in
      if cidx < cnt then
        let cidx = (if cidx + 1 < cnt \<and> gt (buckets ! cidx) (buckets ! (cidx + 1))
                    then cidx + 1 else cidx);
            item = buckets ! cidx
        in if gt item val then (buckets, idx)
           else CFBinaryHeapRemoveMinimumValue_loop gt (buckets[idx := item]) cnt cidx val
      else (buckets, idx))"
  by pat_completeness auto
termination
  by (relation "measure (\<lambda>(gt, buckets, cnt, idx, val). cnt - idx)") (auto split: if_splits)

declare CFBinaryHeapRemoveMinimumValue_loop.simps [simp del]

definition CFBinaryHeapRemoveMinimumValue :: "CFBinaryHeap \<Rightarrow> CFBinaryHeap" where
  "CFBinaryHeapRemoveMinimumValue heap =
     (let cnt = heap_count heap in
      if cnt = 0 then heap
      else
        let val = heap_buckets heap ! (cnt - 1);
            (buckets, idx) =
              CFBinaryHeapRemoveMinimumValue_loop (heap_gt heap) (heap_buckets heap) (cnt - 1) 0 val
        in heap\<lparr>heap_count := cnt - 1,
                heap_log := (if release_cb (heap_callbacks heap)
                             then heap_log heap @ [Release (heap_buckets heap ! 0)]
                             else heap_log heap),
                heap_buckets := buckets[idx := val]\<rparr>)"

definition CFBinaryHeapRemoveAllValues :: "CFBinaryHeap \<Rightarrow> CFBinaryHeap" where
  "CFBinaryHeapRemoveAllValues heap =
     heap\<lparr>heap_log := (if release_cb (heap_callbacks heap)
                       then heap_log heap @ map Release (take (heap_count heap) (heap_buckets heap))
                       else heap_log heap),
          heap_count := 0\<rparr>"

definition CFBinaryHeapDeallocate :: "CFBinaryHeap \<Rightarrow> CFBinaryHeap" where
  "CFBinaryHeapDeallocate heap =
     (let heap = CFBinaryHeapRemoveAllValues heap
      in if heap_variety heap = kCFBinaryHeapMutable then heap\<lparr>heap_buckets := []\<rparr> else heap)"

fun CFBinaryHeapAddValues :: "CFBinaryHeap \<Rightarrow> ptr list \<Rightarrow> CFBinaryHeap option" where
  "CFBinaryHeapAddValues heap [] = Some heap"
| "CFBinaryHeapAddValues heap (v # vs) =
     (case CFBinaryHeapAddValue heap v of
        None \<Rightarrow> None | Some heap' \<Rightarrow> CFBinaryHeapAddValues heap' vs)"

definition CFBinaryHeapInit ::
    "nat \<Rightarrow> nat \<Rightarrow> ptr list \<Rightarrow> CFBinaryHeapCallBacks option \<Rightarrow> ptr option \<Rightarrow> CFBinaryHeap option" where
  "CFBinaryHeapInit flags capacity values callBacks compareContext =
     (case CFBinaryHeapRoundUpCapacity 1 of
        None \<Rightarrow> None
      | Some cap \<Rightarrow>
          let memory = \<lparr>heap_count = 0, heap_capacity = cap,
                heap_callbacks =
                  (case callBacks of Some cb \<Rightarrow> cb
                   | None \<Rightarrow> \<lparr>retain_cb = None, release_cb = False, compare_cb = None\<rparr>),
                heap_info = (case compareContext of Some info \<Rightarrow> info | None \<Rightarrow> NULL),
                heap_buckets = replicate cap NULL,
                heap_variety = kCFBinaryHeapMutable, heap_log = []\<rparr>
          in map_option (\<lambda>memory. memory\<lparr>heap_variety := CFBinaryHeapMutableVarietyFromFlags flags\<rparr>)
               (CFBinaryHeapAddValues memory values))"

definition CFBinaryHeapCreate ::
    "nat \<Rightarrow> CFBinaryHeapCallBacks option \<Rightarrow> ptr option \<Rightarrow> CFBinaryHeap option" where
  "CFBinaryHeapCreate capacity callBacks compareContext =
     CFBinaryHeapInit kCFBinaryHeapMutable capacity [] callBacks compareContext"

definition CFBinaryHeapCreateCopy :: "nat \<Rightarrow> CFBinaryHeap \<Rightarrow> CFBinaryHeap option" where
  "CFBinaryHeapCreateCopy capacity heap =
     CFBinaryHeapInit kCFBinaryHeapMutable capacity (take (heap_count heap) (heap_buckets heap))
       (Some (heap_callbacks heap)) (Some (heap_info heap))"

definition CFBinaryHeapGetCount :: "CFBinaryHeap \<Rightarrow> nat" where
  "CFBinaryHeapGetCount heap = heap_count heap"

definition CFBinaryHeapHash :: "CFBinaryHeap \<Rightarrow> nat" where
  "CFBinaryHeapHash heap = heap_count heap"

fun CFBinaryHeapGetCountOfValue_loop :: "CFBinaryHeap \<Rightarrow> ptr \<Rightarrow> ptr list \<Rightarrow> nat \<Rightarrow> nat" where
  "CFBinaryHeapGetCountOfValue_loop heap value [] cnt = cnt"
| "CFBinaryHeapGetCountOfValue_loop heap value (item # items) cnt =
     CFBinaryHeapGetCountOfValue_loop heap value items
       (if heap_same heap value item then cnt + 1 else cnt)"

definition CFBinaryHeapGetCountOfValue :: "CFBinaryHeap \<Rightarrow> ptr \<Rightarrow> nat" where
  "CFBinaryHeapGetCountOfValue heap value =
     CFBinaryHeapGetCountOfValue_loop heap value (take (heap_count heap) (heap_buckets heap)) 0"

fun CFBinaryHeapContainsValue_loop :: "CFBinaryHeap \<Rightarrow> ptr \<Rightarrow> ptr list \<Rightarrow> bool" where
  "CFBinaryHeapContainsValue_loop heap value [] = False"
| "CFBinaryHeapContainsValue_loop heap value (item # items) =
     (if heap_same heap value item then True else CFBinaryHeapContainsValue_loop heap value items)"

definition CFBinaryHeapContainsValue :: "CFBinaryHeap \<Rightarrow> ptr \<Rightarrow> bool" where
  "CFBinaryHeapContainsValue heap value =
     CFBinaryHeapContainsValue_loop heap value (take (heap_count heap) (heap_buckets heap))"

definition CFBinaryHeapGetMinimum :: "CFBinaryHeap \<Rightarrow> ptr" where
  "CFBinaryHeapGetMinimum heap = (if 0 < heap_count heap then heap_buckets heap ! 0 else NULL)"

text \<open>The out parameter is the option; the Boolean result is whether it was written.\<close>

definition CFBinaryHeapGetMinimumIfPresent :: "CFBinaryHeap \<Rightarrow> ptr option" where
  "CFBinaryHeapGetMinimumIfPresent heap =
     (if heap_count heap = 0 then None else Some (heap_buckets heap ! 0))"

lemma RemoveMinimumValue_count [simp]:
  "heap_count (CFBinaryHeapRemoveMinimumValue heap) = heap_count heap - 1"
  by (simp add: CFBinaryHeapRemoveMinimumValue_def Let_def split: prod.split)

text \<open>The draining loop shared by \<open>CFBinaryHeapGetValues\<close> and \<open>CFBinaryHeapApplyFunction\<close>.\<close>

function CFBinaryHeapGetValues_loop :: "CFBinaryHeap \<Rightarrow> ptr list \<Rightarrow> ptr list \<times> CFBinaryHeap" where
  "CFBinaryHeapGetValues_loop heapCopy values =
     (if 0 < heap_count heapCopy then
        CFBinaryHeapGetValues_loop (CFBinaryHeapRemoveMinimumValue heapCopy)
          (values @ [CFBinaryHeapGetMinimum heapCopy])
      else (values, heapCopy))"
  by pat_completeness auto
termination
  by (relation "measure (\<lambda>(heapCopy, values). heap_count heapCopy)") auto

declare CFBinaryHeapGetValues_loop.simps [simp del]

text \<open>The values written and the callback calls made on the temporary copy.\<close>

definition CFBinaryHeapGetValues :: "CFBinaryHeap \<Rightarrow> (ptr list \<times> cb_event list) option" where
  "CFBinaryHeapGetValues heap =
     (let cnt = heap_count heap in
      if cnt = 0 then Some ([], [])
      else case CFBinaryHeapCreateCopy cnt heap of
             None \<Rightarrow> None
           | Some heapCopy \<Rightarrow>
               let (values, heapCopy) = CFBinaryHeapGetValues_loop heapCopy []
               in Some (values, heap_log (CFBinaryHeapDeallocate heapCopy)))"

function CFBinaryHeapApplyFunction_loop ::
    "('s \<Rightarrow> ptr \<Rightarrow> 's) \<Rightarrow> CFBinaryHeap \<Rightarrow> 's \<Rightarrow> 's" where
  "CFBinaryHeapApplyFunction_loop applier heapCopy s =
     (if 0 < heap_count heapCopy then
        CFBinaryHeapApplyFunction_loop applier (CFBinaryHeapRemoveMinimumValue heapCopy)
          (applier s (CFBinaryHeapGetMinimum heapCopy))
      else s)"
  by pat_completeness auto
termination
  by (relation "measure (\<lambda>(applier, heapCopy, s). heap_count heapCopy)") auto

declare CFBinaryHeapApplyFunction_loop.simps [simp del]

text \<open>The applier acts on a client state \<open>'s\<close>.\<close>

definition CFBinaryHeapApplyFunction ::
    "CFBinaryHeap \<Rightarrow> ('s \<Rightarrow> ptr \<Rightarrow> 's) \<Rightarrow> 's \<Rightarrow> 's option" where
  "CFBinaryHeapApplyFunction heap applier s =
     (let cnt = heap_count heap in
      if cnt = 0 then Some s
      else map_option (\<lambda>heapCopy. CFBinaryHeapApplyFunction_loop applier heapCopy s)
             (CFBinaryHeapCreateCopy cnt heap))"

text \<open>
  The comparison loop of \<open>__CFBinaryHeapEqual\<close>: the C test \<open>!compare(...)\<close> is true when the
  result is zero, that is \<open>kCFCompareEqualTo\<close>.
\<close>

fun CFBinaryHeapEqual_loop ::
    "(ptr \<Rightarrow> ptr \<Rightarrow> CFComparisonResult) option \<Rightarrow> ptr list \<Rightarrow> ptr list \<Rightarrow> bool" where
  "CFBinaryHeapEqual_loop compare (val1 # list1) (val2 # list2) =
     (if val1 \<noteq> val2 then
        (case compare of
           None \<Rightarrow> False
         | Some c \<Rightarrow> if comparison_value (c val1 val2) = 0 then False
                     else CFBinaryHeapEqual_loop compare list1 list2)
      else CFBinaryHeapEqual_loop compare list1 list2)"
| "CFBinaryHeapEqual_loop compare _ _ = True"

definition CFBinaryHeapEqual :: "CFBinaryHeap \<Rightarrow> CFBinaryHeap \<Rightarrow> bool option" where
  "CFBinaryHeapEqual heap1 heap2 =
     (let cnt = heap_count heap1; compare = compare_cb (heap_callbacks heap1) in
      if cnt \<noteq> heap_count heap2 then Some False
      else if map_option fst compare \<noteq> map_option fst (compare_cb (heap_callbacks heap2))
      then Some False
      else if cnt = 0 then Some True
      else case (CFBinaryHeapGetValues heap1, CFBinaryHeapGetValues heap2) of
             (Some (list1, _), Some (list2, _)) \<Rightarrow>
               Some (CFBinaryHeapEqual_loop
                       (map_option (\<lambda>(_, c) a b. c a b (heap_info heap1)) compare) list1 list2)
           | _ \<Rightarrow> None)"

section \<open>Heap order\<close>

definition parent :: "nat \<Rightarrow> nat" where
  "parent i = (i - 1) div 2"

lemma parent_less: "0 < i \<Longrightarrow> parent i < i"
  by (auto simp: parent_def)

lemma parent_child [simp]: "parent (Suc (2 * i)) = i" "parent (Suc (Suc (2 * i))) = i"
  by (auto simp: parent_def)

lemma parent_eq_iff: "0 < c \<Longrightarrow> parent c = i \<longleftrightarrow> c = 2 * i + 1 \<or> c = 2 * i + 2"
  by (auto simp: parent_def)

definition heap_order :: "(ptr \<Rightarrow> ptr \<Rightarrow> bool) \<Rightarrow> ptr list \<Rightarrow> nat \<Rightarrow> bool" where
  "heap_order gt bs n = (\<forall>i<n. 0 < i \<longrightarrow> \<not> gt (bs ! parent i) (bs ! i))"

text \<open>
  The order of an array with a free slot at \<open>k\<close>: every edge that does not touch the slot is in
  order, and so are the edges that bypass it.
\<close>

definition hole_order :: "(ptr \<Rightarrow> ptr \<Rightarrow> bool) \<Rightarrow> ptr list \<Rightarrow> nat \<Rightarrow> nat \<Rightarrow> bool" where
  "hole_order gt bs n k =
     ((\<forall>i<n. 0 < i \<longrightarrow> i \<noteq> k \<longrightarrow> parent i \<noteq> k \<longrightarrow> \<not> gt (bs ! parent i) (bs ! i)) \<and>
      (\<forall>c<n. 0 < k \<longrightarrow> 0 < c \<longrightarrow> parent c = k \<longrightarrow> \<not> gt (bs ! parent k) (bs ! c)))"

lemma hole_orderD1:
  "hole_order gt bs n k \<Longrightarrow> i < n \<Longrightarrow> 0 < i \<Longrightarrow> i \<noteq> k \<Longrightarrow> parent i \<noteq> k \<Longrightarrow>
     \<not> gt (bs ! parent i) (bs ! i)"
  by (simp add: hole_order_def)

lemma hole_orderD2:
  "hole_order gt bs n k \<Longrightarrow> c < n \<Longrightarrow> 0 < k \<Longrightarrow> 0 < c \<Longrightarrow> parent c = k \<Longrightarrow>
     \<not> gt (bs ! parent k) (bs ! c)"
  by (simp add: hole_order_def)

lemma heap_order_hole: "heap_order gt bs n \<Longrightarrow> m \<le> n \<Longrightarrow> hole_order gt bs m 0"
  by (auto simp: heap_order_def hole_order_def)

lemma heap_order_hole_end:
  assumes "heap_order gt bs n"
  shows "hole_order gt bs (Suc n) n"
proof -
  have "\<not> (parent c = n)" if "c < Suc n" "0 < c" for c
    using parent_less[of c] that by simp
  with assms show ?thesis
    by (auto simp: heap_order_def hole_order_def less_Suc_eq)
qed

lemma hole_fill:
  assumes "hole_order gt bs n k" and "k < length bs"
    and up: "k < n \<Longrightarrow> 0 < k \<Longrightarrow> \<not> gt (bs ! parent k) v"
    and down: "\<And>c. c < n \<Longrightarrow> 0 < c \<Longrightarrow> parent c = k \<Longrightarrow> \<not> gt v (bs ! c)"
  shows "heap_order gt (bs[k := v]) n"
  unfolding heap_order_def
proof (intro allI impI)
  fix i assume i: "i < n" "0 < i"
  then have "parent i \<noteq> i" using parent_less[of i] by simp
  with i assms show "\<not> gt (bs[k := v] ! parent i) (bs[k := v] ! i)"
    by (cases "i = k"; cases "parent i = k") (simp_all add: hole_orderD1)
qed

section \<open>Order contract\<close>

text \<open>
  What the heap relies on of its comparison: \<open>gt\<close> is the strict part of a total preorder.
  Raw pointer order satisfies it; a client's compare callback has to.
\<close>

locale heap_comparison =
  fixes gt :: "ptr \<Rightarrow> ptr \<Rightarrow> bool"
  assumes gt_asym: "gt a b \<Longrightarrow> \<not> gt b a"
    and le_trans: "\<not> gt a b \<Longrightarrow> \<not> gt b c \<Longrightarrow> \<not> gt a c"
begin

lemma gt_irrefl: "\<not> gt a a"
  using gt_asym by blast

text \<open>Sliding a neighbour into the free slot moves the slot to where the neighbour was.\<close>

lemma hole_up:
  assumes h: "hole_order gt bs n k" and k: "0 < k" "k < length bs"
  shows "hole_order gt (bs[k := bs ! parent k]) n (parent k)"
proof -
  let ?p = "parent k"
  have pk: "?p < k" using k(1) by (rule parent_less)
  show ?thesis
    unfolding hole_order_def
  proof (intro conjI allI impI)
    fix i assume i: "i < n" "0 < i" "i \<noteq> ?p" "parent i \<noteq> ?p"
    then have ik: "i \<noteq> k" by auto
    show "\<not> gt (bs[k := bs ! ?p] ! parent i) (bs[k := bs ! ?p] ! i)"
      using i ik k h by (cases "parent i = k") (auto simp: hole_orderD1 hole_orderD2)
  next
    fix c assume c: "c < n" "0 < ?p" "0 < c" "parent c = ?p"
    have "parent ?p < ?p" using c(2) by (rule parent_less)
    moreover have "?p < n" using parent_less[OF c(3)] c by simp
    ultimately have top: "\<not> gt (bs ! parent ?p) (bs ! ?p)"
      using h c(2) pk by (intro hole_orderD1) auto
    have "\<not> gt (bs ! ?p) (bs ! c)" if "c \<noteq> k"
      using hole_orderD1[OF h c(1,3) that] c(4) pk by simp
    with top show "\<not> gt (bs[k := bs ! ?p] ! parent ?p) (bs[k := bs ! ?p] ! c)"
      using le_trans[OF top] k \<open>parent ?p < ?p\<close> pk by (cases "c = k") auto
  qed
qed

lemma hole_down:
  assumes h: "hole_order gt bs n k" and c: "0 < c" "c < n" "parent c = k" "k < length bs"
    and sib: "\<And>d. d < n \<Longrightarrow> 0 < d \<Longrightarrow> parent d = k \<Longrightarrow> \<not> gt (bs ! c) (bs ! d)"
  shows "hole_order gt (bs[k := bs ! c]) n c"
proof -
  have kc: "k < c" using parent_less[OF c(1)] c(3) by simp
  show ?thesis
    unfolding hole_order_def
  proof (intro conjI allI impI)
    fix i assume i: "i < n" "0 < i" "i \<noteq> c" "parent i \<noteq> c"
    have pi: "parent i < i" using i(2) by (rule parent_less)
    consider "i = k" | "i \<noteq> k" "parent i = k" | "i \<noteq> k" "parent i \<noteq> k" by blast
    then show "\<not> gt (bs[k := bs ! c] ! parent i) (bs[k := bs ! c] ! i)"
    proof cases
      case 1
      then show ?thesis using hole_orderD2[OF h c(2) _ c(1,3)] i pi c(4) by simp
    next
      case 2
      then show ?thesis using sib i c(4) by simp
    next
      case 3
      then show ?thesis using hole_orderD1[OF h] i by simp
    qed
  next
    fix d assume d: "d < n" "0 < c" "0 < d" "parent d = c"
    have "c < d" using parent_less[OF d(3)] d(4) by simp
    then show "\<not> gt (bs[k := bs ! c] ! parent c) (bs[k := bs ! c] ! d)"
      using hole_orderD1[OF h d(1,3)] d(4) kc c by simp
  qed
qed

end

section \<open>The two loops\<close>

context heap_comparison
begin

lemma AddValue_loop_correct:
  assumes "hole_order gt bs n k" "k < n" "n \<le> length bs"
    and "\<And>c. c < n \<Longrightarrow> 0 < c \<Longrightarrow> parent c = k \<Longrightarrow> \<not> gt v (bs ! c)"
    and "CFBinaryHeapAddValue_loop gt bs k v = (bs', k')"
  shows "k' < n \<and> length bs' = length bs \<and> heap_order gt (bs'[k' := v]) n \<and>
    mset (take n (bs'[k' := v])) = mset (take n (bs[k := v]))"
  using assms
proof (induction k arbitrary: bs rule: less_induct)
  case (less k)
  show ?case
  proof (cases "0 < k \<and> gt (bs ! parent k) v")
    case True
    let ?bs = "bs[k := bs ! parent k]"
    have pk: "parent k < k" using True parent_less by blast
    have eq: "CFBinaryHeapAddValue_loop gt ?bs (parent k) v = (bs', k')"
      using less.prems(5) True
      by (subst (asm) CFBinaryHeapAddValue_loop.simps) (simp add: parent_def Let_def)
    have le: "\<not> gt v (bs ! parent k)" using True gt_asym by blast
    have down: "\<not> gt v (?bs ! c)" if c: "c < n" "0 < c" "parent c = parent k" for c
    proof (cases "c = k")
      case False
      then have "\<not> gt (bs ! parent k) (bs ! c)"
        using hole_orderD1[OF less.prems(1)] c pk by fastforce
      with le False show ?thesis using le_trans by simp
    qed (use le less.prems in simp)
    have "k < length bs" using less.prems(2,3) by simp
    then have "hole_order gt ?bs n (parent k)" using hole_up[OF less.prems(1)] True by blast
    then have "k' < n \<and> length bs' = length ?bs \<and> heap_order gt (bs'[k' := v]) n \<and>
        mset (take n (bs'[k' := v])) = mset (take n (?bs[parent k := v]))"
      using less.prems(2,3) pk by (intro less.IH[OF pk _ _ _ down eq]) simp_all
    moreover have "mset (take n (?bs[parent k := v])) = mset (take n (bs[k := v]))"
      using pk less.prems(2,3) by (intro mset_slide) auto
    ultimately show ?thesis by simp
  next
    case False
    then have "bs' = bs" "k' = k"
      using less.prems(5)
      by (subst (asm) CFBinaryHeapAddValue_loop.simps; simp add: parent_def Let_def split: if_splits)+
    with less.prems False show ?thesis by (auto intro: hole_fill)
  qed
qed

lemma RemoveMinimumValue_loop_correct:
  assumes "hole_order gt bs n k" "k < n" "n \<le> length bs"
    and "0 < k \<Longrightarrow> \<not> gt (bs ! parent k) v"
    and "CFBinaryHeapRemoveMinimumValue_loop gt bs n k v = (bs', k')"
  shows "k' < n \<and> length bs' = length bs \<and> heap_order gt (bs'[k' := v]) n \<and>
    mset (take n (bs'[k' := v])) = mset (take n (bs[k := v]))"
  using assms
proof (induction "n - k" arbitrary: bs k rule: less_induct)
  case less
  define l where "l = 2 * k + 1"
  define c where "c = (if l + 1 < n \<and> gt (bs ! l) (bs ! (l + 1)) then l + 1 else l)"
  have unfold: "CFBinaryHeapRemoveMinimumValue_loop gt bs n k v =
      (if l < n then if gt (bs ! c) v then (bs, k)
         else CFBinaryHeapRemoveMinimumValue_loop gt (bs[k := bs ! c]) n c v
       else (bs, k))"
    by (subst CFBinaryHeapRemoveMinimumValue_loop.simps) (simp only: Let_def c_def l_def)
  have child: "d = l \<or> d = l + 1" if "0 < d" "parent d = k" for d
    using that by (auto simp: parent_eq_iff l_def)
  show ?case
  proof (cases "l < n")
    case True
    have pc: "parent l = k" "parent (l + 1) = k" by (simp_all add: l_def)
    have c: "0 < c" "c < n" "parent c = k" "k < c"
      using True pc by (simp_all add: c_def) (simp_all add: l_def)
    have sib: "\<not> gt (bs ! c) (bs ! d)" if "d < n" "0 < d" "parent d = k" for d
      using child[OF that(2,3)] that(1) gt_irrefl by (auto simp: c_def dest: gt_asym)
    show ?thesis
    proof (cases "gt (bs ! c) v")
      case stop: True
      then have eq: "bs' = bs" "k' = k" using less.prems(5) True by (simp_all add: unfold)
      have "\<not> gt v (bs ! d)" if "d < n" "0 < d" "parent d = k" for d
        using le_trans[OF gt_asym[OF stop] sib[OF that]] .
      with less.prems(1-4) eq show ?thesis by (auto intro: hole_fill)
    next
      case False
      let ?bs = "bs[k := bs ! c]"
      have eq: "CFBinaryHeapRemoveMinimumValue_loop gt ?bs n c v = (bs', k')"
        using less.prems(5) True False by (simp only: unfold if_True if_False)
      have "k < length bs" using less.prems(2,3) by simp
      then have "hole_order gt ?bs n c"
        by (rule hole_down[OF less.prems(1) c(1,2,3)]) (rule sib)
      moreover have "\<not> gt (?bs ! parent c) v"
        using False c(3) less.prems(2,3) by simp
      moreover have "n - c < n - k" using c(2,4) by linarith
      ultimately have "k' < n \<and> length bs' = length ?bs \<and> heap_order gt (bs'[k' := v]) n \<and>
          mset (take n (bs'[k' := v])) = mset (take n (?bs[c := v]))"
        using less.hyps[of c ?bs] c(2) eq less.prems(3) by simp
      moreover have "mset (take n (?bs[c := v])) = mset (take n (bs[k := v]))"
        using c less.prems(2,3) by (intro mset_slide) auto
      ultimately show ?thesis by simp
    qed
  next
    case False
    then have eq: "bs' = bs" "k' = k" using less.prems(5) by (simp_all add: unfold)
    have leaf: "parent d \<noteq> k" if "d < n" "0 < d" for d
      using child[OF that(2)] that(1) False by auto
    have "heap_order gt (bs[k := v]) n"
      by (rule hole_fill[OF less.prems(1)]) (use less.prems(2-4) leaf in auto)
    with less.prems(2) eq show ?thesis by simp
  qed
qed

text \<open>The first cell of an ordered array is a least element.\<close>

lemma heap_order_min:
  assumes "heap_order gt bs n" "i < n"
  shows "\<not> gt (bs ! 0) (bs ! i)"
  using assms(2)
proof (induction i rule: less_induct)
  case (less i)
  show ?case
  proof (cases "i = 0")
    case False
    then have "\<not> gt (bs ! 0) (bs ! parent i)" using less parent_less[of i] by simp
    moreover have "\<not> gt (bs ! parent i) (bs ! i)" using assms(1) less.prems False by (simp add: heap_order_def)
    ultimately show ?thesis by (rule le_trans)
  qed (simp add: gt_irrefl)
qed

text \<open>Storing a pointer the comparison cannot tell from \<open>v\<close> keeps the order.\<close>

lemma heap_order_replace:
  assumes "heap_order gt (bs[k := v]) n" "\<not> gt v w" "\<not> gt w v"
  shows "heap_order gt (bs[k := w]) n"
proof (cases "k < length bs")
  case True
  have ne: "parent i \<noteq> i" if "0 < i" for i using parent_less[OF that] by simp
  have left: "gt w x = gt v x" and right: "gt x w = gt x v" for x
    using le_trans assms(2,3) by metis+
  show ?thesis
    unfolding heap_order_def
  proof (intro allI impI)
    fix i assume i: "i < n" "0 < i"
    with assms(1) have "\<not> gt (bs[k := v] ! parent i) (bs[k := v] ! i)" by (simp add: heap_order_def)
    then show "\<not> gt (bs[k := w] ! parent i) (bs[k := w] ! i)"
      using True ne[OF i(2)] by (cases "i = k"; cases "parent i = k") (simp_all add: left right)
  qed
qed (use assms in \<open>simp add: list_update_beyond\<close>)

end

section \<open>Contents, invariant and client contract\<close>

definition heap_contents :: "CFBinaryHeap \<Rightarrow> ptr multiset" where
  "heap_contents heap = mset (take (heap_count heap) (heap_buckets heap))"

definition heap_store :: "CFBinaryHeap \<Rightarrow> ptr \<Rightarrow> ptr" where
  "heap_store heap v = (case retain_cb (heap_callbacks heap) of None \<Rightarrow> v | Some retain \<Rightarrow> retain v)"

definition heap_inv :: "CFBinaryHeap \<Rightarrow> bool" where
  "heap_inv heap =
     (heap_count heap \<le> heap_capacity heap \<and> length (heap_buckets heap) = heap_capacity heap \<and>
      heap_variety heap = kCFBinaryHeapMutable \<and>
      heap_order (heap_gt heap) (heap_buckets heap) (heap_count heap))"

text \<open>
  What the client promises: its comparison is a total preorder, and the pointer its retain
  callback returns compares equal to the one it was given.
\<close>

definition heap_client_ok :: "CFBinaryHeap \<Rightarrow> bool" where
  "heap_client_ok heap =
     (heap_comparison (heap_gt heap) \<and>
      (\<forall>v. \<not> heap_gt heap v (heap_store heap v) \<and> \<not> heap_gt heap (heap_store heap v) v))"

text \<open>Every value retained and not yet released is in the heap.\<close>

definition heap_log_balanced :: "CFBinaryHeap \<Rightarrow> bool" where
  "heap_log_balanced heap =
     (retain_cb (heap_callbacks heap) \<noteq> None \<longrightarrow> release_cb (heap_callbacks heap) \<longrightarrow>
      retained (heap_log heap) = released (heap_log heap) + heap_contents heap)"

text \<open>Raw pointer order, used when there is no compare callback, meets the contract.\<close>

interpretation raw_pointers: heap_comparison "\<lambda>a b :: ptr. a > b"
  by unfold_locales auto

lemma heap_client_ok_raw:
  "compare_cb (heap_callbacks h) = None \<Longrightarrow> retain_cb (heap_callbacks h) = None \<Longrightarrow> heap_client_ok h"
  using raw_pointers.heap_comparison_axioms
  by (simp add: heap_client_ok_def heap_gt_def [abs_def] heap_store_def)

lemma heap_gt_cong:
  "heap_callbacks h = heap_callbacks h' \<Longrightarrow> heap_info h = heap_info h' \<Longrightarrow> heap_gt h = heap_gt h'"
  by (intro ext) (simp add: heap_gt_def split: option.split)

lemma heap_store_cong: "heap_callbacks h = heap_callbacks h' \<Longrightarrow> heap_store h = heap_store h'"
  by (intro ext) (simp add: heap_store_def)

lemma heap_client_ok_cong:
  "heap_callbacks h = heap_callbacks h' \<Longrightarrow> heap_info h = heap_info h' \<Longrightarrow>
     heap_client_ok h = heap_client_ok h'"
  using heap_gt_cong[of h h'] heap_store_cong[of h h'] by (simp add: heap_client_ok_def)

section \<open>Growing\<close>

lemma RoundUpCapacity_ge: "CFBinaryHeapRoundUpCapacity n = Some c \<Longrightarrow> n \<le> c"
  using flsl_bound[of n] by (auto simp: CFBinaryHeapRoundUpCapacity_def split: if_splits)

lemma RoundUpCapacity_defined: "n < 2 ^ 30 \<Longrightarrow> \<exists>c. CFBinaryHeapRoundUpCapacity n = Some c"
  using flsl_le[of n 30] by (simp add: CFBinaryHeapRoundUpCapacity_def)

lemma Grow_frame:
  assumes "CFBinaryHeapGrow h 1 = Some h'" "heap_count h = heap_capacity h" "heap_inv h"
  shows "heap_inv h' \<and> heap_count h' = heap_count h \<and> heap_count h < heap_capacity h' \<and>
    heap_callbacks h' = heap_callbacks h \<and> heap_info h' = heap_info h \<and> heap_log h' = heap_log h \<and>
    heap_contents h' = heap_contents h"
proof -
  obtain c where c: "CFBinaryHeapRoundUpCapacity (heap_count h + 1) = Some c"
    and h': "h' = h\<lparr>heap_capacity := c, heap_buckets := take c (heap_buckets h) @
                 replicate (c - length (heap_buckets h)) NULL\<rparr>"
    using assms(1) by (auto simp: CFBinaryHeapGrow_def split: option.splits)
  have le: "heap_count h + 1 \<le> c" using c by (rule RoundUpCapacity_ge)
  have gt: "heap_gt h' = heap_gt h" by (rule heap_gt_cong) (simp_all add: h')
  have "heap_order (heap_gt h) (heap_buckets h @ replicate (c - heap_capacity h) NULL) (heap_count h)"
    using assms(2,3) parent_less
    by (auto simp: heap_inv_def heap_order_def nth_append) (use less_trans in blast)
  with assms(2,3) le gt show ?thesis
    by (simp add: heap_inv_def h' heap_contents_def)
qed

section \<open>Adding and removing\<close>

lemma AddValue_defined:
  assumes "heap_count h < 2 ^ 30 - 1"
  shows "\<exists>h'. CFBinaryHeapAddValue h v = Some h'"
proof -
  have "\<exists>c. CFBinaryHeapRoundUpCapacity (heap_count h + 1) = Some c"
    using assms by (intro RoundUpCapacity_defined) simp
  then show ?thesis
    by (auto simp: CFBinaryHeapAddValue_def CFBinaryHeapGrow_def Let_def split: prod.split option.split)
qed

lemma AddValue_room:
  assumes inv: "heap_inv h" and ok: "heap_client_ok h" and room: "heap_count h < heap_capacity h"
    and add: "CFBinaryHeapAddValue h v = Some h'"
  shows "heap_inv h' \<and> heap_contents h' = heap_contents h + {#heap_store h v#} \<and>
    heap_count h' = heap_count h + 1 \<and>
    heap_callbacks h' = heap_callbacks h \<and> heap_info h' = heap_info h \<and>
    heap_log h' = heap_log h @ (if retain_cb (heap_callbacks h) = None then [] else [Retain (heap_store h v)])"
proof -
  obtain bs k where loop: "CFBinaryHeapAddValue_loop (heap_gt h) (heap_buckets h) (heap_count h) v = (bs, k)"
    by fastforce
  let ?n = "Suc (heap_count h)"
  have cmp: "heap_comparison (heap_gt h)"
    and eq: "\<not> heap_gt h v (heap_store h v)" "\<not> heap_gt h (heap_store h v) v"
    using ok by (simp_all add: heap_client_ok_def)
  have len: "?n \<le> length (heap_buckets h)" using inv room by (simp add: heap_inv_def)
  have "hole_order (heap_gt h) (heap_buckets h) ?n (heap_count h)"
    using inv by (intro heap_order_hole_end) (simp add: heap_inv_def)
  moreover have "\<not> heap_gt h v (heap_buckets h ! c)"
    if "c < ?n" "0 < c" "parent c = heap_count h" for c
    using parent_less[of c] that by simp
  ultimately have bs: "k < ?n" "length bs = length (heap_buckets h)"
      "heap_order (heap_gt h) (bs[k := v]) ?n"
      "mset (take ?n (bs[k := v])) = mset (take ?n ((heap_buckets h)[heap_count h := v]))"
    using heap_comparison.AddValue_loop_correct[OF cmp _ _ len _ loop] by simp_all
  have "heap_order (heap_gt h) (bs[k := heap_store h v]) ?n"
    using heap_comparison.heap_order_replace[OF cmp bs(3) eq] .
  moreover have "mset (take ?n (bs[k := heap_store h v])) = heap_contents h + {#heap_store h v#}"
  proof -
    have "mset (take ?n (bs[k := w])) = mset (take ?n bs) - {#bs ! k#} + {#w#}" for w
      using bs(1,2) len by (simp add: list_facts mset_update)
    with bs(4) have "mset (take ?n bs) - {#bs ! k#} = heap_contents h"
      using len by (simp add: heap_contents_def mset_take_Suc_update)
    with \<open>\<And>w. mset (take ?n (bs[k := w])) = _\<close> show ?thesis by simp
  qed
  moreover have "h' = h\<lparr>heap_count := ?n, heap_buckets := bs[k := heap_store h v],
      heap_log := heap_log h @ (if retain_cb (heap_callbacks h) = None then [] else [Retain (heap_store h v)])\<rparr>"
    using add room loop
    by (auto simp: CFBinaryHeapAddValue_def heap_store_def split: option.splits)
  ultimately show ?thesis
    using inv room bs(2) heap_gt_cong[of h' h] by (simp add: heap_inv_def heap_contents_def)
qed

lemma AddValue_correct:
  assumes inv: "heap_inv h" and ok: "heap_client_ok h" and add: "CFBinaryHeapAddValue h v = Some h'"
  shows "heap_inv h' \<and> heap_contents h' = heap_contents h + {#heap_store h v#} \<and>
    heap_count h' = heap_count h + 1 \<and>
    heap_callbacks h' = heap_callbacks h \<and> heap_info h' = heap_info h \<and>
    heap_log h' = heap_log h @ (if retain_cb (heap_callbacks h) = None then [] else [Retain (heap_store h v)])"
proof (cases "heap_count h = heap_capacity h")
  case True
  then obtain g where g: "CFBinaryHeapGrow h 1 = Some g"
    using add inv by (auto simp: CFBinaryHeapAddValue_def heap_inv_def split: option.splits)
  note f = Grow_frame[OF g True inv]
  have "heap_store g = heap_store h" "heap_client_ok g"
    using f heap_store_cong[of g h] heap_client_ok_cong[of g h] ok by auto
  moreover have "CFBinaryHeapAddValue g v = Some h'"
  proof -
    have "heap_variety h = 1" using inv by (simp add: heap_inv_def)
    moreover have "heap_count g \<noteq> heap_capacity g" using f by simp
    ultimately show ?thesis using add True g by (simp add: CFBinaryHeapAddValue_def)
  qed
  ultimately show ?thesis using AddValue_room[of g v h'] f by simp
next
  case False
  with inv have "heap_count h < heap_capacity h" by (simp add: heap_inv_def)
  from AddValue_room[OF inv ok this add] show ?thesis .
qed

lemma RemoveMinimumValue_correct:
  assumes inv: "heap_inv h" and ok: "heap_client_ok h" and pos: "0 < heap_count h"
  shows "heap_inv (CFBinaryHeapRemoveMinimumValue h) \<and>
    heap_contents (CFBinaryHeapRemoveMinimumValue h) = heap_contents h - {#CFBinaryHeapGetMinimum h#} \<and>
    heap_callbacks (CFBinaryHeapRemoveMinimumValue h) = heap_callbacks h \<and>
    heap_info (CFBinaryHeapRemoveMinimumValue h) = heap_info h \<and>
    heap_log (CFBinaryHeapRemoveMinimumValue h) =
      heap_log h @ (if release_cb (heap_callbacks h) then [Release (CFBinaryHeapGetMinimum h)] else [])"
proof -
  define n where "n = heap_count h - 1"
  define v where "v = heap_buckets h ! n"
  let ?bs = "heap_buckets h"
  obtain bs k where loop: "CFBinaryHeapRemoveMinimumValue_loop (heap_gt h) ?bs n 0 v = (bs, k)"
    by fastforce
  have cmp: "heap_comparison (heap_gt h)" using ok by (simp add: heap_client_ok_def)
  have cnt: "heap_count h = Suc n" and len: "n < length ?bs"
    using pos inv by (auto simp: n_def heap_inv_def)
  have res: "length bs = length ?bs \<and> heap_order (heap_gt h) (bs[k := v]) n \<and>
      mset (take n (bs[k := v])) = mset (take n (?bs[0 := v]))"
  proof (cases n)
    case 0
    with loop show ?thesis by (simp add: CFBinaryHeapRemoveMinimumValue_loop.simps heap_order_def)
  next
    case (Suc m)
    moreover have "hole_order (heap_gt h) ?bs n 0"
      using inv cnt by (intro heap_order_hole[of _ _ "heap_count h"]) (simp_all add: heap_inv_def)
    ultimately show ?thesis
      using heap_comparison.RemoveMinimumValue_loop_correct[OF cmp _ _ _ _ loop] len by simp
  qed
  have mset: "mset (take n (?bs[0 := v])) = heap_contents h - {#CFBinaryHeapGetMinimum h#}"
  proof (cases n)
    case 0
    with len cnt show ?thesis
      by (simp add: heap_contents_def CFBinaryHeapGetMinimum_def take_Suc_conv_app_nth)
  next
    case (Suc m)
    with len have "?bs ! 0 \<in> set (take n ?bs)" by (auto simp: set_take_conv_nth)
    moreover have "heap_contents h = mset (take n ?bs) + {#v#}"
      using len cnt by (simp add: heap_contents_def mset_take_Suc v_def)
    ultimately show ?thesis
      using len pos Suc
      by (simp add: CFBinaryHeapGetMinimum_def take_list_update_less mset_update del: take_Suc)
  qed
  have "CFBinaryHeapRemoveMinimumValue h = h\<lparr>heap_count := n, heap_buckets := bs[k := v],
      heap_log := heap_log h @ (if release_cb (heap_callbacks h) then [Release (CFBinaryHeapGetMinimum h)] else [])\<rparr>"
    using loop pos
    by (simp add: CFBinaryHeapRemoveMinimumValue_def CFBinaryHeapGetMinimum_def n_def v_def Let_def)
  then show ?thesis
    using inv res mset cnt heap_gt_cong[of "CFBinaryHeapRemoveMinimumValue h" h]
    by (simp add: heap_inv_def heap_contents_def)
qed

lemma GetMinimum_least:
  assumes "heap_inv h" "heap_client_ok h" "0 < heap_count h"
  shows "CFBinaryHeapGetMinimum h \<in># heap_contents h \<and>
    (\<forall>x \<in># heap_contents h. \<not> heap_gt h (CFBinaryHeapGetMinimum h) x)"
proof -
  have "heap_comparison (heap_gt h)" using assms(2) by (simp add: heap_client_ok_def)
  moreover have "heap_order (heap_gt h) (heap_buckets h) (heap_count h)"
    and "heap_count h \<le> length (heap_buckets h)"
    using assms(1) by (simp_all add: heap_inv_def)
  ultimately show ?thesis
    using assms(3) heap_comparison.heap_order_min
    by (fastforce simp: CFBinaryHeapGetMinimum_def heap_contents_def set_take_conv_nth)
qed

lemma heap_contents_empty: "heap_inv h \<Longrightarrow> heap_contents h = {#} \<longleftrightarrow> heap_count h = 0"
  by (auto simp: heap_contents_def heap_inv_def)

lemma size_heap_contents: "heap_inv h \<Longrightarrow> size (heap_contents h) = heap_count h"
  by (simp add: heap_contents_def heap_inv_def)

section \<open>The priority queue contract\<close>

text \<open>Taking the least element \<open>n\<close> times, with the operations as arguments.\<close>

primrec unload :: "('q \<Rightarrow> ptr) \<Rightarrow> ('q \<Rightarrow> 'q) \<Rightarrow> nat \<Rightarrow> 'q \<Rightarrow> ptr list" where
  "unload get_min remove_min 0 q = []"
| "unload get_min remove_min (Suc n) q = get_min q # unload get_min remove_min n (remove_min q)"

locale priority_queue =
  fixes inv :: "'q \<Rightarrow> bool" and contents :: "'q \<Rightarrow> ptr multiset"
    and gt :: "'q \<Rightarrow> ptr \<Rightarrow> ptr \<Rightarrow> bool" and store :: "'q \<Rightarrow> ptr \<Rightarrow> ptr"
    and add :: "'q \<Rightarrow> ptr \<Rightarrow> 'q option" and remove_min :: "'q \<Rightarrow> 'q" and get_min :: "'q \<Rightarrow> ptr"
    and add_list :: "'q \<Rightarrow> ptr list \<Rightarrow> 'q option"
  assumes add_law: "inv q \<Longrightarrow> add q v = Some q' \<Longrightarrow>
      inv q' \<and> contents q' = contents q + {#store q v#} \<and> gt q' = gt q \<and> store q' = store q"
    and remove_law: "inv q \<Longrightarrow> contents q \<noteq> {#} \<Longrightarrow>
      inv (remove_min q) \<and> contents (remove_min q) = contents q - {#get_min q#} \<and>
      gt (remove_min q) = gt q"
    and min_law: "inv q \<Longrightarrow> contents q \<noteq> {#} \<Longrightarrow>
      get_min q \<in># contents q \<and> (\<forall>x \<in># contents q. \<not> gt q (get_min q) x)"
    and room_law: "inv q \<Longrightarrow> size (contents q) < 2 ^ 30 - 1 \<Longrightarrow> \<exists>q'. add q v = Some q'"
    and add_list_Nil: "add_list q [] = Some q"
    and add_list_Cons: "add_list q (v # vs) =
      (case add q v of None \<Rightarrow> None | Some q' \<Rightarrow> add_list q' vs)"
begin

lemma unload_sorted:
  assumes "inv q" "size (contents q) = n"
  shows "mset (unload get_min remove_min n q) = contents q \<and>
    sorted_wrt (\<lambda>a b. \<not> gt q a b) (unload get_min remove_min n q)"
  using assms
proof (induction n arbitrary: q)
  case (Suc n)
  then have ne: "contents q \<noteq> {#}" by auto
  note r = remove_law[OF Suc.prems(1) ne] and m = min_law[OF Suc.prems(1) ne]
  have "size (contents (remove_min q)) = n"
    using r m Suc.prems(2) by (simp add: size_Diff_singleton)
  with Suc.IH[of "remove_min q"] r have IH: "mset (unload get_min remove_min n (remove_min q)) = contents q - {#get_min q#}"
    "sorted_wrt (\<lambda>a b. \<not> gt q a b) (unload get_min remove_min n (remove_min q))"
    by simp_all
  then have "set (unload get_min remove_min n (remove_min q)) \<subseteq> set_mset (contents q)"
    by (metis in_diffD set_mset_mset subsetI)
  with IH m show ?case by auto
qed simp

lemma add_list_contents:
  assumes "inv q" "size (contents q) + length vs < 2 ^ 30"
  shows "\<exists>q'. add_list q vs = Some q' \<and> inv q' \<and>
    contents q' = contents q + image_mset (store q) (mset vs) \<and> gt q' = gt q \<and> store q' = store q"
  using assms
proof (induction vs arbitrary: q)
  case Nil
  then show ?case by (simp add: add_list_Nil)
next
  case (Cons v vs)
  then obtain q' where q': "add q v = Some q'" using room_law[of q v] by force
  note a = add_law[OF Cons.prems(1) q']
  from Cons.IH[of q'] Cons.prems(2) a show ?case by (auto simp: add_list_Cons q')
qed

end

interpretation heap_queue: priority_queue
    "\<lambda>h. heap_inv h \<and> heap_client_ok h" heap_contents heap_gt heap_store CFBinaryHeapAddValue
    CFBinaryHeapRemoveMinimumValue CFBinaryHeapGetMinimum CFBinaryHeapAddValues
proof (unfold_locales, goal_cases)
  case (1 h v h')
  then show ?case
    using AddValue_correct[of h v h'] heap_gt_cong[of h' h] heap_store_cong[of h' h]
      heap_client_ok_cong[of h' h] by simp
next
  case (2 h)
  then show ?case
    using RemoveMinimumValue_correct[of h] heap_gt_cong[of "CFBinaryHeapRemoveMinimumValue h" h]
      heap_client_ok_cong[of "CFBinaryHeapRemoveMinimumValue h" h] by (simp add: heap_contents_empty)
next
  case (3 h)
  then show ?case using GetMinimum_least[of h] by (simp add: heap_contents_empty)
next
  case (4 h v)
  then show ?case using AddValue_defined[of h v] by (simp add: size_heap_contents)
qed simp_all

section \<open>Creation, draining and the callback log\<close>

lemma GetValues_loop_unload:
  "CFBinaryHeapGetValues_loop h vs =
     (vs @ unload CFBinaryHeapGetMinimum CFBinaryHeapRemoveMinimumValue (heap_count h) h,
      (CFBinaryHeapRemoveMinimumValue ^^ heap_count h) h)"
proof (induction h vs rule: CFBinaryHeapGetValues_loop.induct)
  case (1 h vs)
  show ?case
  proof (cases "heap_count h")
    case 0
    then show ?thesis by (simp add: CFBinaryHeapGetValues_loop.simps)
  next
    case (Suc n)
    with 1 show ?thesis
      by (subst CFBinaryHeapGetValues_loop.simps) (simp del: funpow.simps add: funpow_Suc_right)
  qed
qed

lemma ApplyFunction_loop_unload:
  "CFBinaryHeapApplyFunction_loop f h s =
     foldl f s (unload CFBinaryHeapGetMinimum CFBinaryHeapRemoveMinimumValue (heap_count h) h)"
proof (induction f h s rule: CFBinaryHeapApplyFunction_loop.induct)
  case (1 f h s)
  show ?case
    by (cases "heap_count h"; subst CFBinaryHeapApplyFunction_loop.simps) (use 1 in simp_all)
qed

lemma log_balanced_AddValue:
  assumes "heap_inv h" "heap_client_ok h" "CFBinaryHeapAddValue h v = Some h'" "heap_log_balanced h"
  shows "heap_log_balanced h'"
  using AddValue_correct[OF assms(1-3)] assms(4) by (simp add: heap_log_balanced_def)

lemma log_balanced_RemoveMinimumValue:
  assumes "heap_inv h" "heap_client_ok h" "heap_log_balanced h"
  shows "heap_log_balanced (CFBinaryHeapRemoveMinimumValue h)"
proof (cases "heap_count h = 0")
  case False
  then show ?thesis
    using RemoveMinimumValue_correct[OF assms(1,2)] GetMinimum_least[OF assms(1,2)] assms(3)
    by (simp add: heap_log_balanced_def)
qed (use assms(3) in \<open>simp add: CFBinaryHeapRemoveMinimumValue_def\<close>)

lemma log_balanced_RemoveAllValues:
  "heap_log_balanced h \<Longrightarrow> heap_log_balanced (CFBinaryHeapRemoveAllValues h)"
  by (simp add: heap_log_balanced_def CFBinaryHeapRemoveAllValues_def heap_contents_def)

lemma heap_step_keeps:
  assumes "heap_inv h" "heap_client_ok h" "heap_log_balanced h" "0 < heap_count h"
  shows "heap_inv (CFBinaryHeapRemoveMinimumValue h)" "heap_client_ok (CFBinaryHeapRemoveMinimumValue h)"
    "heap_log_balanced (CFBinaryHeapRemoveMinimumValue h)"
    "heap_callbacks (CFBinaryHeapRemoveMinimumValue h) = heap_callbacks h"
  using RemoveMinimumValue_correct[OF assms(1,2,4)] log_balanced_RemoveMinimumValue[OF assms(1-3)]
    heap_client_ok_cong[of "CFBinaryHeapRemoveMinimumValue h" h] assms(2) by simp_all

lemma drain_keeps:
  assumes "heap_inv h" "heap_client_ok h" "heap_log_balanced h" "n \<le> heap_count h"
  shows "heap_inv ((CFBinaryHeapRemoveMinimumValue ^^ n) h) \<and>
    heap_client_ok ((CFBinaryHeapRemoveMinimumValue ^^ n) h) \<and>
    heap_log_balanced ((CFBinaryHeapRemoveMinimumValue ^^ n) h) \<and>
    heap_callbacks ((CFBinaryHeapRemoveMinimumValue ^^ n) h) = heap_callbacks h \<and>
    heap_count ((CFBinaryHeapRemoveMinimumValue ^^ n) h) = heap_count h - n"
  using assms(4)
proof (induction n)
  case (Suc n)
  then show ?case using heap_step_keeps[of "(CFBinaryHeapRemoveMinimumValue ^^ n) h"] by simp
qed (use assms in simp)

lemma AddValues_log_balanced:
  assumes "heap_inv h" "heap_client_ok h" "heap_log_balanced h" "CFBinaryHeapAddValues h vs = Some h'"
  shows "heap_log_balanced h' \<and> heap_callbacks h' = heap_callbacks h \<and> heap_info h' = heap_info h"
  using assms
proof (induction vs arbitrary: h)
  case (Cons v vs)
  then obtain g where g: "CFBinaryHeapAddValue h v = Some g" "CFBinaryHeapAddValues g vs = Some h'"
    by (auto split: option.splits)
  have "heap_client_ok g"
    using AddValue_correct[OF Cons.prems(1,2) g(1)] heap_client_ok_cong[of g h] Cons.prems(2) by simp
  with Cons.IH[of g] g AddValue_correct[OF Cons.prems(1,2) g(1)]
    log_balanced_AddValue[OF Cons.prems(1,2) g(1) Cons.prems(3)] show ?case by simp
qed simp

text \<open>A new heap: the given values stored through the retain callback, nothing else.\<close>

lemma Init_correct:
  fixes cb info
  defines "h0 \<equiv> \<lparr>heap_count = 0, heap_capacity = 4, heap_callbacks = cb, heap_info = info,
    heap_buckets = replicate 4 NULL, heap_variety = kCFBinaryHeapMutable, heap_log = []\<rparr>"
  assumes ok: "heap_client_ok h0" and len: "length vs < 2 ^ 30"
  shows "\<exists>h. CFBinaryHeapInit kCFBinaryHeapMutable cap vs (Some cb) (Some info) = Some h \<and>
    heap_inv h \<and> heap_client_ok h \<and> heap_log_balanced h \<and>
    heap_contents h = image_mset (heap_store h0) (mset vs) \<and>
    heap_callbacks h = cb \<and> heap_info h = info"
proof -
  have inv: "heap_inv h0" "heap_contents h0 = {#}" "heap_log_balanced h0"
    by (simp_all add: h0_def heap_inv_def heap_contents_def heap_order_def heap_log_balanced_def)
  then obtain h where h: "CFBinaryHeapAddValues h0 vs = Some h" "heap_inv h" "heap_client_ok h"
      "heap_contents h = image_mset (heap_store h0) (mset vs)"
    using heap_queue.add_list_contents[of h0 vs] ok len by auto
  note log = AddValues_log_balanced[OF inv(1) ok inv(3) h(1)]
  have "CFBinaryHeapRoundUpCapacity 1 = Some 4" by (simp add: CFBinaryHeapRoundUpCapacity_def)
  moreover have "h\<lparr>heap_variety := Suc 0\<rparr> = h" using h(2) by (simp add: heap_inv_def)
  moreover have "CFBinaryHeapMutableVarietyFromFlags 1 = 1"
    by (simp add: CFBinaryHeapMutableVarietyFromFlags_def)
  ultimately have "CFBinaryHeapInit kCFBinaryHeapMutable cap vs (Some cb) (Some info) = Some h"
    using h(1) by (simp add: CFBinaryHeapInit_def h0_def)
  with h log show ?thesis by (auto simp: h0_def)
qed

lemma CreateCopy_correct:
  assumes "heap_inv h" "heap_client_ok h" "heap_count h < 2 ^ 30"
  shows "\<exists>c. CFBinaryHeapCreateCopy cap h = Some c \<and> heap_inv c \<and> heap_client_ok c \<and>
    heap_log_balanced c \<and> heap_contents c = image_mset (heap_store h) (heap_contents h) \<and>
    heap_callbacks c = heap_callbacks h \<and> heap_gt c = heap_gt h \<and> heap_count c = heap_count h"
proof -
  let ?h0 = "\<lparr>heap_count = 0, heap_capacity = 4, heap_callbacks = heap_callbacks h, heap_info = heap_info h,
    heap_buckets = replicate 4 NULL, heap_variety = 1, heap_log = []\<rparr>"
  have ok: "heap_client_ok ?h0" and st: "heap_store ?h0 = heap_store h"
    using heap_client_ok_cong[of ?h0 h] heap_store_cong[of ?h0 h] assms(2) by simp_all
  obtain c where c: "CFBinaryHeapCreateCopy cap h = Some c" "heap_inv c" "heap_client_ok c"
      "heap_log_balanced c" "heap_contents c = image_mset (heap_store h) (heap_contents h)"
      "heap_callbacks c = heap_callbacks h" "heap_info c = heap_info h"
    using Init_correct[OF ok, of "take (heap_count h) (heap_buckets h)" cap]
      le_less_trans[OF min.cobounded2 assms(3), of "length (heap_buckets h)"] st
    by (auto simp: CFBinaryHeapCreateCopy_def heap_contents_def)
  moreover have "heap_count c = heap_count h"
    using size_heap_contents[OF c(2)] size_heap_contents[OF assms(1)] c(5) by simp
  ultimately show ?thesis using heap_gt_cong[of c h] by auto
qed

text \<open>The values \<open>CFBinaryHeapGetValues\<close> writes, in the order it writes them.\<close>

lemma GetValues_correct:
  assumes "heap_inv h" "heap_client_ok h" "heap_count h < 2 ^ 30"
  shows "\<exists>vs log. CFBinaryHeapGetValues h = Some (vs, log) \<and>
    mset vs = image_mset (heap_store h) (heap_contents h) \<and>
    sorted_wrt (\<lambda>a b. \<not> heap_gt h a b) vs \<and>
    (retain_cb (heap_callbacks h) \<noteq> None \<longrightarrow> release_cb (heap_callbacks h) \<longrightarrow> retained log = released log) \<and>
    (\<forall>s f. CFBinaryHeapApplyFunction h f s = Some (foldl f s vs))"
proof (cases "heap_count h = 0")
  case True
  then show ?thesis
    by (simp add: CFBinaryHeapGetValues_def heap_contents_def CFBinaryHeapApplyFunction_def)
next
  case False
  obtain c where c: "CFBinaryHeapCreateCopy (heap_count h) h = Some c" "heap_inv c" "heap_client_ok c"
      "heap_log_balanced c" "heap_contents c = image_mset (heap_store h) (heap_contents h)"
      "heap_callbacks c = heap_callbacks h" "heap_gt c = heap_gt h" "heap_count c = heap_count h"
    using CreateCopy_correct[OF assms] by blast
  let ?vs = "unload CFBinaryHeapGetMinimum CFBinaryHeapRemoveMinimumValue (heap_count c) c"
  let ?e = "(CFBinaryHeapRemoveMinimumValue ^^ heap_count c) c"
  have sorted: "mset ?vs = heap_contents c" "sorted_wrt (\<lambda>a b. \<not> heap_gt h a b) ?vs"
    using heap_queue.unload_sorted[of c "heap_count c"] c(2,3,7) by (simp_all add: size_heap_contents)
  have e: "heap_log_balanced ?e" "heap_callbacks ?e = heap_callbacks h" "heap_count ?e = 0"
    using drain_keeps[OF c(2-4), of "heap_count c"] c(6) by simp_all
  then have "retained (heap_log (CFBinaryHeapDeallocate ?e)) = released (heap_log (CFBinaryHeapDeallocate ?e))"
    if "retain_cb (heap_callbacks h) \<noteq> None" "release_cb (heap_callbacks h)"
    using that
    by (simp add: heap_log_balanced_def CFBinaryHeapDeallocate_def CFBinaryHeapRemoveAllValues_def
        heap_contents_def Let_def)
  then show ?thesis
    using False c(1,5) sorted
    by (simp add: CFBinaryHeapGetValues_def CFBinaryHeapApplyFunction_def GetValues_loop_unload
        ApplyFunction_loop_unload)
qed

section \<open>Runs\<close>

text \<open>The heaps a client can reach from \<open>CFBinaryHeapCreate\<close> with the mutating operations.\<close>

inductive heap_reachable :: "CFBinaryHeapCallBacks \<Rightarrow> ptr \<Rightarrow> CFBinaryHeap \<Rightarrow> bool"
  for cb :: CFBinaryHeapCallBacks and info :: ptr where
  create: "CFBinaryHeapCreate cap (Some cb) (Some info) = Some h \<Longrightarrow> heap_reachable cb info h"
| add: "heap_reachable cb info h \<Longrightarrow> CFBinaryHeapAddValue h v = Some h' \<Longrightarrow> heap_reachable cb info h'"
| remove_min: "heap_reachable cb info h \<Longrightarrow> heap_reachable cb info (CFBinaryHeapRemoveMinimumValue h)"
| remove_all: "heap_reachable cb info h \<Longrightarrow> heap_reachable cb info (CFBinaryHeapRemoveAllValues h)"

lemma Create_value:
  "CFBinaryHeapCreate cap (Some cb) (Some info) =
     Some \<lparr>heap_count = 0, heap_capacity = 4, heap_callbacks = cb, heap_info = info,
       heap_buckets = replicate 4 NULL, heap_variety = 1, heap_log = []\<rparr>"
  by (simp add: CFBinaryHeapCreate_def CFBinaryHeapInit_def CFBinaryHeapRoundUpCapacity_def
      CFBinaryHeapMutableVarietyFromFlags_def)

lemma heap_reachable_inv:
  assumes "heap_reachable cb info h"
    and ok: "\<And>h. heap_callbacks h = cb \<Longrightarrow> heap_info h = info \<Longrightarrow> heap_client_ok h"
  shows "heap_callbacks h = cb \<and> heap_info h = info \<and> heap_inv h \<and> heap_log_balanced h"
  using assms(1)
proof (induction rule: heap_reachable.induct)
  case (create cap h)
  then show ?case
    by (auto simp: Create_value heap_inv_def heap_order_def heap_log_balanced_def heap_contents_def)
next
  case (add h v h')
  then have "heap_client_ok h" using ok by blast
  with add show ?case using AddValue_correct[of h v h'] log_balanced_AddValue[of h v h'] by simp
next
  case (remove_min h)
  then have "heap_client_ok h" using ok by blast
  with remove_min show ?case
    using RemoveMinimumValue_correct[of h] log_balanced_RemoveMinimumValue[of h]
    by (cases "heap_count h = 0") (simp_all add: CFBinaryHeapRemoveMinimumValue_def)
next
  case (remove_all h)
  then show ?case
    using log_balanced_RemoveAllValues[of h]
    by (simp add: CFBinaryHeapRemoveAllValues_def heap_inv_def heap_order_def)
qed

section \<open>Properties\<close>

text \<open>A heap with three raw pointers, for the witnesses.\<close>

definition sample_heap :: CFBinaryHeap where
  "sample_heap = \<lparr>heap_count = 3, heap_capacity = 4,
     heap_callbacks = \<lparr>retain_cb = None, release_cb = False, compare_cb = None\<rparr>,
     heap_info = NULL, heap_buckets = [10, 30, 20, 0], heap_variety = 1, heap_log = []\<rparr>"

lemma sample_heap_ok: "heap_inv sample_heap" "heap_client_ok sample_heap"
  by (auto simp: heap_inv_def sample_heap_def heap_order_def heap_gt_def parent_def
      numeral_3_eq_3 less_Suc_eq intro!: heap_client_ok_raw)

text \<open>
  C14: \<open>CFBinaryHeapAddValue\<close> succeeds on any heap of fewer than \<open>2^30 - 1\<close> values, keeps the
  heap invariant and adds exactly one stored value to the contents.
\<close>

theorem CFBinaryHeapAddValue_refines:
  assumes "heap_inv h" "heap_client_ok h" "heap_count h < 2 ^ 30 - 1"
  shows "\<exists>h'. CFBinaryHeapAddValue h v = Some h' \<and> heap_inv h' \<and>
    heap_contents h' = heap_contents h + {#heap_store h v#} \<and>
    CFBinaryHeapGetCount h' = CFBinaryHeapGetCount h + 1"
  using AddValue_defined[OF assms(3), of v] AddValue_correct[OF assms(1,2)]
  by (auto simp: CFBinaryHeapGetCount_def)

theorem CFBinaryHeapAddValue_refines_witness:
  "\<exists>h'. CFBinaryHeapAddValue sample_heap 5 = Some h' \<and> heap_inv h' \<and>
    heap_contents h' = {#10, 30, 20, 5#}"
proof -
  have "heap_count sample_heap < 2 ^ 30 - 1" by (simp add: sample_heap_def)
  from CFBinaryHeapAddValue_refines[OF sample_heap_ok this, of 5] show ?thesis
    by (auto simp: sample_heap_def heap_contents_def heap_store_def add_mset_commute)
qed

text \<open>
  C13: \<open>CFBinaryHeapRemoveMinimumValue\<close> keeps the invariant and removes exactly the value
  \<open>CFBinaryHeapGetMinimum\<close> returns, which no stored value is smaller than.
\<close>

theorem CFBinaryHeapRemoveMinimumValue_refines:
  assumes "heap_inv h" "heap_client_ok h" "0 < heap_count h"
  shows "heap_inv (CFBinaryHeapRemoveMinimumValue h) \<and>
    CFBinaryHeapGetMinimumIfPresent h = Some (CFBinaryHeapGetMinimum h) \<and>
    heap_contents h = heap_contents (CFBinaryHeapRemoveMinimumValue h) + {#CFBinaryHeapGetMinimum h#} \<and>
    (\<forall>x \<in># heap_contents h. \<not> heap_gt h (CFBinaryHeapGetMinimum h) x)"
  using RemoveMinimumValue_correct[OF assms] GetMinimum_least[OF assms] assms(3)
  by (simp add: CFBinaryHeapGetMinimumIfPresent_def CFBinaryHeapGetMinimum_def)

theorem CFBinaryHeapRemoveMinimumValue_refines_witness:
  "heap_contents sample_heap = heap_contents (CFBinaryHeapRemoveMinimumValue sample_heap) + {#10#} \<and>
    0 < heap_count sample_heap"
  using CFBinaryHeapRemoveMinimumValue_refines[OF sample_heap_ok]
  by (simp add: sample_heap_def CFBinaryHeapGetMinimum_def)

text \<open>
  C16: \<open>CFBinaryHeapGetValues\<close> writes the contents of the heap in ascending order, each value once
  per occurrence, \<open>CFBinaryHeapApplyFunction\<close> visits the same sequence, and the temporary copy
  releases everything it retained.
\<close>

theorem CFBinaryHeapGetValues_sorted:
  assumes "heap_inv h" "heap_client_ok h" "heap_count h < 2 ^ 30"
  shows "\<exists>vs log. CFBinaryHeapGetValues h = Some (vs, log) \<and>
    mset vs = image_mset (heap_store h) (heap_contents h) \<and>
    sorted_wrt (\<lambda>a b. \<not> heap_gt h a b) vs \<and>
    (retain_cb (heap_callbacks h) \<noteq> None \<longrightarrow> release_cb (heap_callbacks h) \<longrightarrow> retained log = released log) \<and>
    (\<forall>s f. CFBinaryHeapApplyFunction h f s = Some (foldl f s vs))"
  using GetValues_correct[OF assms] .

theorem CFBinaryHeapGetValues_sorted_witness:
  "\<exists>vs log. CFBinaryHeapGetValues sample_heap = Some (vs, log) \<and> mset vs = {#10, 30, 20#} \<and>
    sorted_wrt (\<le>) vs \<and> (\<forall>s f. CFBinaryHeapApplyFunction sample_heap f s = Some (foldl f (s :: nat) vs))"
proof -
  have "heap_count sample_heap < 2 ^ 30" by (simp add: sample_heap_def)
  from CFBinaryHeapGetValues_sorted[OF sample_heap_ok this] show ?thesis
    by (simp add: sample_heap_def heap_contents_def heap_store_def heap_gt_def linorder_not_less)
qed

text \<open>
  C19: in every heap reachable from \<open>CFBinaryHeapCreate\<close> through the mutating operations the
  invariant holds and the retain and release calls balance: what was retained is what was
  released plus what the heap still holds.
\<close>

theorem CFBinaryHeap_reachable:
  assumes "heap_reachable cb info h"
    and "\<And>h. heap_callbacks h = cb \<Longrightarrow> heap_info h = info \<Longrightarrow> heap_client_ok h"
    and "retain_cb cb \<noteq> None" "release_cb cb"
  shows "heap_inv h \<and> retained (heap_log h) = released (heap_log h) + heap_contents h"
  using heap_reachable_inv[OF assms(1,2)] assms(3,4) by (auto simp: heap_log_balanced_def)

definition sample_callbacks :: CFBinaryHeapCallBacks where
  "sample_callbacks = \<lparr>retain_cb = Some (\<lambda>p. p), release_cb = True, compare_cb = None\<rparr>"

theorem CFBinaryHeap_reachable_witness:
  "\<exists>h. heap_reachable sample_callbacks NULL h \<and> heap_contents h = {#7#} \<and>
     retained (heap_log h) = released (heap_log h) + heap_contents h"
proof -
  let ?c = "\<lparr>heap_count = 0, heap_capacity = 4, heap_callbacks = sample_callbacks, heap_info = NULL,
       heap_buckets = replicate 4 NULL, heap_variety = 1, heap_log = []\<rparr>"
  have ok: "heap_client_ok h" if "heap_callbacks h = sample_callbacks" for h
    using that raw_pointers.heap_comparison_axioms
    by (simp add: heap_client_ok_def heap_gt_def [abs_def] heap_store_def sample_callbacks_def)
  have inv: "heap_inv ?c" by (simp add: heap_inv_def heap_order_def)
  obtain h where h: "CFBinaryHeapAddValue ?c 7 = Some h" "heap_contents h = {#7#}"
    using CFBinaryHeapAddValue_refines[OF inv ok, of 7]
    by (auto simp: heap_contents_def heap_store_def sample_callbacks_def)
  have "heap_reachable sample_callbacks NULL h"
    using heap_reachable.create[OF Create_value] h(1) heap_reachable.add by blast
  with CFBinaryHeap_reachable[OF this ok] h(2) show ?thesis
    by (auto simp: sample_callbacks_def)
qed

lemma Equal_loop_self: "CFBinaryHeapEqual_loop c xs xs"
  by (induction xs) simp_all

lemma GetCountOfValue_loop_filter:
  "CFBinaryHeapGetCountOfValue_loop h v xs n = n + size (filter_mset (heap_same h v) (mset xs))"
  by (induction xs arbitrary: n) simp_all

lemma ContainsValue_loop_iff: "CFBinaryHeapContainsValue_loop h v xs \<longleftrightarrow> (\<exists>x \<in> set xs. heap_same h v x)"
  by (induction xs) simp_all

text \<open>
  \<open>CFBinaryHeapGetCountOfValue\<close> counts the stored values that are the given pointer or compare
  equal to it, and \<open>CFBinaryHeapContainsValue\<close> holds exactly when that count is positive.
\<close>

theorem CFBinaryHeap_search:
  "CFBinaryHeapGetCountOfValue h v = size (filter_mset (heap_same h v) (heap_contents h)) \<and>
   CFBinaryHeapContainsValue h v = (0 < CFBinaryHeapGetCountOfValue h v)"
  by (auto simp: CFBinaryHeapGetCountOfValue_def CFBinaryHeapContainsValue_def heap_contents_def
      GetCountOfValue_loop_filter ContainsValue_loop_iff filter_mset_eq_conv nonempty_has_size [symmetric])

text \<open>
  \<open>__CFBinaryHeapEqual\<close> on two heaps that hold one value each, with the same compare
  callback: distinct values are reported equal exactly when the callback says they differ,
  because the loop negates the comparison result instead of testing for equality.
\<close>

theorem CFBinaryHeapEqual_negates_comparison:
  assumes "heap_inv h1" "heap_client_ok h1" "heap_inv h2" "heap_client_ok h2"
    and "heap_count h1 = 1" "heap_count h2 = 1"
    and "compare_cb (heap_callbacks h1) = Some (addr, c)" "compare_cb (heap_callbacks h2) = Some (addr, c)"
    and "retain_cb (heap_callbacks h1) = None" "retain_cb (heap_callbacks h2) = None"
    and "CFBinaryHeapGetMinimum h1 \<noteq> CFBinaryHeapGetMinimum h2"
  shows "CFBinaryHeapEqual h1 h2 =
    Some (c (CFBinaryHeapGetMinimum h1) (CFBinaryHeapGetMinimum h2) (heap_info h1) \<noteq> kCFCompareEqualTo)"
proof -
  have single: "\<exists>log. CFBinaryHeapGetValues h = Some ([CFBinaryHeapGetMinimum h], log)"
    if h: "heap_inv h" "heap_client_ok h" "heap_count h = 1" "retain_cb (heap_callbacks h) = None" for h
  proof -
    obtain vs log where v: "CFBinaryHeapGetValues h = Some (vs, log)"
      "mset vs = image_mset (heap_store h) (heap_contents h)"
      using GetValues_correct[OF h(1,2)] h(3) by auto
    have "heap_contents h = {#CFBinaryHeapGetMinimum h#}"
      using h(1,3) by (simp add: heap_contents_def CFBinaryHeapGetMinimum_def heap_inv_def
          take_Suc_conv_app_nth)
    then have "vs = [CFBinaryHeapGetMinimum h]" using v(2) h(4) by (simp add: heap_store_def)
    with v show ?thesis by blast
  qed
  obtain l1 l2 where "CFBinaryHeapGetValues h1 = Some ([CFBinaryHeapGetMinimum h1], l1)"
    "CFBinaryHeapGetValues h2 = Some ([CFBinaryHeapGetMinimum h2], l2)"
    using single assms by metis
  moreover have "(comparison_value r = 0) = (r = kCFCompareEqualTo)" for r by (cases r) simp_all
  ultimately show ?thesis
    using assms(5-11) by (simp add: CFBinaryHeapEqual_def Let_def)
qed

text \<open>Two heaps over a comparison of the pointers themselves, holding 1 and 2.\<close>

definition ptr_compare :: "ptr \<Rightarrow> ptr \<Rightarrow> ptr \<Rightarrow> CFComparisonResult" where
  "ptr_compare a b info =
     (if a < b then kCFCompareLessThan else if a = b then kCFCompareEqualTo else kCFCompareGreaterThan)"

definition single_heap :: "ptr \<Rightarrow> CFBinaryHeap" where
  "single_heap p = \<lparr>heap_count = 1, heap_capacity = 4,
     heap_callbacks = \<lparr>retain_cb = None, release_cb = False, compare_cb = Some (64, ptr_compare)\<rparr>,
     heap_info = NULL, heap_buckets = [p, 0, 0, 0], heap_variety = 1, heap_log = []\<rparr>"

lemma single_heap_ok: "heap_inv (single_heap p)" "heap_client_ok (single_heap p)"
proof -
  have gt: "heap_gt (single_heap p) = (\<lambda>a b. a > b)"
    by (intro ext) (auto simp: heap_gt_def single_heap_def ptr_compare_def)
  show "heap_inv (single_heap p)" by (simp add: heap_inv_def single_heap_def heap_order_def)
  show "heap_client_ok (single_heap p)"
    using raw_pointers.heap_comparison_axioms
    by (simp add: heap_client_ok_def gt) (simp add: heap_store_def single_heap_def)
qed

theorem CFBinaryHeapEqual_negates_comparison_witness:
  "CFBinaryHeapEqual (single_heap 1) (single_heap 2) = Some True"
  using CFBinaryHeapEqual_negates_comparison[OF single_heap_ok[of 1] single_heap_ok[of 2], of 64 ptr_compare]
  by (simp add: single_heap_def CFBinaryHeapGetMinimum_def ptr_compare_def)

end
