(* ===== verification/CF_BigNumber.thy ===== *)
theory CF_BigNumber
  imports Prelude "HOL-Library.Signed_Division"
begin

text \<open>
  CFBigNumber.c: five base-1000000000 digits and a sign field. Digits are 32-bit words, and
  every intermediate value has the width the C expression gives it; narrowing stores are
  \<open>ucast\<close>. The sign field holds 0 or -1. \<open>__int128_t\<close> is a 128-bit word. The model is the
  LP64 build, in which \<open>long\<close> and \<open>CFIndex\<close> have 64 bits.
\<close>

section \<open>Data\<close>

type_synonym u128 = "128 word"

record CFBigNum =
  digits :: "u32 list"
  sign :: int

abbreviation (input) BIG_DIGITS_LIMIT :: "'a::numeral" where
  "BIG_DIGITS_LIMIT \<equiv> 1000000000"

abbreviation (input) BIG_DIGITS_LIMIT_2 :: "'a::numeral" where
  "BIG_DIGITS_LIMIT_2 \<equiv> 1000000000000000000"

abbreviation (input) BIG_DIGITS_LIMIT_3 :: "'a::numeral" where
  "BIG_DIGITS_LIMIT_3 \<equiv> 1000000000000000000000000000"

abbreviation (input) BIG_DIGITS_LIMIT_4 :: "'a::numeral" where
  "BIG_DIGITS_LIMIT_4 \<equiv> 1000000000000000000000000000000000000"

section \<open>Conversion from machine integers\<close>

text \<open>Signed arguments are words read with \<open>sint\<close>; the magnitude is the negated word.\<close>

definition CFBigNumInitWithInt8 :: "8 word \<Rightarrow> CFBigNum" where
  "CFBigNumInitWithInt8 inNum =
     (let unsignInNum = (if sint inNum < 0 then - inNum else inNum)
      in \<lparr>digits = [ucast unsignInNum, 0, 0, 0, 0], sign = (if sint inNum < 0 then -1 else 0)\<rparr>)"

definition CFBigNumInitWithInt16 :: "16 word \<Rightarrow> CFBigNum" where
  "CFBigNumInitWithInt16 inNum =
     (let unsignInNum = (if sint inNum < 0 then - inNum else inNum)
      in \<lparr>digits = [ucast unsignInNum, 0, 0, 0, 0], sign = (if sint inNum < 0 then -1 else 0)\<rparr>)"

definition CFBigNumInitWithUInt8 :: "8 word \<Rightarrow> CFBigNum" where
  "CFBigNumInitWithUInt8 inNum = \<lparr>digits = [ucast inNum, 0, 0, 0, 0], sign = 0\<rparr>"

definition CFBigNumInitWithUInt16 :: "16 word \<Rightarrow> CFBigNum" where
  "CFBigNumInitWithUInt16 inNum = \<lparr>digits = [ucast inNum, 0, 0, 0, 0], sign = 0\<rparr>"

definition CFBigNumInitWithUInt32 :: "u32 \<Rightarrow> CFBigNum" where
  "CFBigNumInitWithUInt32 unsignInNum =
     (let dig0 = unsignInNum div BIG_DIGITS_LIMIT
      in \<lparr>digits = [unsignInNum - dig0 * BIG_DIGITS_LIMIT, dig0, 0, 0, 0], sign = 0\<rparr>)"

definition CFBigNumInitWithInt32 :: "u32 \<Rightarrow> CFBigNum" where
  "CFBigNumInitWithInt32 inNum =
     (let unsignInNum = (if sint inNum < 0 then - inNum else inNum);
          dig0 = unsignInNum div BIG_DIGITS_LIMIT
      in \<lparr>digits = [unsignInNum - dig0 * BIG_DIGITS_LIMIT, dig0, 0, 0, 0],
          sign = (if sint inNum < 0 then -1 else 0)\<rparr>)"

definition CFBigNumInitWithUInt64 :: "u64 \<Rightarrow> CFBigNum" where
  "CFBigNumInitWithUInt64 unsignInNum =
     (let dig2 = ucast (unsignInNum div BIG_DIGITS_LIMIT_2) :: u32;
          unsignInNum = unsignInNum - ucast dig2 * BIG_DIGITS_LIMIT_2;
          dig1 = ucast (unsignInNum div BIG_DIGITS_LIMIT) :: u32
      in \<lparr>digits = [ucast (unsignInNum - ucast dig1 * BIG_DIGITS_LIMIT), dig1, dig2, 0, 0], sign = 0\<rparr>)"

definition CFBigNumInitWithInt64 :: "u64 \<Rightarrow> CFBigNum" where
  "CFBigNumInitWithInt64 inNum =
     (let unsignInNum = (if sint inNum < 0 then - inNum else inNum);
          dig2 = ucast (unsignInNum div BIG_DIGITS_LIMIT_2) :: u32;
          unsignInNum = unsignInNum - ucast dig2 * BIG_DIGITS_LIMIT_2;
          dig1 = ucast (unsignInNum div BIG_DIGITS_LIMIT) :: u32
      in \<lparr>digits = [ucast (unsignInNum - ucast dig1 * BIG_DIGITS_LIMIT), dig1, dig2, 0, 0],
          sign = (if sint inNum < 0 then -1 else 0)\<rparr>)"

definition CFBigNumInitWithUInt128 :: "u128 \<Rightarrow> CFBigNum" where
  "CFBigNumInitWithUInt128 unsignInNum =
     (let dig4 = ucast (unsignInNum div BIG_DIGITS_LIMIT_4) :: u32;
          unsignInNum = unsignInNum - ucast dig4 * BIG_DIGITS_LIMIT_4;
          dig3 = ucast (unsignInNum div BIG_DIGITS_LIMIT_3) :: u32;
          unsignInNum = unsignInNum - ucast dig3 * BIG_DIGITS_LIMIT_3;
          dig2 = ucast (unsignInNum div BIG_DIGITS_LIMIT_2) :: u32;
          unsignInNum = unsignInNum - ucast dig2 * BIG_DIGITS_LIMIT_2;
          dig1 = ucast (unsignInNum div BIG_DIGITS_LIMIT) :: u32
      in \<lparr>digits = [ucast (unsignInNum - ucast dig1 * BIG_DIGITS_LIMIT), dig1, dig2, dig3, dig4],
          sign = 0\<rparr>)"

definition CFBigNumInitWithInt128 :: "u128 \<Rightarrow> CFBigNum" where
  "CFBigNumInitWithInt128 inNum =
     (let unsignInNum = (if sint inNum < 0 then - inNum else inNum);
          dig4 = ucast (unsignInNum div BIG_DIGITS_LIMIT_4) :: u32;
          unsignInNum = unsignInNum - ucast dig4 * BIG_DIGITS_LIMIT_4;
          dig3 = ucast (unsignInNum div BIG_DIGITS_LIMIT_3) :: u32;
          unsignInNum = unsignInNum - ucast dig3 * BIG_DIGITS_LIMIT_3;
          dig2 = ucast (unsignInNum div BIG_DIGITS_LIMIT_2) :: u32;
          unsignInNum = unsignInNum - ucast dig2 * BIG_DIGITS_LIMIT_2;
          dig1 = ucast (unsignInNum div BIG_DIGITS_LIMIT) :: u32
      in \<lparr>digits = [ucast (unsignInNum - ucast dig1 * BIG_DIGITS_LIMIT), dig1, dig2, dig3, dig4],
          sign = (if sint inNum < 0 then -1 else 0)\<rparr>)"

section \<open>Conversion to machine integers\<close>

definition CFBigNumGetInt8 :: "CFBigNum \<Rightarrow> 8 word" where
  "CFBigNumGetInt8 num =
     (let result = ucast (digits num ! 0) in if sign num < 0 then - result else result)"

definition CFBigNumGetInt16 :: "CFBigNum \<Rightarrow> 16 word" where
  "CFBigNumGetInt16 num =
     (let result = ucast (digits num ! 0) in if sign num < 0 then - result else result)"

definition CFBigNumGetUInt8 :: "CFBigNum \<Rightarrow> 8 word" where
  "CFBigNumGetUInt8 num = ucast (digits num ! 0)"

definition CFBigNumGetUInt16 :: "CFBigNum \<Rightarrow> 16 word" where
  "CFBigNumGetUInt16 num = ucast (digits num ! 0)"

definition CFBigNumGetUInt32 :: "CFBigNum \<Rightarrow> u32" where
  "CFBigNumGetUInt32 num = digits num ! 0 + digits num ! 1 * BIG_DIGITS_LIMIT"

definition CFBigNumGetInt32 :: "CFBigNum \<Rightarrow> u32" where
  "CFBigNumGetInt32 num =
     (let result = digits num ! 0 + digits num ! 1 * BIG_DIGITS_LIMIT
      in if sign num < 0 then - result else result)"

definition CFBigNumGetUInt64 :: "CFBigNum \<Rightarrow> u64" where
  "CFBigNumGetUInt64 num =
     ucast (digits num ! 0) + ucast (digits num ! 1) * BIG_DIGITS_LIMIT +
     ucast (digits num ! 2) * BIG_DIGITS_LIMIT_2"

definition CFBigNumGetInt64 :: "CFBigNum \<Rightarrow> u64" where
  "CFBigNumGetInt64 num =
     (let result = ucast (digits num ! 0) + ucast (digits num ! 1) * BIG_DIGITS_LIMIT +
            ucast (digits num ! 2) * BIG_DIGITS_LIMIT_2
      in if sign num < 0 then - result else result)"

definition CFBigNumGetUInt128 :: "CFBigNum \<Rightarrow> u128" where
  "CFBigNumGetUInt128 num =
     ucast (digits num ! 0) + ucast (digits num ! 1) * BIG_DIGITS_LIMIT +
     ucast (digits num ! 2) * BIG_DIGITS_LIMIT_2 + ucast (digits num ! 3) * BIG_DIGITS_LIMIT_3 +
     ucast (digits num ! 4) * BIG_DIGITS_LIMIT_4"

definition CFBigNumGetInt128 :: "CFBigNum \<Rightarrow> u128" where
  "CFBigNumGetInt128 num =
     (let result = ucast (digits num ! 0) + ucast (digits num ! 1) * BIG_DIGITS_LIMIT +
            ucast (digits num ! 2) * BIG_DIGITS_LIMIT_2 + ucast (digits num ! 3) * BIG_DIGITS_LIMIT_3 +
            ucast (digits num ! 4) * BIG_DIGITS_LIMIT_4
      in if sign num < 0 then - result else result)"

section \<open>Comparison and arithmetic\<close>

text \<open>The comparison loops run from the most significant digit, so they take the digits reversed.\<close>

fun CFBigNumCompare_loop :: "bool \<Rightarrow> u32 list \<Rightarrow> u32 list \<Rightarrow> CFComparisonResult" where
  "CFBigNumCompare_loop negative (x # xs) (y # ys) =
     (if x < y then (if \<not> negative then kCFCompareLessThan else kCFCompareGreaterThan)
      else if x > y then (if negative then kCFCompareLessThan else kCFCompareGreaterThan)
      else CFBigNumCompare_loop negative xs ys)"
| "CFBigNumCompare_loop negative _ _ = kCFCompareEqualTo"

definition CFBigNumCompare :: "CFBigNum \<Rightarrow> CFBigNum \<Rightarrow> CFComparisonResult" where
  "CFBigNumCompare a b =
     (if sign a = sign b
      then CFBigNumCompare_loop (sign a < 0) (rev (digits a)) (rev (digits b))
      else if sign a < sign b then kCFCompareLessThan else kCFCompareGreaterThan)"

fun CFBigNumAbsoluteLessThan_loop :: "u32 list \<Rightarrow> u32 list \<Rightarrow> bool" where
  "CFBigNumAbsoluteLessThan_loop (x # xs) (y # ys) =
     (if x < y then True else if x > y then False else CFBigNumAbsoluteLessThan_loop xs ys)"
| "CFBigNumAbsoluteLessThan_loop _ _ = False"

definition CFBigNumAbsoluteLessThan :: "CFBigNum \<Rightarrow> CFBigNum \<Rightarrow> bool" where
  "CFBigNumAbsoluteLessThan a b =
     CFBigNumAbsoluteLessThan_loop (rev (digits a)) (rev (digits b))"

definition CFBigNumNeg :: "CFBigNum \<Rightarrow> CFBigNum" where
  "CFBigNumNeg a =
     (let aIsZero = list_all (\<lambda>d. d = 0) (digits a)
      in if \<not> aIsZero then a\<lparr>sign := sign a * sign a - 1\<rparr> else a)"

fun CFBigNumAdd_loop :: "u32 list \<Rightarrow> u32 list \<Rightarrow> u8 \<Rightarrow> u32 list \<times> u8" where
  "CFBigNumAdd_loop (x # xs) (y # ys) carry =
     (let result = x + y + ucast carry;
          (carry, result) = (if result > BIG_DIGITS_LIMIT then (1, result - BIG_DIGITS_LIMIT)
                             else (0, result));
          (rs, carry) = CFBigNumAdd_loop xs ys carry
      in (result # rs, carry))"
| "CFBigNumAdd_loop _ _ carry = ([], carry)"

text \<open>The subtraction loop works on \<open>int64_t\<close>, which holds every value it computes.\<close>

fun CFBigNumSubtract_loop :: "u32 list \<Rightarrow> u32 list \<Rightarrow> u8 \<Rightarrow> u32 list \<times> u8" where
  "CFBigNumSubtract_loop (x # xs) (y # ys) carry =
     (let result = uint x - uint y - uint carry;
          (carry, result) = (if result < 0 then (1, result + BIG_DIGITS_LIMIT) else (0, result));
          (rs, carry) = CFBigNumSubtract_loop xs ys carry
      in (word_of_int result # rs, carry))"
| "CFBigNumSubtract_loop _ _ carry = ([], carry)"

definition CFBigNumAdd :: "CFBigNum \<Rightarrow> CFBigNum \<Rightarrow> CFBigNum \<times> u8" where
  "CFBigNumAdd a b =
     (if sign a = sign b then
        let (rs, carry) = CFBigNumAdd_loop (digits a) (digits b) 0
        in (\<lparr>digits = rs, sign = sign a\<rparr>, carry)
      else
        let (bigNum, smallNum) = (if CFBigNumAbsoluteLessThan a b then (b, a) else (a, b));
            (rs, carry) = CFBigNumSubtract_loop (digits bigNum) (digits smallNum) 0
        in (\<lparr>digits = rs, sign = (if sign bigNum < 0 then -1 else 0)\<rparr>, carry))"

definition CFBigNumSub :: "CFBigNum \<Rightarrow> CFBigNum \<Rightarrow> CFBigNum \<times> u8" where
  "CFBigNumSub a b = CFBigNumAdd a (CFBigNumNeg b)"

section \<open>Numbers of other types\<close>

text \<open>The types of CFNumber.h, with the private \<open>kCFNumberSInt128Type\<close>.\<close>

datatype CFNumberType =
    kCFNumberSInt8Type | kCFNumberSInt16Type | kCFNumberSInt32Type | kCFNumberSInt64Type
  | kCFNumberFloat32Type | kCFNumberFloat64Type
  | kCFNumberCharType | kCFNumberShortType | kCFNumberIntType | kCFNumberLongType
  | kCFNumberLongLongType | kCFNumberFloatType | kCFNumberDoubleType
  | kCFNumberCFIndexType | kCFNumberNSIntegerType | kCFNumberCGFloatType
  | kCFNumberSInt128Type

text \<open>Reading a little-endian integer out of memory.\<close>

fun bytes_val :: "u8 list \<Rightarrow> nat" where
  "bytes_val [] = 0"
| "bytes_val (b # bs) = unat b + 256 * bytes_val bs"

definition read_le :: "nat \<Rightarrow> u8 list \<Rightarrow> 'a::len word" where
  "read_le n bytes = word_of_nat (bytes_val (take n bytes))"

text \<open>
  \<open>kCFNumberSInt128Type\<close> points to a \<open>CFSInt128Struct\<close>: the signed high half, then the low half.
  Types without a case leave the result as it was.
\<close>

definition CFBigNumInitWithBytes :: "CFBigNum \<Rightarrow> u8 list \<Rightarrow> CFNumberType \<Rightarrow> CFBigNum" where
  "CFBigNumInitWithBytes r bytes type =
     (case type of
        kCFNumberSInt8Type \<Rightarrow> CFBigNumInitWithInt8 (read_le 1 bytes)
      | kCFNumberSInt16Type \<Rightarrow> CFBigNumInitWithInt16 (read_le 2 bytes)
      | kCFNumberSInt32Type \<Rightarrow> CFBigNumInitWithInt32 (read_le 4 bytes)
      | kCFNumberSInt64Type \<Rightarrow> CFBigNumInitWithInt64 (read_le 8 bytes)
      | kCFNumberCharType \<Rightarrow> CFBigNumInitWithInt8 (read_le 1 bytes)
      | kCFNumberShortType \<Rightarrow> CFBigNumInitWithInt16 (read_le 2 bytes)
      | kCFNumberIntType \<Rightarrow> CFBigNumInitWithInt32 (read_le 4 bytes)
      | kCFNumberLongType \<Rightarrow> CFBigNumInitWithInt64 (read_le 8 bytes)
      | kCFNumberLongLongType \<Rightarrow> CFBigNumInitWithInt64 (read_le 8 bytes)
      | kCFNumberCFIndexType \<Rightarrow> CFBigNumInitWithInt64 (read_le 8 bytes)
      | kCFNumberNSIntegerType \<Rightarrow> CFBigNumInitWithInt64 (read_le 8 bytes)
      | kCFNumberSInt128Type \<Rightarrow>
          let high = read_le 8 bytes :: u64; low = read_le 8 (drop 8 bytes) :: u64
          in CFBigNumInitWithInt128 (ucast low + push_bit 64 (scast high))
      | _ \<Rightarrow> r)"

text \<open>The number created is its type and its value; NULL is \<open>None\<close>.\<close>

definition CFNumberCreateWithBigNum :: "CFBigNum \<Rightarrow> (CFNumberType \<times> int) option" where
  "CFNumberCreateWithBigNum input =
     (let d = (\<lambda>i. digits input ! i);
          between = (\<lambda>minlimit maxlimit.
             let cr = CFBigNumCompare input maxlimit; crn = CFBigNumCompare input minlimit
             in (kCFCompareLessThan = cr \<or> kCFCompareEqualTo = cr) \<and> kCFCompareLessThan \<noteq> crn)
      in if 0 = d 4 \<and> 0 = d 3 \<and> 0 = d 2 \<and> 0 = d 1 \<and> d 0 \<le> 127
         then Some (kCFNumberSInt8Type, sint (CFBigNumGetInt8 input))
         else if 0 = d 4 \<and> 0 = d 3 \<and> 0 = d 2 \<and> 0 = d 1 \<and> d 0 \<le> 32767
         then Some (kCFNumberSInt16Type, sint (CFBigNumGetInt16 input))
         else if 0 = d 4 \<and> 0 = d 3 \<and> 0 = d 2 \<and>
           between (CFBigNumInitWithInt32 0x80000000) (CFBigNumInitWithInt32 0x7FFFFFFF)
         then Some (kCFNumberSInt32Type, sint (CFBigNumGetInt32 input))
         else if 0 = d 4 \<and> 0 = d 3 \<and>
           between (CFBigNumInitWithInt64 0x8000000000000000) (CFBigNumInitWithInt64 0x7FFFFFFFFFFFFFFF)
         then Some (kCFNumberSInt64Type, sint (CFBigNumGetInt64 input))
         else if between (CFBigNumInitWithInt128 0x80000000000000000000000000000000)
                   (CFBigNumInitWithInt128 0x7FFFFFFFFFFFFFFFFFFFFFFFFFFFFFFF)
         then Some (kCFNumberSInt128Type, sint (CFBigNumGetInt128 input))
         else None)"

section \<open>Decimal strings\<close>

text \<open>\<open>%u\<close> of a number, and \<open>%09u\<close>.\<close>

fun show_dec :: "nat \<Rightarrow> string" where
  "show_dec n = (if n < 10 then [char_of (48 + n)] else show_dec (n div 10) @ [char_of (48 + n mod 10)])"

declare show_dec.simps [simp del]

definition show_dec9 :: "nat \<Rightarrow> string" where
  "show_dec9 n = replicate (9 - length (show_dec n)) (CHR ''0'') @ show_dec n"

text \<open>
  \<open>_CFBigNumToCString\<close>: the C string left in a buffer of \<open>buflen\<close> bytes, up to its NUL.
  \<open>snprintf\<close> into the 46-byte \<open>tmp\<close> keeps 45 characters.
\<close>

definition CFBigNumToCString :: "CFBigNum \<Rightarrow> bool \<Rightarrow> bool \<Rightarrow> nat \<Rightarrow> string" where
  "CFBigNumToCString vp leading_zeros leading_plus buflen =
     (let (prefix, buflen) = (if sign vp < 0 then (''-'', buflen - 1)
                              else if leading_plus then (''+'', buflen - 1) else ([], buflen));
          tmp = take 45 (concat (map (\<lambda>i. show_dec9 (unat (digits vp ! i))) [4, 3, 2, 1, 0]))
      in if leading_zeros then
           let tocopy = min 46 buflen
           in prefix @ takeWhile (\<lambda>c. c \<noteq> CHR 0x00)
                (replicate (buflen - tocopy) (CHR ''0'') @ drop (46 - tocopy) (tmp @ [CHR 0x00]))
         else
           let s = dropWhile (\<lambda>c. c = CHR ''0'') tmp;
               s = (if s = [] then [CHR ''0''] else s)
           in prefix @ take (buflen - 1) s)"

definition c_isspace :: "char \<Rightarrow> bool" where
  "c_isspace c = (c = CHR '' '' \<or> (9 \<le> (of_char c :: nat) \<and> (of_char c :: nat) \<le> 13))"

definition c_isdigit :: "char \<Rightarrow> bool" where
  "c_isdigit c = (48 \<le> (of_char c :: nat) \<and> (of_char c :: nat) \<le> 57)"

definition dec_val :: "string \<Rightarrow> nat" where
  "dec_val s = foldl (\<lambda>a c. 10 * a + (of_char c - 48)) 0 s"

text \<open>\<open>atol\<close>: white space, a sign, digits, and the limits of \<open>long\<close>.\<close>

definition atol :: "string \<Rightarrow> int" where
  "atol s =
     (let s = dropWhile c_isspace s;
          (neg, s) = (case s of c # s' \<Rightarrow> if c = CHR ''-'' then (True, s')
                        else if c = CHR ''+'' then (False, s') else (False, s) | [] \<Rightarrow> (False, s));
          v = int (dec_val (takeWhile c_isdigit s))
      in if neg then max (- (2 ^ 63)) (- v) else min (2 ^ 63 - 1) v)"

function CFBigNumFromCString_loop :: "nat \<Rightarrow> string \<Rightarrow> u32 list \<Rightarrow> u32 list" where
  "CFBigNumFromCString_loop curDigit working ds =
     (if curDigit + 1 < 5 \<and> 9 < length working
      then CFBigNumFromCString_loop (curDigit + 1) (take (length working - 9) working)
             (ds[curDigit := word_of_int (atol (drop (length working - 9) working))])
      else ds[curDigit := word_of_int (atol working)])"
  by pat_completeness auto
termination
  by (relation "measure (\<lambda>(curDigit, working, ds). 5 - curDigit)") auto

declare CFBigNumFromCString_loop.simps [simp del]

definition CFBigNumFromCString :: "string \<Rightarrow> CFBigNum" where
  "CFBigNumFromCString string =
     (let (sgn, working) =
            (case string of c # cs \<Rightarrow> if c = CHR ''-'' then (-1, cs) else if c = CHR ''+'' then (0, cs)
               else (0, string) | [] \<Rightarrow> (0, string));
          working = dropWhile (\<lambda>c. c = CHR ''0'') working
      in if length working = 0 then \<lparr>digits = replicate 5 0, sign = sgn\<rparr>
         else \<lparr>digits = CFBigNumFromCString_loop 0 working (replicate 5 0), sign = sgn\<rparr>)"

section \<open>Values\<close>

fun digits_val :: "u32 list \<Rightarrow> nat" where
  "digits_val [] = 0"
| "digits_val (d # ds) = unat d + 1000000000 * digits_val ds"

definition bn_abs :: "CFBigNum \<Rightarrow> nat" where
  "bn_abs b = digits_val (digits b)"

definition bn_val :: "CFBigNum \<Rightarrow> int" where
  "bn_val b = (if sign b < 0 then - int (bn_abs b) else int (bn_abs b))"

text \<open>Five digits below the base and a sign of 0 or -1; canonical numbers have no negative zero.\<close>

definition digits_ok :: "u32 list \<Rightarrow> bool" where
  "digits_ok ds = list_all (\<lambda>d. unat d < 1000000000) ds"

definition bn_norm :: "CFBigNum \<Rightarrow> bool" where
  "bn_norm b = (length (digits b) = 5 \<and> digits_ok (digits b) \<and> (sign b = 0 \<or> sign b = -1))"

definition bn_canonical :: "CFBigNum \<Rightarrow> bool" where
  "bn_canonical b = (bn_norm b \<and> (bn_abs b = 0 \<longrightarrow> sign b = 0))"

lemma digits_ok_simps [simp]:
  "digits_ok []" "digits_ok (d # ds) = (unat d < 1000000000 \<and> digits_ok ds)"
  by (simp_all add: digits_ok_def)

lemma digits_val_append:
  "digits_val (xs @ ys) = digits_val xs + 1000000000 ^ length xs * digits_val ys"
  by (induction xs) (simp_all add: algebra_simps)

lemma digits_val_bound: "digits_ok ds \<Longrightarrow> digits_val ds < 1000000000 ^ length ds"
proof (induction ds)
  case (Cons d ds)
  then have "digits_val ds + 1 \<le> 1000000000 ^ length ds" "unat d < 1000000000" by simp_all
  then have "1000000000 * (digits_val ds + 1) \<le> 1000000000 * 1000000000 ^ length ds"
    by (intro mult_le_mono) simp_all
  with \<open>unat d < 1000000000\<close> show ?case by simp
qed simp

section \<open>Conversions\<close>

text \<open>Splitting off the leading digit of a word.\<close>

lemma split_digit:
  fixes x L :: "'a::len word"
  assumes "unat L = l" "unat x div l < 2 ^ 32"
  shows "ucast (ucast (x div L) :: u32) = x div L"
    and "unat (ucast (x div L) :: u32) = unat x div l"
    and "x - ucast (ucast (x div L) :: u32) * L = x mod L"
proof -
  have *: "unat (x div L) < 2 ^ LENGTH(32)" using assms by (simp add: unat_div_distrib)
  then show a: "ucast (ucast (x div L) :: u32) = x div L" by (rule ucast_ucast_same)
  from * show "unat (ucast (x div L) :: u32) = unat x div l"
    using assms(1) by (simp add: unat_ucast_mod unat_div_distrib)
  show "x - ucast (ucast (x div L) :: u32) * L = x mod L"
    unfolding a by (rule minus_div_mult_eq_mod)
qed

lemma last_digit:
  fixes x :: "'a::len word"
  assumes "unat (1000000000 :: 'a word) = 1000000000"
  shows "ucast (ucast (x mod 1000000000) :: u32) = x mod 1000000000"
    and "unat (ucast (x mod 1000000000) :: u32) = unat x mod 1000000000"
proof -
  have *: "unat (x mod 1000000000) < 1000000000" using assms by (simp add: unat_mod_distrib)
  then show "ucast (ucast (x mod 1000000000) :: u32) = x mod 1000000000"
    by (intro ucast_ucast_same) simp
  from * show "unat (ucast (x mod 1000000000) :: u32) = unat x mod 1000000000"
    using assms by (simp add: unat_ucast_mod unat_mod_distrib)
qed

lemma unat_lt_64: "unat (x :: u64) < 18446744073709551616"
  using unat_less_exp[of x] by simp

lemma unat_lt_128: "unat (x :: u128) < 340282366920938463463374607431768211456"
  using unat_less_exp[of x] by simp

lemma InitWithUInt32_spec:
  "bn_norm (CFBigNumInitWithUInt32 x) \<and> bn_abs (CFBigNumInitWithUInt32 x) = unat x \<and>
   CFBigNumGetUInt32 (CFBigNumInitWithUInt32 x) = x"
proof -
  have "unat x < 4294967296" using unat_less_exp[of x] by simp
  moreover have "x - x div 1000000000 * 1000000000 = x mod 1000000000"
    by (rule minus_div_mult_eq_mod)
  ultimately show ?thesis
    by (simp add: CFBigNumInitWithUInt32_def CFBigNumGetUInt32_def bn_norm_def bn_abs_def
        unat_div_distrib unat_mod_distrib Let_def mod_div_mult_eq less_mult_imp_div_less)
qed

lemma InitWithUInt64_spec:
  "bn_norm (CFBigNumInitWithUInt64 x) \<and> bn_abs (CFBigNumInitWithUInt64 x) = unat x \<and>
   CFBigNumGetUInt64 (CFBigNumInitWithUInt64 x) = x"
proof -
  let ?L2 = "1000000000000000000 :: u64" and ?L = "1000000000 :: u64"
  define y where "y = x mod ?L2"
  have L: "unat ?L = 1000000000" "unat ?L2 = 1000000000000000000" by simp_all
  have x: "unat x div 1000000000000000000 < 1000" using unat_lt_64[of x] by simp
  have y: "unat y = unat x mod 1000000000000000000" by (simp add: y_def unat_mod_distrib)
  then have y9: "unat y div 1000000000 < 1000000000" by (simp add: less_mult_imp_div_less)
  have d2: "ucast (ucast (x div ?L2) :: u32) = x div ?L2"
    "unat (ucast (x div ?L2) :: u32) = unat x div 1000000000000000000"
    "x - ucast (ucast (x div ?L2) :: u32) * ?L2 = y"
    unfolding y_def using x by (intro split_digit[OF L(2)]; simp)+
  have d1: "ucast (ucast (y div ?L) :: u32) = y div ?L"
    "unat (ucast (y div ?L) :: u32) = unat y div 1000000000"
    "y - ucast (ucast (y div ?L) :: u32) * ?L = y mod ?L"
    using y9 by (intro split_digit[OF L(1)]; simp)+
  have val: "CFBigNumInitWithUInt64 x =
      \<lparr>digits = [ucast (y mod ?L), ucast (y div ?L), ucast (x div ?L2), 0, 0], sign = 0\<rparr>"
    by (simp add: CFBigNumInitWithUInt64_def Let_def d1(3) d2(3))
  have "y mod ?L + y div ?L * ?L = y" "y + x div ?L2 * ?L2 = x"
    by (simp_all add: y_def mod_div_mult_eq)
  then have "CFBigNumGetUInt64 (CFBigNumInitWithUInt64 x) = x"
    by (simp only: val CFBigNumGetUInt64_def d1(1) d2(1) last_digit(1)[OF L(1)] CFBigNum.simps
        nth_Cons_0 nth_Cons_numeral One_nat_def nth_Cons_Suc) (simp add: d1(1) d2(1))
  then show ?thesis
    using x y9 y by (simp add: val bn_norm_def bn_abs_def d1(2) d2(2) last_digit(2)[OF L(1)])
qed

lemma InitWithUInt128_spec:
  "bn_norm (CFBigNumInitWithUInt128 x) \<and> bn_abs (CFBigNumInitWithUInt128 x) = unat x \<and>
   CFBigNumGetUInt128 (CFBigNumInitWithUInt128 x) = x"
proof -
  let ?L4 = "1000000000000000000000000000000000000 :: u128" and ?L3 = "1000000000000000000000000000 :: u128"
  let ?L2 = "1000000000000000000 :: u128" and ?L = "1000000000 :: u128"
  define w where "w = x mod ?L4"
  define z where "z = w mod ?L3"
  define y where "y = z mod ?L2"
  have L: "unat ?L = 1000000000" "unat ?L2 = 1000000000000000000"
    "unat ?L3 = 1000000000000000000000000000" "unat ?L4 = 1000000000000000000000000000000000000"
    by simp_all
  have w: "unat w = unat x mod 1000000000000000000000000000000000000" by (simp add: w_def unat_mod_distrib)
  have z: "unat z = unat w mod 1000000000000000000000000000" by (simp add: z_def unat_mod_distrib)
  have y: "unat y = unat z mod 1000000000000000000" by (simp add: y_def unat_mod_distrib)
  have q: "unat x div 1000000000000000000000000000000000000 < 1000"
    "unat w div 1000000000000000000000000000 < 1000000000"
    "unat z div 1000000000000000000 < 1000000000" "unat y div 1000000000 < 1000000000"
    using unat_lt_128[of x] by (simp_all add: w z y less_mult_imp_div_less)
  have d4: "ucast (ucast (x div ?L4) :: u32) = x div ?L4"
    "unat (ucast (x div ?L4) :: u32) = unat x div 1000000000000000000000000000000000000"
    "x - ucast (ucast (x div ?L4) :: u32) * ?L4 = w"
    unfolding w_def using q(1) by (intro split_digit[OF L(4)]; simp)+
  have d3: "ucast (ucast (w div ?L3) :: u32) = w div ?L3"
    "unat (ucast (w div ?L3) :: u32) = unat w div 1000000000000000000000000000"
    "w - ucast (ucast (w div ?L3) :: u32) * ?L3 = z"
    unfolding z_def using q(2) by (intro split_digit[OF L(3)]; simp)+
  have d2: "ucast (ucast (z div ?L2) :: u32) = z div ?L2"
    "unat (ucast (z div ?L2) :: u32) = unat z div 1000000000000000000"
    "z - ucast (ucast (z div ?L2) :: u32) * ?L2 = y"
    unfolding y_def using q(3) by (intro split_digit[OF L(2)]; simp)+
  have d1: "ucast (ucast (y div ?L) :: u32) = y div ?L"
    "unat (ucast (y div ?L) :: u32) = unat y div 1000000000"
    "y - ucast (ucast (y div ?L) :: u32) * ?L = y mod ?L"
    using q(4) by (intro split_digit[OF L(1)]; simp)+
  have val: "CFBigNumInitWithUInt128 x =
      \<lparr>digits = [ucast (y mod ?L), ucast (y div ?L), ucast (z div ?L2), ucast (w div ?L3), ucast (x div ?L4)],
       sign = 0\<rparr>"
    by (simp add: CFBigNumInitWithUInt128_def Let_def d1(3) d2(3) d3(3) d4(3))
  have "y mod ?L + y div ?L * ?L = y" "y + z div ?L2 * ?L2 = z" "z + w div ?L3 * ?L3 = w"
    "w + x div ?L4 * ?L4 = x"
    by (simp_all add: w_def z_def y_def mod_div_mult_eq)
  then have "CFBigNumGetUInt128 (CFBigNumInitWithUInt128 x) = x"
    by (simp add: val CFBigNumGetUInt128_def d1(1) d2(1) d3(1) d4(1) last_digit(1)[OF L(1)])
  then show ?thesis
    using q by (simp add: val bn_norm_def bn_abs_def d1(2) d2(2) d3(2) d4(2) last_digit(2)[OF L(1)])
      (simp add: y z w)
qed

text \<open>A signed conversion is the unsigned one on the magnitude, with the sign field set.\<close>

definition magnitude :: "'a::len word \<Rightarrow> 'a word" where
  "magnitude x = (if sint x < 0 then - x else x)"

definition sign_of :: "'a::len word \<Rightarrow> int" where
  "sign_of x = (if sint x < 0 then -1 else 0)"

lemma InitWithInt_unsigned:
  "CFBigNumInitWithInt8 a = (CFBigNumInitWithUInt8 (magnitude a))\<lparr>sign := sign_of a\<rparr>"
  "CFBigNumInitWithInt16 b = (CFBigNumInitWithUInt16 (magnitude b))\<lparr>sign := sign_of b\<rparr>"
  "CFBigNumInitWithInt32 c = (CFBigNumInitWithUInt32 (magnitude c))\<lparr>sign := sign_of c\<rparr>"
  "CFBigNumInitWithInt64 d = (CFBigNumInitWithUInt64 (magnitude d))\<lparr>sign := sign_of d\<rparr>"
  "CFBigNumInitWithInt128 e = (CFBigNumInitWithUInt128 (magnitude e))\<lparr>sign := sign_of e\<rparr>"
  by (simp_all add: CFBigNumInitWithInt8_def CFBigNumInitWithUInt8_def CFBigNumInitWithInt16_def
      CFBigNumInitWithUInt16_def CFBigNumInitWithInt32_def CFBigNumInitWithUInt32_def
      CFBigNumInitWithInt64_def CFBigNumInitWithUInt64_def CFBigNumInitWithInt128_def
      CFBigNumInitWithUInt128_def magnitude_def sign_of_def Let_def)

lemma GetInt_unsigned:
  "CFBigNumGetInt8 n = (if sign n < 0 then - CFBigNumGetUInt8 n else CFBigNumGetUInt8 n)"
  "CFBigNumGetInt16 n = (if sign n < 0 then - CFBigNumGetUInt16 n else CFBigNumGetUInt16 n)"
  "CFBigNumGetInt32 n = (if sign n < 0 then - CFBigNumGetUInt32 n else CFBigNumGetUInt32 n)"
  "CFBigNumGetInt64 n = (if sign n < 0 then - CFBigNumGetUInt64 n else CFBigNumGetUInt64 n)"
  "CFBigNumGetInt128 n = (if sign n < 0 then - CFBigNumGetUInt128 n else CFBigNumGetUInt128 n)"
  by (simp_all add: CFBigNumGetInt8_def CFBigNumGetUInt8_def CFBigNumGetInt16_def CFBigNumGetUInt16_def
      CFBigNumGetInt32_def CFBigNumGetUInt32_def CFBigNumGetInt64_def CFBigNumGetUInt64_def
      CFBigNumGetInt128_def CFBigNumGetUInt128_def Let_def)

lemma GetUInt_sign [simp]:
  "CFBigNumGetUInt8 (n\<lparr>sign := s\<rparr>) = CFBigNumGetUInt8 n"
  "CFBigNumGetUInt16 (n\<lparr>sign := s\<rparr>) = CFBigNumGetUInt16 n"
  "CFBigNumGetUInt32 (n\<lparr>sign := s\<rparr>) = CFBigNumGetUInt32 n"
  "CFBigNumGetUInt64 (n\<lparr>sign := s\<rparr>) = CFBigNumGetUInt64 n"
  "CFBigNumGetUInt128 (n\<lparr>sign := s\<rparr>) = CFBigNumGetUInt128 n"
  by (simp_all add: CFBigNumGetUInt8_def CFBigNumGetUInt16_def CFBigNumGetUInt32_def
      CFBigNumGetUInt64_def CFBigNumGetUInt128_def)

lemma InitWithUInt8_spec:
  "bn_norm (CFBigNumInitWithUInt8 x) \<and> bn_abs (CFBigNumInitWithUInt8 x) = unat x \<and>
   CFBigNumGetUInt8 (CFBigNumInitWithUInt8 x) = x"
  using unat_less_exp[of x]
  by (simp add: CFBigNumInitWithUInt8_def CFBigNumGetUInt8_def bn_norm_def bn_abs_def unat_ucast_mod
      ucast_ucast_same)

lemma InitWithUInt16_spec:
  "bn_norm (CFBigNumInitWithUInt16 x) \<and> bn_abs (CFBigNumInitWithUInt16 x) = unat x \<and>
   CFBigNumGetUInt16 (CFBigNumInitWithUInt16 x) = x"
  using unat_less_exp[of x]
  by (simp add: CFBigNumInitWithUInt16_def CFBigNumGetUInt16_def bn_norm_def bn_abs_def unat_ucast_mod
      ucast_ucast_same)

lemmas InitWithUInt_specs =
  InitWithUInt8_spec InitWithUInt16_spec InitWithUInt32_spec InitWithUInt64_spec InitWithUInt128_spec

text \<open>Setting the sign of a number that represents a magnitude.\<close>

lemma signed_spec:
  fixes x :: "'a::len word"
  assumes "bn_norm n" "bn_abs n = unat (magnitude x)"
  shows "bn_canonical (n\<lparr>sign := sign_of x\<rparr>) \<and> bn_val (n\<lparr>sign := sign_of x\<rparr>) = sint x"
proof (cases "sint x < 0")
  case True
  then have "int (unat (- x)) = - sint x" by (rule sint_neg_unat)
  moreover from this have "0 < unat (- x)" using True by linarith
  ultimately show ?thesis
    using assms True
    by (auto simp: bn_canonical_def bn_norm_def bn_val_def bn_abs_def magnitude_def sign_of_def)
next
  case False
  then have "int (unat x) = sint x" "magnitude x = x" "sign_of x = 0"
    by (simp_all add: sint_nonneg_unat magnitude_def sign_of_def del: of_nat_unat)
  with assms show ?thesis
    by (auto simp: bn_canonical_def bn_norm_def bn_val_def bn_abs_def)
qed

lemma magnitude_back: "sign_of x < 0 \<Longrightarrow> - magnitude x = x" "\<not> sign_of x < 0 \<Longrightarrow> magnitude x = x"
  by (simp_all add: sign_of_def magnitude_def split: if_splits)

section \<open>Comparison and arithmetic on values\<close>

lemma leading_digit:
  assumes "digits_ok xs" "digits_ok ys" "length xs = length ys" "x < (y :: u32)"
  shows "digits_val (xs @ [x]) < digits_val (ys @ [y])"
proof -
  let ?b = "1000000000 ^ length ys"
  have "digits_val xs + ?b * unat x < ?b + ?b * unat x"
    using digits_val_bound[OF assms(1)] assms(3) by simp
  also have "\<dots> = ?b * (unat x + 1)" by simp
  also have "\<dots> \<le> ?b * unat y" using assms(4) by (intro mult_le_mono) (simp_all add: word_less_nat_alt)
  finally show ?thesis using assms(3) by (simp add: digits_val_append)
qed

lemma Compare_loop_val:
  assumes "length xs = length ys" "digits_ok xs" "digits_ok ys"
  shows "CFBigNumCompare_loop neg (rev xs) (rev ys) =
    (if digits_val xs = digits_val ys then kCFCompareEqualTo
     else if (digits_val xs < digits_val ys) = (\<not> neg) then kCFCompareLessThan
     else kCFCompareGreaterThan)"
  using assms
proof (induction xs arbitrary: ys rule: rev_induct)
  case (snoc x xs)
  then obtain y zs where ys: "ys = zs @ [y]" by (cases ys rule: rev_cases) auto
  with snoc.prems have ok: "digits_ok xs" "digits_ok zs" "length xs = length zs"
    by (simp_all add: digits_ok_def)
  consider "x < y" | "y < x" | "x = y" by fastforce
  then show ?case
  proof cases
    case 1
    with leading_digit[OF ok(1,2,3) 1] ys show ?thesis by auto
  next
    case 2
    with leading_digit[OF ok(2,1) _ 2] ok(3) ys show ?thesis by auto
  next
    case 3
    with snoc.IH[OF ok(3,1,2)] ok(3) ys show ?thesis by (simp add: digits_val_append)
  qed
qed simp

lemma AbsoluteLessThan_loop_Compare:
  "CFBigNumAbsoluteLessThan_loop xs ys = (CFBigNumCompare_loop False xs ys = kCFCompareLessThan)"
  by (induction xs ys rule: CFBigNumAbsoluteLessThan_loop.induct) auto

lemma AbsoluteLessThan_val:
  "bn_norm a \<Longrightarrow> bn_norm b \<Longrightarrow> CFBigNumAbsoluteLessThan a b = (bn_abs a < bn_abs b)"
  by (simp add: CFBigNumAbsoluteLessThan_def AbsoluteLessThan_loop_Compare Compare_loop_val
      bn_norm_def bn_abs_def)

lemma Add_loop_val:
  assumes "length xs = length ys" "digits_ok xs" "digits_ok ys" "unat c \<le> 1"
    and "CFBigNumAdd_loop xs ys c = (rs, c')"
  shows "digits_val rs + 1000000000 ^ length xs * unat c' = digits_val xs + digits_val ys + unat c \<and>
    unat c' \<le> 1 \<and> length rs = length xs \<and> list_all (\<lambda>d. unat d \<le> 1000000000) rs"
  using assms
proof (induction xs ys arbitrary: c rs rule: list_induct2)
  case (Cons x xs y ys)
  define s where "s = x + y + ucast c"
  define k :: u8 where "k = (if s > 1000000000 then 1 else 0)"
  define d where "d = (if s > 1000000000 then s - 1000000000 else s)"
  obtain rs' where rec: "CFBigNumAdd_loop xs ys k = (rs', c')" and rs: "rs = d # rs'"
    using Cons.prems(4) by (auto simp: Let_def s_def k_def d_def split: prod.splits if_splits)
  have s: "unat s = unat x + unat y + unat c"
    using Cons.prems(1-3) unat_less_exp[of c]
    by (simp add: s_def unat_word_ariths unat_ucast_mod)
  have kd: "unat d + 1000000000 * unat k = unat s" "unat d \<le> 1000000000" "unat k \<le> 1"
    using s Cons.prems(1-3)
    by (auto simp: d_def k_def word_less_nat_alt unat_sub word_le_nat_alt)
  from Cons.IH[OF _ _ kd(3) rec] Cons.prems(1,2) kd s show ?case by (simp add: rs algebra_simps)
qed simp

lemma Subtract_loop_val:
  assumes "length xs = length ys" "digits_ok xs" "digits_ok ys" "unat c \<le> 1"
    and "CFBigNumSubtract_loop xs ys c = (rs, c')"
  shows "digits_val rs + digits_val ys + unat c = digits_val xs + 1000000000 ^ length xs * unat c' \<and>
    unat c' \<le> 1 \<and> length rs = length xs \<and> digits_ok rs"
  using assms
proof (induction xs ys arbitrary: c rs rule: list_induct2)
  case (Cons x xs y ys)
  define s where "s = uint x - uint y - uint c"
  define k :: u8 where "k = (if s < 0 then 1 else 0)"
  define d where "d = (if s < 0 then s + 1000000000 else s)"
  obtain rs' where rec: "CFBigNumSubtract_loop xs ys k = (rs', c')" and rs: "rs = word_of_int d # rs'"
    using Cons.prems(4) by (auto simp: Let_def s_def k_def d_def split: prod.splits if_splits)
  have b: "int (unat x) < 1000000000" "int (unat y) < 1000000000" "int (unat c) \<le> 1"
    "s = int (unat x) - int (unat y) - int (unat c)"
    using Cons.prems(1-3) by (simp_all add: s_def del: of_nat_unat) (simp add: of_nat_unat)
  then have d: "0 \<le> d" "d < 1000000000" by (auto simp: d_def simp del: of_nat_unat)
  then have ud: "int (unat (word_of_int d :: u32)) = d"
    by (simp add: uint_word_of_int_eq take_bit_int_eq_self)
  have kd: "unat (word_of_int d :: u32) + unat y + unat c = unat x + 1000000000 * unat k" "unat k \<le> 1"
    using b(4) ud by (auto simp: d_def k_def simp del: of_nat_unat split: if_splits)
  have "unat (word_of_int d :: u32) < 1000000000" using ud d by linarith
  with Cons.IH[OF _ _ kd(2) rec] Cons.prems(1,2) kd show ?case by (simp add: rs algebra_simps)
qed simp

lemma digits_val_zero: "digits_val ds = 0 \<longleftrightarrow> list_all (\<lambda>d. d = 0) ds"
  by (induction ds) (auto simp: unat_eq_0)

lemma Neg_val:
  assumes "bn_norm a"
  shows "bn_norm (CFBigNumNeg a) \<and> bn_val (CFBigNumNeg a) = - bn_val a \<and> bn_abs (CFBigNumNeg a) = bn_abs a"
  using assms digits_val_zero[of "digits a"]
  by (auto simp: CFBigNumNeg_def Let_def bn_norm_def bn_val_def bn_abs_def)

lemma Neg_canonical: "bn_canonical a \<Longrightarrow> bn_canonical (CFBigNumNeg a)"
  using Neg_val[of a] digits_val_zero[of "digits a"]
  by (auto simp: bn_canonical_def CFBigNumNeg_def Let_def bn_abs_def)

lemma digits_val_bound5: "bn_norm a \<Longrightarrow> bn_abs a < 1000000000 ^ 5"
  using digits_val_bound[of "digits a"] by (simp add: bn_norm_def bn_abs_def)

lemma Add_val:
  assumes a: "bn_norm a" and b: "bn_norm b" and r: "CFBigNumAdd a b = (r, carry)"
  shows "bn_val r + (if sign a < 0 then -1 else 1) * (int (unat carry) * 1000000000 ^ 5) = bn_val a + bn_val b \<and>
    (sign a \<noteq> sign b \<longrightarrow> carry = 0 \<and> bn_norm r)"
proof (cases "sign a = sign b")
  case True
  then obtain rs where l: "CFBigNumAdd_loop (digits a) (digits b) 0 = (rs, carry)"
    and r': "r = \<lparr>digits = rs, sign = sign a\<rparr>"
    using r by (auto simp: CFBigNumAdd_def split: prod.splits)
  have "digits_val rs + 1000000000 ^ 5 * unat carry = bn_abs a + bn_abs b"
    using Add_loop_val[OF _ _ _ _ l] a b by (simp add: bn_norm_def bn_abs_def)
  then have "int (digits_val rs) + 1000000000 ^ 5 * int (unat carry) = int (bn_abs a) + int (bn_abs b)"
    by (simp only: of_nat_add [symmetric] of_nat_mult [symmetric]) (metis of_nat_add of_nat_mult of_nat_numeral of_nat_power)
  with True r' show ?thesis by (simp add: bn_val_def bn_abs_def algebra_simps del: of_nat_unat)
next
  case False
  define lt where "lt = CFBigNumAbsoluteLessThan a b"
  define big small where "big = (if lt then b else a)" and "small = (if lt then a else b)"
  obtain rs where l: "CFBigNumSubtract_loop (digits big) (digits small) 0 = (rs, carry)"
    and r': "r = \<lparr>digits = rs, sign = (if sign big < 0 then -1 else 0)\<rparr>"
    using r False by (auto simp: CFBigNumAdd_def big_def small_def lt_def split: prod.splits if_splits)
  have n: "bn_norm big" "bn_norm small" using a b by (simp_all add: big_def small_def)
  have le: "bn_abs small \<le> bn_abs big"
    using AbsoluteLessThan_val[OF a b] by (auto simp: big_def small_def lt_def)
  have v: "digits_val rs + bn_abs small = bn_abs big + 1000000000 ^ 5 * unat carry"
    "length rs = 5" "digits_ok rs"
    using Subtract_loop_val[OF _ _ _ _ l] n by (simp_all add: bn_norm_def bn_abs_def)
  have "carry = 0"
  proof (rule ccontr)
    assume "carry \<noteq> 0"
    then have "0 < unat carry" by (simp add: unat_gt_0)
    then have "1000000000 ^ 5 \<le> 1000000000 ^ 5 * unat carry" by simp
    with v(1) digits_val_bound[OF v(3)] v(2) le show False by simp
  qed
  moreover have "sign big = 0 \<and> sign small = -1 \<or> sign big = -1 \<and> sign small = 0"
    using a b False by (auto simp: big_def small_def bn_norm_def)
  moreover have "bn_val a + bn_val b = bn_val big + bn_val small"
    by (simp add: big_def small_def)
  ultimately show ?thesis
    using v r' False by (auto simp: bn_val_def bn_abs_def bn_norm_def)
qed

lemma Compare_val:
  assumes a: "bn_canonical a" and b: "bn_canonical b"
  shows "CFBigNumCompare a b =
    (if bn_val a < bn_val b then kCFCompareLessThan
     else if bn_val a = bn_val b then kCFCompareEqualTo else kCFCompareGreaterThan)"
proof (cases "sign a = sign b")
  case True
  then show ?thesis
    using a b
    by (auto simp: CFBigNumCompare_def Compare_loop_val bn_canonical_def bn_norm_def bn_val_def bn_abs_def)
next
  case False
  have "sign x = -1 \<Longrightarrow> 0 < bn_abs x" if "bn_canonical x" for x
    using that by (auto simp: bn_canonical_def)
  with False a b show ?thesis
    by (auto simp: CFBigNumCompare_def bn_canonical_def bn_norm_def bn_val_def)
qed

section \<open>Reading a value back at a machine width\<close>

lemma word_of_nat_digits:
  "(word_of_nat (digits_val [a, b, c, d, e]) :: u128) =
     ucast a + ucast b * 1000000000 + ucast c * 1000000000000000000 +
     ucast d * 1000000000000000000000000000 + ucast e * 1000000000000000000000000000000000000"
  by (simp add: algebra_simps)

lemma length5: "length xs = 5 \<Longrightarrow> \<exists>a b c d e. xs = [a, b, c, d, e]"
  by (auto simp: length_Suc_conv numeral_eq_Suc)

lemma GetUInt128_abs:
  "length (digits n) = 5 \<Longrightarrow> CFBigNumGetUInt128 n = word_of_nat (bn_abs n)"
  using length5[of "digits n"]
  by (auto simp: CFBigNumGetUInt128_def bn_abs_def word_of_nat_digits simp del: digits_val.simps)

lemma GetUInt64_abs:
  "length (digits n) = 5 \<Longrightarrow> digits n ! 3 = 0 \<Longrightarrow> digits n ! 4 = 0 \<Longrightarrow>
     CFBigNumGetUInt64 n = word_of_nat (bn_abs n)"
  using length5[of "digits n"]
  by (auto simp: CFBigNumGetUInt64_def bn_abs_def algebra_simps)

lemma GetUInt32_abs:
  "length (digits n) = 5 \<Longrightarrow> digits n ! 2 = 0 \<Longrightarrow> digits n ! 3 = 0 \<Longrightarrow> digits n ! 4 = 0 \<Longrightarrow>
     CFBigNumGetUInt32 n = word_of_nat (bn_abs n)"
  using length5[of "digits n"]
  by (auto simp: CFBigNumGetUInt32_def bn_abs_def algebra_simps)

lemma GetUInt16_abs:
  "length (digits n) = 5 \<Longrightarrow> bn_abs n = unat (digits n ! 0) \<Longrightarrow>
     CFBigNumGetUInt16 n = word_of_nat (bn_abs n) \<and> CFBigNumGetUInt8 n = word_of_nat (bn_abs n)"
  by (simp add: CFBigNumGetUInt16_def CFBigNumGetUInt8_def)

text \<open>A word that holds the value of a number in range reads back as that value.\<close>

lemma sint_of_val:
  fixes g :: "'a::len word"
  assumes "g = (if sign n < 0 then - word_of_nat (bn_abs n) else word_of_nat (bn_abs n))"
    and "- (2 ^ (LENGTH('a) - 1)) \<le> bn_val n" "bn_val n < 2 ^ (LENGTH('a) - 1)"
  shows "sint g = bn_val n"
proof -
  have "g = word_of_int (bn_val n)" using assms(1) by (simp add: bn_val_def)
  with assms(2,3) show ?thesis by (simp add: sint_sbintrunc' signed_take_bit_int_eq_self)
qed

section \<open>Decimal strings on values\<close>

lemma dec_foldl:
  fixes f :: "char \<Rightarrow> nat"
  shows "foldl (\<lambda>a c. 10 * a + f c) n s = n * 10 ^ length s + foldl (\<lambda>a c. 10 * a + f c) 0 s"
proof (induction s arbitrary: n)
  case (Cons c s)
  show ?case using Cons.IH[of "10 * n + f c"] Cons.IH[of "f c"] by (simp add: algebra_simps)
qed simp

lemma dec_val_append: "dec_val (xs @ ys) = dec_val xs * 10 ^ length ys + dec_val ys"
  unfolding dec_val_def foldl_append by (rule dec_foldl)

lemma dec_val_simps [simp]: "dec_val [] = 0" "dec_val [c] = of_char c - 48"
  by (simp_all add: dec_val_def)

lemma dec_val_Cons: "dec_val (c # cs) = (of_char c - 48) * 10 ^ length cs + dec_val cs"
  using dec_val_append[of "[c]" cs] by simp

lemma dec_val_bound: "list_all c_isdigit s \<Longrightarrow> dec_val s < 10 ^ length s"
proof (induction s)
  case (Cons c s)
  then have "c_isdigit c" "dec_val s < 10 ^ length s" by simp_all
  then have "of_char c - 48 \<le> (9 :: nat)" "dec_val s < 10 ^ length s" by (auto simp: c_isdigit_def)
  then have "(of_char c - 48) * 10 ^ length s + dec_val s < 9 * 10 ^ length s + 10 ^ length s"
    by (intro add_le_less_mono mult_le_mono) simp_all
  then show ?case by (simp add: dec_val_Cons)
qed simp

lemma dec_val_replicate_0: "dec_val (replicate n (CHR ''0'') @ s) = dec_val s"
  by (induction n) (simp_all add: dec_val_Cons)

lemma dec_val_dropWhile_0: "dec_val (dropWhile (\<lambda>c. c = CHR ''0'') s) = dec_val s"
  by (induction s) (simp_all add: dec_val_Cons)

lemma digit_char: "n < 10 \<Longrightarrow> c_isdigit (char_of (48 + n)) \<and> of_char (char_of (48 + n) :: char) - 48 = n"
  for n :: nat
  by (simp add: c_isdigit_def)

lemma show_dec_spec: "list_all c_isdigit (show_dec n) \<and> dec_val (show_dec n) = n \<and> show_dec n \<noteq> []"
proof (induction n rule: show_dec.induct)
  case (1 n)
  show ?case
  proof (cases "n < 10")
    case True
    with digit_char[of n] show ?thesis by (subst (1 2 3) show_dec.simps) simp
  next
    case False
    with 1 digit_char[of "n mod 10"] show ?thesis
      by (subst (1 2 3) show_dec.simps) (simp add: dec_val_append)
  qed
qed

lemma length_show_dec: "n < 10 ^ Suc k \<Longrightarrow> length (show_dec n) \<le> Suc k"
proof (induction k arbitrary: n)
  case 0
  then show ?case by (simp add: show_dec.simps)
next
  case (Suc k)
  then have "n div 10 < 10 ^ Suc k" by (simp add: less_mult_imp_div_less)
  from Suc.IH[OF this] show ?case by (subst show_dec.simps) simp
qed

lemma show_dec9_spec:
  assumes "n < 1000000000"
  shows "length (show_dec9 n) = 9 \<and> list_all c_isdigit (show_dec9 n) \<and> dec_val (show_dec9 n) = n"
proof -
  have "length (show_dec n) \<le> 9" using assms length_show_dec[of n 8] by simp
  then show ?thesis
    using show_dec_spec[of n]
    by (simp add: show_dec9_def dec_val_replicate_0 list_all_iff) (auto simp: c_isdigit_def)
qed

lemma atol_digits:
  assumes "list_all c_isdigit s" "length s \<le> 9"
  shows "atol s = int (dec_val s) \<and> dec_val s < 1000000000"
proof -
  have "(10 :: nat) ^ length s \<le> 10 ^ 9" using assms(2) by (intro power_increasing) simp_all
  then have b: "dec_val s < 1000000000" using dec_val_bound[OF assms(1)] by simp
  have first: "\<not> c_isspace c \<and> c \<noteq> CHR ''-'' \<and> c \<noteq> CHR ''+''" if "c_isdigit c" for c
    using that by (auto simp: c_isdigit_def c_isspace_def)
  have sp: "dropWhile c_isspace s = s" using assms(1) first by (cases s) simp_all
  have tw: "takeWhile c_isdigit s = s" using assms(1) by (simp add: list_all_iff takeWhile_eq_all_conv)
  have sgn: "(case s of c # s' \<Rightarrow> if c = CHR ''-'' then (True, s')
      else if c = CHR ''+'' then (False, s') else (False, s) | [] \<Rightarrow> (False, s)) = (False, s)"
    using assms(1) first by (cases s) auto
  show ?thesis unfolding atol_def sp Let_def sgn using b by (simp add: tw)
qed

lemma digits_val_inj:
  "length xs = length ys \<Longrightarrow> digits_ok xs \<Longrightarrow> digits_ok ys \<Longrightarrow> digits_val xs = digits_val ys \<Longrightarrow> xs = ys"
proof (induction xs ys rule: list_induct2)
  case (Cons x xs y ys)
  from Cons.prems(3) have "(unat x + 1000000000 * digits_val xs) mod 1000000000 =
      (unat y + 1000000000 * digits_val ys) mod 1000000000" by simp
  with Cons.prems(1,2) have u: "unat x = unat y" by simp
  then have "x = y" by (rule unsigned_word_eqI)
  with Cons u show ?case by simp
qed simp

lemma digits_val_replicate_0 [simp]: "digits_val (replicate n 0) = 0"
  by (induction n) simp_all

lemma digits_ok_replicate_0 [simp]: "digits_ok (replicate n 0)"
  by (induction n) simp_all

lemma unat_word_of_nat_32: "n < 4294967296 \<Longrightarrow> unat (word_of_nat n :: u32) = n"
  by (simp add: unsigned_of_nat take_bit_nat_eq_self)

lemma FromCString_loop_val:
  assumes "list_all c_isdigit w" "length w \<le> 9 * (5 - cur)" "cur < 5" "length pre = cur"
  shows "\<exists>q. CFBigNumFromCString_loop cur w (pre @ replicate (5 - cur) 0) = pre @ q \<and>
    length q = 5 - cur \<and> digits_ok q \<and> digits_val q = dec_val w"
  using assms
proof (induction "5 - cur" arbitrary: cur w pre rule: less_induct)
  case less
  obtain m where m: "5 - cur = Suc m" using less.prems(3) by (cases "5 - cur") simp_all
  show ?case
  proof (cases "cur + 1 < 5 \<and> 9 < length w")
    case True
    define c r where "c = drop (length w - 9) w" and "r = take (length w - 9) w"
    define d :: u32 where "d = word_of_int (atol c)"
    have w: "w = r @ c" and lc: "length c = 9" using True by (simp_all add: c_def r_def)
    then have dig: "list_all c_isdigit c" "list_all c_isdigit r" using less.prems(1) by simp_all
    have a: "atol c = int (dec_val c)" "dec_val c < 1000000000" using atol_digits[OF dig(1)] lc by simp_all
    then have d: "unat d = dec_val c" by (simp add: d_def unat_word_of_nat_32)
    have upd: "(pre @ replicate (5 - cur) 0)[cur := d] = (pre @ [d]) @ replicate (5 - (cur + 1)) 0"
      using less.prems(4) m by (simp add: list_update_append)
    have "\<exists>q. CFBigNumFromCString_loop (cur + 1) r ((pre @ [d]) @ replicate (5 - (cur + 1)) 0) = (pre @ [d]) @ q \<and>
        length q = 5 - (cur + 1) \<and> digits_ok q \<and> digits_val q = dec_val r"
      using less.prems(2,4) True dig(2) by (intro less.hyps) (auto simp: r_def)
    then obtain q where q: "CFBigNumFromCString_loop (cur + 1) r ((pre @ [d]) @ replicate (5 - (cur + 1)) 0) = (pre @ [d]) @ q"
      "length q = 5 - (cur + 1)" "digits_ok q" "digits_val q = dec_val r" by blast
    have "CFBigNumFromCString_loop cur w (pre @ replicate (5 - cur) 0) = pre @ (d # q)"
      using True q(1) upd by (subst CFBigNumFromCString_loop.simps) (simp add: c_def r_def d_def)
    moreover have "digits_val (d # q) = dec_val w" using q(4) d lc by (simp add: w dec_val_append)
    moreover have "Suc (5 - (cur + 1)) = 5 - cur" using True by auto
    ultimately show ?thesis using q(2,3) a(2) d by (intro exI[of _ "d # q"]) simp
  next
    case False
    then have "length w \<le> 9" using less.prems(2,3) by auto
    then have a: "atol w = int (dec_val w)" "dec_val w < 1000000000" using atol_digits[OF less.prems(1)] by simp_all
    define d :: u32 where "d = word_of_int (atol w)"
    have d: "unat d = dec_val w" using a by (simp add: d_def unat_word_of_nat_32)
    have "CFBigNumFromCString_loop cur w (pre @ replicate (5 - cur) 0) = pre @ (d # replicate m 0)"
      using False less.prems(4) m
      by (subst CFBigNumFromCString_loop.simps) (auto simp: d_def list_update_append)
    then show ?thesis using m a(2) d by (intro exI[of _ "d # replicate m 0"]) simp
  qed
qed

lemma FromCString_prefix:
  assumes "list_all c_isdigit body" "dropWhile (\<lambda>c. c = CHR ''0'') body = s" "length s \<le> 45" "body \<noteq> []"
    and "prefix = ''-'' \<and> sg = -1 \<or> (prefix = ''+'' \<or> prefix = []) \<and> sg = 0"
  shows "\<exists>ds. CFBigNumFromCString (prefix @ body) = \<lparr>digits = ds, sign = sg\<rparr> \<and>
    length ds = 5 \<and> digits_ok ds \<and> digits_val ds = dec_val body"
proof -
  have "c \<noteq> CHR ''-'' \<and> c \<noteq> CHR ''+''" if "body = c # b" for c b
    using assms(1) that by (auto simp: c_isdigit_def)
  then have "(case prefix @ body of c # cs \<Rightarrow> if c = CHR ''-'' then (-1, cs)
      else if c = CHR ''+'' then (0, cs) else (0, prefix @ body) | [] \<Rightarrow> (0, prefix @ body)) = (sg, body)"
    using assms(4,5) by (cases body) auto
  then have "CFBigNumFromCString (prefix @ body) =
      (if s = [] then \<lparr>digits = replicate 5 0, sign = sg\<rparr>
       else \<lparr>digits = CFBigNumFromCString_loop 0 s (replicate 5 0), sign = sg\<rparr>)"
    by (simp add: CFBigNumFromCString_def assms(2) del: dropWhile_eq_Nil_conv)
  moreover have "dec_val s = dec_val body" using dec_val_dropWhile_0[of body] assms(2) by simp
  moreover have "list_all c_isdigit s"
    using assms(1,2) set_dropWhileD[of _ "\<lambda>c. c = CHR ''0''" body] by (auto simp: list_all_iff)
  ultimately show ?thesis
    using FromCString_loop_val[of s 0 "[]"] assms(3) by (cases "s = []") auto
qed

lemma printed_digits:
  assumes "bn_norm n"
  shows "length (concat (map (\<lambda>i. show_dec9 (unat (digits n ! i))) [4, 3, 2, 1, 0])) = 45 \<and>
    list_all c_isdigit (concat (map (\<lambda>i. show_dec9 (unat (digits n ! i))) [4, 3, 2, 1, 0])) \<and>
    dec_val (concat (map (\<lambda>i. show_dec9 (unat (digits n ! i))) [4, 3, 2, 1, 0])) = bn_abs n"
proof -
  obtain a b c d e where ds: "digits n = [a, b, c, d, e]"
    using assms length5[of "digits n"] by (auto simp: bn_norm_def)
  then have "unat a < 1000000000" "unat b < 1000000000" "unat c < 1000000000"
    "unat d < 1000000000" "unat e < 1000000000"
    using assms by (simp_all add: bn_norm_def)
  note s = this [THEN show_dec9_spec]
  from s show ?thesis by (simp add: ds dec_val_append bn_abs_def)
qed

section \<open>Properties\<close>


lemmas InitWithInt_val =
  signed_spec[OF InitWithUInt32_spec[THEN conjunct1] InitWithUInt32_spec[THEN conjunct2, THEN conjunct1],
    folded InitWithInt_unsigned]
  signed_spec[OF InitWithUInt64_spec[THEN conjunct1] InitWithUInt64_spec[THEN conjunct2, THEN conjunct1],
    folded InitWithInt_unsigned]
  signed_spec[OF InitWithUInt128_spec[THEN conjunct1] InitWithUInt128_spec[THEN conjunct2, THEN conjunct1],
    folded InitWithInt_unsigned]

text \<open>
  on canonical numbers \<open>_CFBigNumCompare\<close> orders the values.
\<close>

theorem CFBigNumCompare_correct:
  assumes "bn_canonical a" "bn_canonical b"
  shows "CFBigNumCompare a b =
    (if bn_val a < bn_val b then kCFCompareLessThan
     else if bn_val a = bn_val b then kCFCompareEqualTo else kCFCompareGreaterThan)"
  using Compare_val[OF assms] .

theorem CFBigNumCompare_correct_witness:
  "CFBigNumCompare (CFBigNumInitWithInt64 (-5)) (CFBigNumInitWithInt64 7) = kCFCompareLessThan"
  using CFBigNumCompare_correct[of "CFBigNumInitWithInt64 (-5)" "CFBigNumInitWithInt64 7"]
  by (simp add: InitWithInt_val)

text \<open>
  C27: \<open>_CFBigNumAdd\<close> and \<open>_CFBigNumSub\<close> are exact up to the returned carry, which counts
  \<open>10^45\<close> and is zero whenever magnitudes are subtracted.
\<close>

theorem CFBigNumAdd_Sub_exact:
  assumes "bn_norm a" "bn_norm b"
  shows "(case CFBigNumAdd a b of (r, carry) \<Rightarrow>
      bn_val r + (if sign a < 0 then -1 else 1) * (int (unat carry) * 1000000000 ^ 5) = bn_val a + bn_val b \<and>
      (sign a \<noteq> sign b \<longrightarrow> carry = 0 \<and> bn_norm r)) \<and>
    (case CFBigNumSub a b of (r, carry) \<Rightarrow>
      bn_val r + (if sign a < 0 then -1 else 1) * (int (unat carry) * 1000000000 ^ 5) = bn_val a - bn_val b)"
  using Add_val[OF assms] Add_val[OF assms(1), of "CFBigNumNeg b"] Neg_val[OF assms(2)]
  by (auto simp: CFBigNumSub_def split: prod.split)

theorem CFBigNumAdd_Sub_exact_witness:
  "case CFBigNumSub (CFBigNumInitWithInt64 12) (CFBigNumInitWithInt64 (-30)) of (r, carry) \<Rightarrow>
     bn_val r + int (unat carry) * 1000000000 ^ 5 = 42"
proof -
  have "sint (12 :: u64) = 12" "sint (-30 :: u64) = -30" by simp_all
  moreover have "sign (CFBigNumInitWithInt64 12) = 0" by (simp add: CFBigNumInitWithInt64_def Let_def)
  ultimately show ?thesis
    using CFBigNumAdd_Sub_exact[of "CFBigNumInitWithInt64 12" "CFBigNumInitWithInt64 (-30)"]
      InitWithInt_val(2)[of 12] InitWithInt_val(2)[of "-30"]
    by (simp add: bn_canonical_def split: prod.splits)
qed

text \<open>
  when a column of two numbers of the same sign adds up to exactly the base, \<open>_CFBigNumAdd\<close>
  stores the base itself as a digit and no carry, because it tests \<open>>\<close> where \<open>\<ge>\<close> is needed:
  the result is not normalised.
\<close>

theorem CFBigNumAdd_stores_base:
  assumes "bn_norm a" "bn_norm b" "sign a = sign b"
    and "unat (digits a ! 0) + unat (digits b ! 0) = 1000000000"
  shows "digits (fst (CFBigNumAdd a b)) ! 0 = 1000000000 \<and> \<not> bn_norm (fst (CFBigNumAdd a b))"
proof -
  obtain x xs y ys where ds: "digits a = x # xs" "digits b = y # ys" "unat x + unat y = 1000000000"
    using assms length5[of "digits a"] length5[of "digits b"] by (auto simp: bn_norm_def)
  then have "unat (x + y) = unat (1000000000 :: u32)" by (simp add: unat_word_ariths)
  then have "x + y = 1000000000" by (rule unsigned_word_eqI)
  then show ?thesis using assms(3) ds by (auto simp: CFBigNumAdd_def bn_norm_def split: prod.splits)
qed

theorem CFBigNumAdd_stores_base_witness:
  "let r = fst (CFBigNumAdd (CFBigNumInitWithInt32 999999999) (CFBigNumInitWithInt32 1))
   in digits r ! 0 = 1000000000 \<and>
      CFBigNumCompare r (CFBigNumInitWithInt32 1000000000) = kCFCompareLessThan"
proof -
  let ?a = "CFBigNumInitWithInt32 999999999" and ?b = "CFBigNumInitWithInt32 1"
  have "digits ?a ! 0 = 999999999" "digits ?b ! 0 = 1" "sign ?a = sign ?b"
    by (simp_all add: CFBigNumInitWithInt32_def Let_def)
  moreover have "bn_norm ?a" "bn_norm ?b"
    using InitWithInt_val(1)[of 999999999] InitWithInt_val(1)[of 1] by (simp_all add: bn_canonical_def)
  ultimately have "digits (fst (CFBigNumAdd ?a ?b)) ! 0 = 1000000000"
    using CFBigNumAdd_stores_base[of ?a ?b] by simp
  moreover have "CFBigNumCompare (fst (CFBigNumAdd ?a ?b)) (CFBigNumInitWithInt32 1000000000) = kCFCompareLessThan"
    by (simp add: CFBigNumAdd_def CFBigNumInitWithInt32_def CFBigNumCompare_def Let_def)
  ultimately show ?thesis by (simp add: Let_def)
qed

text \<open>
  adding a negative number and its negation gives a zero with the sign field set, and
  \<open>_CFBigNumCompare\<close> reports that zero as less than zero.
\<close>

theorem CFBigNumAdd_negative_zero:
  assumes "bn_canonical a" "bn_val a < 0"
  shows "case CFBigNumAdd a (CFBigNumNeg a) of (r, carry) \<Rightarrow>
    bn_val r = 0 \<and> sign r = -1 \<and> CFBigNumCompare r (CFBigNumInitWithInt32 0) = kCFCompareLessThan"
proof -
  obtain r carry where r: "CFBigNumAdd a (CFBigNumNeg a) = (r, carry)" by fastforce
  have n: "bn_norm a" "sign a = -1" using assms by (auto simp: bn_canonical_def bn_norm_def bn_val_def)
  have neg: "sign (CFBigNumNeg a) = 0" "bn_norm (CFBigNumNeg a)" "bn_abs (CFBigNumNeg a) = bn_abs a"
    using Neg_val[OF n(1)] n(2) assms(2) digits_val_zero[of "digits a"]
    by (auto simp: CFBigNumNeg_def Let_def bn_val_def bn_abs_def)
  have "\<not> CFBigNumAbsoluteLessThan a (CFBigNumNeg a)"
    using AbsoluteLessThan_val[OF n(1) neg(2)] neg(3) by simp
  then have "sign r = -1" using r n(2) neg(1) by (auto simp: CFBigNumAdd_def split: prod.splits)
  moreover have "bn_val r = 0"
    using Add_val[OF n(1) neg(2) r] n(2) neg(1) Neg_val[OF n(1)] by simp
  ultimately show ?thesis
    using r by (simp add: CFBigNumCompare_def CFBigNumInitWithInt32_def Let_def)
qed

theorem CFBigNumAdd_negative_zero_witness:
  "case CFBigNumAdd (CFBigNumInitWithInt32 (-5)) (CFBigNumNeg (CFBigNumInitWithInt32 (-5))) of (r, carry) \<Rightarrow>
    bn_val r = 0 \<and> CFBigNumCompare r (CFBigNumInitWithInt32 0) = kCFCompareLessThan"
  using CFBigNumAdd_negative_zero[of "CFBigNumInitWithInt32 (-5)"] InitWithInt_val(1)[of "-5"]
  by (auto split: prod.splits)

lemma between_limits:
  assumes "bn_canonical n" "bn_canonical lo" "bn_canonical hi"
  shows "((kCFCompareLessThan = CFBigNumCompare n hi \<or> kCFCompareEqualTo = CFBigNumCompare n hi) \<and>
      kCFCompareLessThan \<noteq> CFBigNumCompare n lo) \<longleftrightarrow> bn_val lo \<le> bn_val n \<and> bn_val n \<le> bn_val hi"
  using assms by (auto simp: Compare_val)

lemma int_limits:
  "sint (0x80000000 :: u32) = - (2 ^ 31)" "sint (0x7FFFFFFF :: u32) = 2 ^ 31 - 1"
  "sint (0x8000000000000000 :: u64) = - (2 ^ 63)" "sint (0x7FFFFFFFFFFFFFFF :: u64) = 2 ^ 63 - 1"
  "sint (0x80000000000000000000000000000000 :: u128) = - (2 ^ 127)"
  "sint (0x7FFFFFFFFFFFFFFFFFFFFFFFFFFFFFFF :: u128) = 2 ^ 127 - 1"
  by simp_all

lemma single_digit_abs:
  assumes "bn_norm n" "0 = digits n ! 4" "0 = digits n ! 3" "0 = digits n ! 2" "0 = digits n ! 1"
  shows "bn_abs n = unat (digits n ! 0)"
  using assms length5[of "digits n"] by (auto simp: bn_norm_def bn_abs_def)

lemma first_fitting_type:
  assumes "c1 \<Longrightarrow> P v1" "c2 \<Longrightarrow> P v2" "c3 \<Longrightarrow> P v3" "c4 \<Longrightarrow> P v4" "c5 \<Longrightarrow> P v5" "\<not> c5 \<Longrightarrow> Q"
  shows "case (if c1 then Some (t1, v1) else if c2 then Some (t2, v2) else if c3 then Some (t3, v3)
      else if c4 then Some (t4, v4) else if c5 then Some (t5, v5) else None) of
    None \<Rightarrow> Q | Some (ty, v) \<Rightarrow> P v"
  using assms by simp



text \<open>
  C28: a canonical number printed by \<open>_CFBigNumToCString\<close> into a large enough buffer, with or
  without leading zeros and plus sign, is read back by \<open>_CFBigNumFromCString\<close> unchanged.
\<close>

theorem CFBigNum_string_roundtrip:
  assumes "bn_canonical n" "47 \<le> buflen"
  shows "CFBigNumFromCString (CFBigNumToCString n leading_zeros leading_plus buflen) = n"
proof -
  let ?z = "\<lambda>c. c = CHR ''0''"
  define tmp where "tmp = concat (map (\<lambda>i. show_dec9 (unat (digits n ! i))) [4, 3, 2, 1, 0])"
  have norm: "bn_norm n" using assms(1) by (simp add: bn_canonical_def)
  note p = printed_digits[OF norm, folded tmp_def]
  define prefix where "prefix = (if sign n < 0 then ''-'' else if leading_plus then ''+'' else [])"
  define len where "len = buflen - length prefix"
  have len: "46 \<le> len" using assms(2) by (auto simp: len_def prefix_def)
  define s where "s = dropWhile ?z tmp"
  define body where "body = (if leading_zeros then replicate (len - 46) (CHR ''0'') @ tmp
    else if s = [] then [CHR ''0''] else s)"
  have sl: "length s \<le> 45" using p length_dropWhile_le[of ?z tmp] by (simp add: s_def)
  have nul: "takeWhile (\<lambda>c. c \<noteq> CHR 0x00) (replicate k (CHR ''0'') @ tmp @ [CHR 0x00]) =
      replicate k (CHR ''0'') @ tmp" for k
  proof -
    have "\<forall>c \<in> set (replicate k (CHR ''0'') @ tmp). c \<noteq> CHR 0x00"
      using p by (auto simp: list_all_iff c_isdigit_def)
    then show ?thesis by (simp add: takeWhile_append2 takeWhile_append)
  qed
  have pr: "(if sign n < 0 then (''-'', buflen - 1) else if leading_plus then (''+'', buflen - 1)
      else ([], buflen)) = (prefix, len)"
    by (simp add: prefix_def len_def)
  have tmp45: "take 45 tmp = tmp" "length tmp = 45" using p by simp_all
  have str: "CFBigNumToCString n leading_zeros leading_plus buflen = prefix @ body"
    unfolding CFBigNumToCString_def pr prod.case Let_def tmp_def[symmetric] tmp45 s_def[symmetric] body_def
    using len sl tmp45(2) nul[of "len - 46"] by (auto simp: min_def)
  have body: "list_all c_isdigit body" "dropWhile ?z body = s" "body \<noteq> []" "dec_val body = bn_abs n"
  proof -
    have sd: "list_all c_isdigit s" using p set_dropWhileD[of _ ?z tmp] by (auto simp: s_def list_all_iff)
    have sv: "dec_val s = bn_abs n" using p by (simp add: s_def dec_val_dropWhile_0)
    have dr: "dropWhile ?z (replicate k (CHR ''0'') @ tmp) = s" for k
      by (induction k) (simp_all add: s_def)
    have ds: "dropWhile ?z s = s" by (simp add: s_def)
    show "list_all c_isdigit body" using sd p by (auto simp: body_def list_all_iff c_isdigit_def)
    show "dropWhile ?z body = s" using dr ds by (simp add: body_def)
    show "body \<noteq> []" using p by (auto simp: body_def)
    show "dec_val body = bn_abs n" using p sv by (auto simp: body_def dec_val_replicate_0)
  qed
  have "\<exists>ds. CFBigNumFromCString (prefix @ body) = \<lparr>digits = ds, sign = sign n\<rparr> \<and>
      length ds = 5 \<and> digits_ok ds \<and> digits_val ds = dec_val body"
    using norm by (intro FromCString_prefix[OF body(1,2) sl body(3)]) (auto simp: prefix_def bn_norm_def)
  then obtain ds where "CFBigNumFromCString (prefix @ body) = \<lparr>digits = ds, sign = sign n\<rparr>" "ds = digits n"
    using norm body(4) digits_val_inj[of _ "digits n"] by (auto simp: bn_norm_def bn_abs_def)
  then show ?thesis by (simp add: str)
qed

theorem CFBigNum_string_roundtrip_witness:
  "CFBigNumFromCString (CFBigNumToCString (CFBigNumInitWithInt32 (-1234567890)) False True 64) =
     CFBigNumInitWithInt32 (-1234567890)"
  using InitWithInt_val(1)[of "-1234567890"] by (intro CFBigNum_string_roundtrip) simp_all

end
