(* ===== verification/ObjC_DenseMap.thy ===== *)
theory ObjC_DenseMap
  imports Prelude "HOL-Library.Monad_Syntax"
begin

text \<open>
  The hash table of the Objective-C runtime (runtime/llvm-DenseMap.h, llvm-DenseMapInfo.h,
  llvm-MathExtras.h): open addressing with quadratic probing, tombstones, growth, and the
  purgeable zero values of the refcount table. A bucket array is a list of key/value pairs;
  a null bucket pointer is the empty list. \<open>DenseMapBase\<close> calls \<open>grow\<close> and
  \<open>shrink_and_clear\<close> of the derived class, so the operations of the base take them as
  arguments. \<open>_objc_fatal\<close> is the result \<open>None\<close>.
\<close>

section \<open>Bit tricks (llvm-MathExtras.h)\<close>

definition NextPowerOf2 :: "u32 \<Rightarrow> u32" where
  "NextPowerOf2 A0 =
     (let A1 = A0 OR drop_bit 1 A0;
          A2 = A1 OR drop_bit 2 A1;
          A3 = A2 OR drop_bit 4 A2;
          A4 = A3 OR drop_bit 8 A3;
          A5 = A4 OR drop_bit 16 A4
      in A5 + 1)"

text \<open>\<open>__builtin_clz\<close> of a nonzero word is 32 minus the position of its highest set bit.\<close>

definition CountLeadingZeros_32 :: "u32 \<Rightarrow> nat" where
  "CountLeadingZeros_32 Value = (if Value = 0 then 32 else 32 - flsl (unat Value))"

definition Log2_32_Ceil :: "u32 \<Rightarrow> nat" where
  "Log2_32_Ceil Value = 32 - CountLeadingZeros_32 (Value - 1)"

section \<open>Keys (llvm-DenseMapInfo.h, objc-private.h)\<close>

definition bswap64 :: "u64 \<Rightarrow> u64" where
  "bswap64 x =
     push_bit 56 (x AND 0xFF) OR push_bit 40 (x AND 0xFF00) OR
     push_bit 24 (x AND 0xFF0000) OR push_bit 8 (x AND 0xFF000000) OR
     (drop_bit 8 x AND 0xFF000000) OR (drop_bit 24 x AND 0xFF0000) OR
     (drop_bit 40 x AND 0xFF00) OR (drop_bit 56 x AND 0xFF)"

definition ptr_hash :: "u64 \<Rightarrow> u32" where
  "ptr_hash key =
     (let key = key XOR drop_bit 4 key;
          key = key * 0x8a970be7488fda55;
          key = key XOR bswap64 key
      in ucast key)"

record 'k DenseMapInfo =
  getEmptyKey :: 'k
  getTombstoneKey :: 'k
  getHashValue :: "'k \<Rightarrow> u32"

definition DenseMapInfo_ptr :: "ptr DenseMapInfo" where
  "DenseMapInfo_ptr = \<lparr>getEmptyKey = -1, getTombstoneKey = -2, getHashValue = ptr_hash\<rparr>"

text \<open>\<open>DisguisedPtr\<close> stores the negated address and is compared and hashed as the pointer.\<close>

definition disguise :: "ptr \<Rightarrow> u64" where
  "disguise p = - p"

definition undisguise :: "u64 \<Rightarrow> ptr" where
  "undisguise val = - val"

definition DenseMapInfo_DisguisedPtr :: "u64 DenseMapInfo" where
  "DenseMapInfo_DisguisedPtr =
     \<lparr>getEmptyKey = disguise (-1), getTombstoneKey = disguise (-2),
      getHashValue = (\<lambda>v. ptr_hash (undisguise v))\<rparr>"

definition DenseMapInfo_char :: "u8 DenseMapInfo" where
  "DenseMapInfo_char =
     \<lparr>getEmptyKey = NOT 0, getTombstoneKey = NOT 0 - 1, getHashValue = (\<lambda>v. scast v * 37)\<rparr>"

definition DenseMapInfo_unsigned :: "u32 DenseMapInfo" where
  "DenseMapInfo_unsigned =
     \<lparr>getEmptyKey = NOT 0, getTombstoneKey = NOT 0 - 1, getHashValue = (\<lambda>v. v * 37)\<rparr>"

definition DenseMapInfo_unsigned_long :: "u64 DenseMapInfo" where
  "DenseMapInfo_unsigned_long =
     \<lparr>getEmptyKey = NOT 0, getTombstoneKey = NOT 0 - 1, getHashValue = (\<lambda>v. ucast (v * 37))\<rparr>"

definition DenseMapInfo_int :: "u32 DenseMapInfo" where
  "DenseMapInfo_int =
     \<lparr>getEmptyKey = 0x7fffffff, getTombstoneKey = - 0x7fffffff - 1, getHashValue = (\<lambda>v. v * 37)\<rparr>"

definition DenseMapInfo_long :: "u64 DenseMapInfo" where
  "DenseMapInfo_long =
     \<lparr>getEmptyKey = push_bit 63 1 - 1, getTombstoneKey = (push_bit 63 1 - 1) - 1,
      getHashValue = (\<lambda>v. ucast (v * 37))\<rparr>"

definition DenseMapInfo_long_long :: "u64 DenseMapInfo" where
  "DenseMapInfo_long_long =
     \<lparr>getEmptyKey = 0x7fffffffffffffff, getTombstoneKey = - 0x7fffffffffffffff - 1,
      getHashValue = (\<lambda>v. ucast (v * 37))\<rparr>"

definition DenseMapInfo_pair :: "'a DenseMapInfo \<Rightarrow> 'b DenseMapInfo \<Rightarrow> ('a \<times> 'b) DenseMapInfo" where
  "DenseMapInfo_pair FirstInfo SecondInfo =
     \<lparr>getEmptyKey = (getEmptyKey FirstInfo, getEmptyKey SecondInfo),
      getTombstoneKey = (getTombstoneKey FirstInfo, getTombstoneKey SecondInfo),
      getHashValue = (\<lambda>(a, b).
        let key = (push_bit 32 (ucast (getHashValue FirstInfo a)) OR ucast (getHashValue SecondInfo b) :: u64);
            key = key + NOT (push_bit 32 key);
            key = key XOR drop_bit 22 key;
            key = key + NOT (push_bit 13 key);
            key = key XOR drop_bit 8 key;
            key = key + push_bit 3 key;
            key = key XOR drop_bit 15 key;
            key = key + NOT (push_bit 27 key);
            key = key XOR drop_bit 31 key
        in ucast key)\<rparr>"

section \<open>DenseMapBase\<close>

record ('k, 'v) DenseMap =
  Buckets :: "('k \<times> 'v) list"
  NumEntries :: nat
  NumTombstones :: nat

definition MIN_BUCKETS :: nat where
  "MIN_BUCKETS = 4"

definition MIN_COMPACT :: nat where
  "MIN_COMPACT = 1024"

abbreviation getNumBuckets :: "('k, 'v, 'z) DenseMap_scheme \<Rightarrow> nat" where
  "getNumBuckets m \<equiv> length (Buckets m)"

function LookupBucketFor_loop ::
  "'k DenseMapInfo \<Rightarrow> bool \<Rightarrow> ('k \<times> 'v::zero) list \<Rightarrow> 'k \<Rightarrow> nat \<Rightarrow> nat \<Rightarrow> nat option
     \<Rightarrow> (bool \<times> nat) option" where
  "LookupBucketFor_loop info zeroPurge bs val bucketNo probeAmt foundTombstone =
     (let (first, second) = bs ! bucketNo
      in if val = first then Some (True, bucketNo)
         else if first = getEmptyKey info then
           Some (False, case foundTombstone of Some t \<Rightarrow> t | None \<Rightarrow> bucketNo)
         else
           let foundTombstone =
                 (if first = getTombstoneKey info \<and> foundTombstone = None then Some bucketNo
                  else foundTombstone);
               foundTombstone =
                 (if zeroPurge \<and> second = 0 \<and> foundTombstone = None then Some bucketNo
                  else foundTombstone)
           in if probeAmt > length bs then None
              else LookupBucketFor_loop info zeroPurge bs val
                     (u32_add bucketNo probeAmt AND (length bs - 1)) (probeAmt + 1) foundTombstone)"
  by pat_completeness auto
termination
  by (relation "measure (\<lambda>(info, zp, bs, val, bucketNo, probeAmt, ft). length bs + 1 - probeAmt)") auto

declare LookupBucketFor_loop.simps [simp del]

definition LookupBucketFor ::
  "'k DenseMapInfo \<Rightarrow> bool \<Rightarrow> ('k, 'v::zero, 'z) DenseMap_scheme \<Rightarrow> 'k
     \<Rightarrow> (bool \<times> nat option) option" where
  "LookupBucketFor info zeroPurge m val =
     (if getNumBuckets m = 0 then Some (False, None)
      else map_option (map_prod id Some)
        (LookupBucketFor_loop info zeroPurge (Buckets m) val
           (unat (getHashValue info val) AND (getNumBuckets m - 1)) 1 None))"

definition initEmpty :: "'k DenseMapInfo \<Rightarrow> ('k, 'v, 'z) DenseMap_scheme \<Rightarrow> ('k, 'v, 'z) DenseMap_scheme" where
  "initEmpty info m =
     m\<lparr>NumEntries := 0, NumTombstones := 0, Buckets := map (\<lambda>(k, v). (getEmptyKey info, v)) (Buckets m)\<rparr>"

fun moveFromOldBuckets_loop ::
  "'k DenseMapInfo \<Rightarrow> bool \<Rightarrow> ('k \<times> 'v::zero) list \<Rightarrow> ('k, 'v, 'z) DenseMap_scheme
     \<Rightarrow> ('k, 'v, 'z) DenseMap_scheme option" where
  "moveFromOldBuckets_loop info zeroPurge [] m = Some m"
| "moveFromOldBuckets_loop info zeroPurge ((k, v) # bs) m =
     (if k \<noteq> getEmptyKey info \<and> k \<noteq> getTombstoneKey info \<and> \<not> (zeroPurge \<and> v = 0) then
        do { (_, destBucket) \<leftarrow> LookupBucketFor info zeroPurge m k;
             i \<leftarrow> destBucket;
             moveFromOldBuckets_loop info zeroPurge bs
               (m\<lparr>Buckets := (Buckets m)[i := (k, v)], NumEntries := u32_add (NumEntries m) 1\<rparr>) }
      else moveFromOldBuckets_loop info zeroPurge bs m)"

definition moveFromOldBuckets ::
  "'k DenseMapInfo \<Rightarrow> bool \<Rightarrow> ('k \<times> 'v::zero) list \<Rightarrow> ('k, 'v, 'z) DenseMap_scheme
     \<Rightarrow> ('k, 'v, 'z) DenseMap_scheme option" where
  "moveFromOldBuckets info zeroPurge old m = moveFromOldBuckets_loop info zeroPurge old (initEmpty info m)"

type_synonym ('k, 'v, 'z) grow_fun =
  "('k, 'v, 'z) DenseMap_scheme \<Rightarrow> nat \<Rightarrow> ('k, 'v, 'z) DenseMap_scheme option"

type_synonym ('k, 'v, 'z) shrink_fun =
  "('k, 'v, 'z) DenseMap_scheme \<Rightarrow> ('k, 'v, 'z) DenseMap_scheme"

text \<open>The counters after a key is put into bucket \<open>b\<close>: it was empty, a tombstone, or a purged zero.\<close>

definition account :: "'k DenseMapInfo \<Rightarrow> ('k, 'v, 'z) DenseMap_scheme \<Rightarrow> nat \<Rightarrow> ('k, 'v, 'z) DenseMap_scheme" where
  "account info m b =
     (let first = fst (Buckets m ! b)
      in if first = getEmptyKey info then m\<lparr>NumEntries := u32_add (NumEntries m) 1\<rparr>
         else if first = getTombstoneKey info then
           m\<lparr>NumEntries := u32_add (NumEntries m) 1, NumTombstones := u32_sub (NumTombstones m) 1\<rparr>
         else m)"

definition InsertIntoBucketImpl ::
  "('k, 'v, 'z) grow_fun \<Rightarrow> 'k DenseMapInfo \<Rightarrow> bool \<Rightarrow> ('k, 'v::zero, 'z) DenseMap_scheme \<Rightarrow> 'k
     \<Rightarrow> nat option \<Rightarrow> (('k, 'v, 'z) DenseMap_scheme \<times> nat) option" where
  "InsertIntoBucketImpl grow info zeroPurge m key theBucket =
     (let newNumEntries = u32_add (NumEntries m) 1;
          numBuckets = getNumBuckets m
      in do {
        (m, theBucket, numBuckets) \<leftarrow>
          (if u32_mul newNumEntries 4 \<ge> u32_mul numBuckets 3 then
             do { m \<leftarrow> grow m (u32_mul numBuckets 2);
                  (_, theBucket) \<leftarrow> LookupBucketFor info zeroPurge m key;
                  Some (m, theBucket, getNumBuckets m) }
           else Some (m, theBucket, numBuckets));
        (m, theBucket) \<leftarrow>
          (if u32_sub numBuckets (u32_add newNumEntries (NumTombstones m)) \<le> numBuckets div 8 then
             do { m \<leftarrow> grow m numBuckets;
                  (_, theBucket) \<leftarrow> LookupBucketFor info zeroPurge m key;
                  Some (m, theBucket) }
           else Some (m, theBucket));
        b \<leftarrow> theBucket;
        Some (account info m b, b) })"

definition InsertIntoBucket ::
  "('k, 'v, 'z) grow_fun \<Rightarrow> 'k DenseMapInfo \<Rightarrow> bool \<Rightarrow> ('k, 'v::zero, 'z) DenseMap_scheme \<Rightarrow> 'k \<Rightarrow> 'v
     \<Rightarrow> nat option \<Rightarrow> (('k, 'v, 'z) DenseMap_scheme \<times> nat) option" where
  "InsertIntoBucket grow info zeroPurge m key val theBucket =
     do { (m, b) \<leftarrow> InsertIntoBucketImpl grow info zeroPurge m key theBucket;
          Some (m\<lparr>Buckets := (Buckets m)[b := (key, val)]\<rparr>, b) }"

text \<open>\<open>find\<close> returns an iterator: the index of the bucket, the number of buckets for \<open>end()\<close>.\<close>

definition DenseMap_count ::
  "'k DenseMapInfo \<Rightarrow> bool \<Rightarrow> ('k, 'v::zero, 'z) DenseMap_scheme \<Rightarrow> 'k \<Rightarrow> bool option" where
  "DenseMap_count info zeroPurge m val = map_option fst (LookupBucketFor info zeroPurge m val)"

definition DenseMap_find ::
  "'k DenseMapInfo \<Rightarrow> bool \<Rightarrow> ('k, 'v::zero, 'z) DenseMap_scheme \<Rightarrow> 'k \<Rightarrow> nat option" where
  "DenseMap_find info zeroPurge m val =
     do { (found, theBucket) \<leftarrow> LookupBucketFor info zeroPurge m val;
          if found then theBucket else Some (getNumBuckets m) }"

definition DenseMap_lookup ::
  "'k DenseMapInfo \<Rightarrow> bool \<Rightarrow> ('k, 'v::zero, 'z) DenseMap_scheme \<Rightarrow> 'k \<Rightarrow> 'v option" where
  "DenseMap_lookup info zeroPurge m val =
     do { (found, theBucket) \<leftarrow> LookupBucketFor info zeroPurge m val;
          if found then map_option (\<lambda>b. snd (Buckets m ! b)) theBucket else Some 0 }"

definition DenseMap_insert ::
  "('k, 'v, 'z) grow_fun \<Rightarrow> 'k DenseMapInfo \<Rightarrow> bool \<Rightarrow> ('k, 'v::zero, 'z) DenseMap_scheme \<Rightarrow> 'k \<times> 'v
     \<Rightarrow> (('k, 'v, 'z) DenseMap_scheme \<times> nat \<times> bool) option" where
  "DenseMap_insert grow info zeroPurge m kv =
     do { (found, theBucket) \<leftarrow> LookupBucketFor info zeroPurge m (fst kv);
          if found then map_option (\<lambda>b. (m, b, False)) theBucket
          else do { (m, b) \<leftarrow> InsertIntoBucket grow info zeroPurge m (fst kv) (snd kv) theBucket;
                    Some (m, b, True) } }"

fun DenseMap_insert_range ::
  "('k, 'v, 'z) grow_fun \<Rightarrow> 'k DenseMapInfo \<Rightarrow> bool \<Rightarrow> ('k, 'v::zero, 'z) DenseMap_scheme \<Rightarrow> ('k \<times> 'v) list
     \<Rightarrow> ('k, 'v, 'z) DenseMap_scheme option" where
  "DenseMap_insert_range grow info zeroPurge m [] = Some m"
| "DenseMap_insert_range grow info zeroPurge m (kv # kvs) =
     do { (m, _) \<leftarrow> DenseMap_insert grow info zeroPurge m kv; DenseMap_insert_range grow info zeroPurge m kvs }"

definition FindAndConstruct ::
  "('k, 'v, 'z) grow_fun \<Rightarrow> 'k DenseMapInfo \<Rightarrow> bool \<Rightarrow> ('k, 'v::zero, 'z) DenseMap_scheme \<Rightarrow> 'k
     \<Rightarrow> (('k, 'v, 'z) DenseMap_scheme \<times> nat) option" where
  "FindAndConstruct grow info zeroPurge m key =
     do { (found, theBucket) \<leftarrow> LookupBucketFor info zeroPurge m key;
          if found then map_option (Pair m) theBucket
          else InsertIntoBucket grow info zeroPurge m key 0 theBucket }"

text \<open>\<open>m[key] = f (m[key])\<close>: an update through the reference \<open>operator[]\<close> returns.\<close>

definition subscript_update ::
  "('k, 'v, 'z) grow_fun \<Rightarrow> 'k DenseMapInfo \<Rightarrow> bool \<Rightarrow> ('k, 'v::zero, 'z) DenseMap_scheme \<Rightarrow> 'k
     \<Rightarrow> ('v \<Rightarrow> 'v) \<Rightarrow> ('k, 'v, 'z) DenseMap_scheme option" where
  "subscript_update grow info zeroPurge m key f =
     do { (m, b) \<leftarrow> FindAndConstruct grow info zeroPurge m key;
          Some (m\<lparr>Buckets := (Buckets m)[b := map_prod id f (Buckets m ! b)]\<rparr>) }"

definition DenseMap_resize :: "('k, 'v, 'z) grow_fun \<Rightarrow> ('k, 'v, 'z) DenseMap_scheme \<Rightarrow> nat
     \<Rightarrow> ('k, 'v, 'z) DenseMap_scheme option" where
  "DenseMap_resize grow m Size = (if Size > getNumBuckets m then grow m Size else Some m)"

definition DenseMap_compact ::
  "('k, 'v, 'z) grow_fun \<Rightarrow> ('k, 'v, 'z) shrink_fun \<Rightarrow> ('k, 'v, 'z) DenseMap_scheme
     \<Rightarrow> ('k, 'v, 'z) DenseMap_scheme option" where
  "DenseMap_compact grow shrink_and_clear m =
     (if NumEntries m = 0 then Some (shrink_and_clear m)
      else if getNumBuckets m div 16 > NumEntries m \<and> getNumBuckets m > MIN_COMPACT
      then grow m (u32_mul (NumEntries m) 2)
      else Some m)"

definition DenseMap_erase_iterator ::
  "('k, 'v, 'z) grow_fun \<Rightarrow> ('k, 'v, 'z) shrink_fun \<Rightarrow> 'k DenseMapInfo \<Rightarrow> ('k, 'v, 'z) DenseMap_scheme
     \<Rightarrow> nat \<Rightarrow> ('k, 'v, 'z) DenseMap_scheme option" where
  "DenseMap_erase_iterator grow shrink_and_clear info m b =
     DenseMap_compact grow shrink_and_clear
       (m\<lparr>Buckets := (Buckets m)[b := (getTombstoneKey info, snd (Buckets m ! b))],
          NumEntries := u32_sub (NumEntries m) 1, NumTombstones := u32_add (NumTombstones m) 1\<rparr>)"

definition DenseMap_erase ::
  "('k, 'v, 'z) grow_fun \<Rightarrow> ('k, 'v, 'z) shrink_fun \<Rightarrow> 'k DenseMapInfo \<Rightarrow> bool
     \<Rightarrow> ('k, 'v::zero, 'z) DenseMap_scheme \<Rightarrow> 'k \<Rightarrow> (('k, 'v, 'z) DenseMap_scheme \<times> bool) option" where
  "DenseMap_erase grow shrink_and_clear info zeroPurge m val =
     do { (found, theBucket) \<leftarrow> LookupBucketFor info zeroPurge m val;
          if \<not> found then Some (m, False)
          else do { b \<leftarrow> theBucket;
                    m \<leftarrow> DenseMap_compact grow shrink_and_clear
                      (m\<lparr>Buckets := (Buckets m)[b := (getTombstoneKey info, snd (Buckets m ! b))],
                         NumEntries := u32_sub (NumEntries m) 1,
                         NumTombstones := u32_add (NumTombstones m) 1\<rparr>);
                    Some (m, True) } }"

fun DenseMap_clear_loop :: "'k DenseMapInfo \<Rightarrow> ('k \<times> 'v) list \<Rightarrow> nat \<Rightarrow> ('k \<times> 'v) list \<times> nat" where
  "DenseMap_clear_loop info [] n = ([], n)"
| "DenseMap_clear_loop info ((k, v) # bs) n =
     (if k \<noteq> getEmptyKey info then
        let n = (if k \<noteq> getTombstoneKey info then u32_sub n 1 else n);
            (bs, n) = DenseMap_clear_loop info bs n
        in ((getEmptyKey info, v) # bs, n)
      else let (bs, n) = DenseMap_clear_loop info bs n in ((k, v) # bs, n))"

definition DenseMap_clear ::
  "('k, 'v, 'z) shrink_fun \<Rightarrow> 'k DenseMapInfo \<Rightarrow> ('k, 'v, 'z) DenseMap_scheme \<Rightarrow> ('k, 'v, 'z) DenseMap_scheme" where
  "DenseMap_clear shrink_and_clear info m =
     (if NumEntries m = 0 \<and> NumTombstones m = 0 then m
      else if u32_mul (NumEntries m) 4 < getNumBuckets m \<and> getNumBuckets m > MIN_BUCKETS
      then shrink_and_clear m
      else let (bs, n) = DenseMap_clear_loop info (Buckets m) (NumEntries m)
           in m\<lparr>Buckets := bs, NumEntries := n, NumTombstones := 0\<rparr>)"

section \<open>DenseMap\<close>

text \<open>
  The buckets \<open>operator new\<close> returns are not initialised. They are modelled as tombstones, so that
  every fact below depends on \<open>initEmpty\<close> having run.
\<close>

definition allocateBuckets ::
  "'k DenseMapInfo \<Rightarrow> ('k, 'v::zero, 'z) DenseMap_scheme \<Rightarrow> nat \<Rightarrow> ('k, 'v, 'z) DenseMap_scheme \<times> bool" where
  "allocateBuckets info m Num =
     (m\<lparr>Buckets := replicate Num (getTombstoneKey info, 0)\<rparr>, Num \<noteq> 0)"

definition DenseMap_init :: "'k DenseMapInfo \<Rightarrow> ('k, 'v::zero) DenseMap \<Rightarrow> nat \<Rightarrow> ('k, 'v) DenseMap" where
  "DenseMap_init info m InitBuckets =
     (let (m, allocated) = allocateBuckets info m InitBuckets
      in if allocated then initEmpty info m else m\<lparr>NumEntries := 0, NumTombstones := 0\<rparr>)"

definition DenseMap_new :: "'k DenseMapInfo \<Rightarrow> nat \<Rightarrow> ('k, 'v::zero) DenseMap" where
  "DenseMap_new info NumInitBuckets =
     DenseMap_init info \<lparr>Buckets = [], NumEntries = 0, NumTombstones = 0\<rparr> NumInitBuckets"

definition DenseMap_grow :: "'k DenseMapInfo \<Rightarrow> bool \<Rightarrow> ('k, 'v::zero) DenseMap \<Rightarrow> nat \<Rightarrow> ('k, 'v) DenseMap option" where
  "DenseMap_grow info zeroPurge m AtLeast =
     (let OldBuckets = Buckets m;
          (m, _) = allocateBuckets info m (max MIN_BUCKETS (unat (NextPowerOf2 (of_nat AtLeast))))
      in if OldBuckets = [] then Some (initEmpty info m)
         else moveFromOldBuckets info zeroPurge OldBuckets m)"

definition DenseMap_shrink_and_clear :: "'k DenseMapInfo \<Rightarrow> ('k, 'v::zero) DenseMap \<Rightarrow> ('k, 'v) DenseMap" where
  "DenseMap_shrink_and_clear info m =
     (let OldNumEntries = NumEntries m;
          NewNumBuckets = (if OldNumEntries \<noteq> 0
            then max MIN_BUCKETS (2 ^ (Log2_32_Ceil (of_nat OldNumEntries) + 1)) else 0)
      in if NewNumBuckets = getNumBuckets m then initEmpty info m else DenseMap_init info m NewNumBuckets)"

definition DenseMap_copyFrom :: "'k DenseMapInfo \<Rightarrow> ('k, 'v::zero) DenseMap \<Rightarrow> ('k, 'v) DenseMap \<Rightarrow> ('k, 'v) DenseMap" where
  "DenseMap_copyFrom info m other =
     (let (m, allocated) = allocateBuckets info m (getNumBuckets other)
      in if allocated
         then m\<lparr>NumEntries := NumEntries other, NumTombstones := NumTombstones other, Buckets := Buckets other\<rparr>
         else m\<lparr>NumEntries := 0, NumTombstones := 0\<rparr>)"

definition DenseMap_range :: "'k DenseMapInfo \<Rightarrow> bool \<Rightarrow> ('k \<times> 'v::zero) list \<Rightarrow> ('k, 'v) DenseMap option" where
  "DenseMap_range info zeroPurge kvs =
     DenseMap_insert_range (DenseMap_grow info zeroPurge) info zeroPurge
       (DenseMap_new info (unat (NextPowerOf2 (of_nat (length kvs))))) kvs"

section \<open>Iteration\<close>

function AdvancePastEmptyBuckets :: "'k DenseMapInfo \<Rightarrow> ('k \<times> 'v) list \<Rightarrow> nat \<Rightarrow> nat" where
  "AdvancePastEmptyBuckets info bs p =
     (if p < length bs \<and> (fst (bs ! p) = getEmptyKey info \<or> fst (bs ! p) = getTombstoneKey info)
      then AdvancePastEmptyBuckets info bs (p + 1) else p)"
  by pat_completeness auto
termination
  by (relation "measure (\<lambda>(info, bs, p). length bs - p)") auto

declare AdvancePastEmptyBuckets.simps [simp del]

definition DenseMap_begin :: "'k DenseMapInfo \<Rightarrow> ('k, 'v, 'z) DenseMap_scheme \<Rightarrow> nat" where
  "DenseMap_begin info m =
     (if NumEntries m = 0 then getNumBuckets m else AdvancePastEmptyBuckets info (Buckets m) 0)"

definition iterator_next :: "'k DenseMapInfo \<Rightarrow> ('k \<times> 'v) list \<Rightarrow> nat \<Rightarrow> nat" where
  "iterator_next info bs p = AdvancePastEmptyBuckets info bs (p + 1)"

lemma AdvancePastEmptyBuckets_ge: "p \<le> AdvancePastEmptyBuckets info bs p"
  by (induction info bs p rule: AdvancePastEmptyBuckets.induct)
    (subst AdvancePastEmptyBuckets.simps, auto)

text \<open>The buckets a loop \<open>for (it = begin(); it != end(); ++it)\<close> visits.\<close>

function iterate_from :: "'k DenseMapInfo \<Rightarrow> ('k \<times> 'v) list \<Rightarrow> nat \<Rightarrow> ('k \<times> 'v) list" where
  "iterate_from info bs p =
     (if p < length bs then bs ! p # iterate_from info bs (iterator_next info bs p) else [])"
  by pat_completeness auto
termination
  by (relation "measure (\<lambda>(info, bs, p). length bs - p)")
    (auto simp: iterator_next_def intro!: diff_less_mono2 less_le_trans[OF _ AdvancePastEmptyBuckets_ge])

declare iterate_from.simps [simp del]

definition DenseMap_elements :: "'k DenseMapInfo \<Rightarrow> ('k, 'v, 'z) DenseMap_scheme \<Rightarrow> ('k \<times> 'v) list" where
  "DenseMap_elements info m = iterate_from info (Buckets m) (DenseMap_begin info m)"

section \<open>SmallDenseMap\<close>

text \<open>
  The small variant keeps up to \<open>InlineBuckets\<close> buckets in the object itself; \<open>Small\<close> tells
  which of the two representations the union holds.
\<close>

record ('k, 'v) SmallDenseMap = "('k, 'v) DenseMap" +
  Small :: bool

definition SmallDenseMap_init ::
  "nat \<Rightarrow> 'k DenseMapInfo \<Rightarrow> ('k, 'v::zero) SmallDenseMap \<Rightarrow> nat \<Rightarrow> ('k, 'v) SmallDenseMap" where
  "SmallDenseMap_init InlineBuckets info m InitBuckets =
     initEmpty info
       (if InitBuckets > InlineBuckets
        then m\<lparr>Small := False, Buckets := replicate InitBuckets (getTombstoneKey info, 0)\<rparr>
        else m\<lparr>Small := True, Buckets := replicate InlineBuckets (getTombstoneKey info, 0)\<rparr>)"

definition SmallDenseMap_new :: "nat \<Rightarrow> 'k DenseMapInfo \<Rightarrow> nat \<Rightarrow> ('k, 'v::zero) SmallDenseMap" where
  "SmallDenseMap_new InlineBuckets info NumInitBuckets =
     SmallDenseMap_init InlineBuckets info
       \<lparr>Buckets = [], NumEntries = 0, NumTombstones = 0, Small = True\<rparr> NumInitBuckets"

definition SmallDenseMap_grow ::
  "nat \<Rightarrow> 'k DenseMapInfo \<Rightarrow> bool \<Rightarrow> ('k, 'v::zero) SmallDenseMap \<Rightarrow> nat \<Rightarrow> ('k, 'v) SmallDenseMap option" where
  "SmallDenseMap_grow InlineBuckets info zeroPurge m AtLeast =
     (let AtLeast = (if AtLeast > InlineBuckets
            then max MIN_BUCKETS (unat (NextPowerOf2 (of_nat AtLeast))) else AtLeast);
          large = (\<lambda>m. m\<lparr>Small := False, Buckets := replicate AtLeast (getTombstoneKey info, 0)\<rparr>)
      in if Small m then
           if AtLeast \<le> InlineBuckets then Some m
           else
             let tmp = filter (\<lambda>(k, v). k \<noteq> getEmptyKey info \<and> k \<noteq> getTombstoneKey info) (Buckets m)
             in moveFromOldBuckets info zeroPurge tmp (large m)
         else
           moveFromOldBuckets info zeroPurge (Buckets m)
             (if AtLeast \<le> InlineBuckets
              then m\<lparr>Small := True, Buckets := replicate InlineBuckets (getTombstoneKey info, 0)\<rparr>
              else large m))"

definition SmallDenseMap_shrink_and_clear ::
  "nat \<Rightarrow> 'k DenseMapInfo \<Rightarrow> ('k, 'v::zero) SmallDenseMap \<Rightarrow> ('k, 'v) SmallDenseMap" where
  "SmallDenseMap_shrink_and_clear InlineBuckets info m =
     (let OldSize = NumEntries m;
          NewNumBuckets = (if OldSize \<noteq> 0 then
             let n = 2 ^ (Log2_32_Ceil (of_nat OldSize) + 1)
             in if n > InlineBuckets \<and> n < MIN_BUCKETS then MIN_BUCKETS else n
           else 0)
      in if (Small m \<and> NewNumBuckets \<le> InlineBuckets) \<or> (\<not> Small m \<and> NewNumBuckets = getNumBuckets m)
         then initEmpty info m
         else SmallDenseMap_init InlineBuckets info m NewNumBuckets)"

definition SmallDenseMap_copyFrom ::
  "nat \<Rightarrow> ('k, 'v::zero) SmallDenseMap \<Rightarrow> ('k, 'v) SmallDenseMap \<Rightarrow> ('k, 'v) SmallDenseMap" where
  "SmallDenseMap_copyFrom InlineBuckets m other =
     m\<lparr>Small := \<not> getNumBuckets other > InlineBuckets, NumEntries := NumEntries other,
       NumTombstones := NumTombstones other, Buckets := Buckets other\<rparr>"

definition swap_bucket :: "'k DenseMapInfo \<Rightarrow> 'k \<times> 'v \<Rightarrow> 'k \<times> 'v \<Rightarrow> ('k \<times> 'v) \<times> ('k \<times> 'v)" where
  "swap_bucket info l r =
     (let live = (\<lambda>k. k \<noteq> getEmptyKey info \<and> k \<noteq> getTombstoneKey info);
          hasLHSValue = live (fst l); hasRHSValue = live (fst r)
      in if hasLHSValue \<and> hasRHSValue then (r, l)
         else if hasLHSValue then ((fst r, snd l), (fst l, snd l))
         else if hasRHSValue then ((fst r, snd r), (fst l, snd r))
         else ((fst r, snd l), (fst l, snd r)))"

definition move_bucket :: "'k DenseMapInfo \<Rightarrow> 'k \<times> 'v::zero \<Rightarrow> 'k \<times> 'v" where
  "move_bucket info b =
     (fst b, if fst b \<noteq> getEmptyKey info \<and> fst b \<noteq> getTombstoneKey info then snd b else 0)"

definition SmallDenseMap_swap ::
  "'k DenseMapInfo \<Rightarrow> ('k, 'v::zero) SmallDenseMap \<Rightarrow> ('k, 'v) SmallDenseMap
     \<Rightarrow> ('k, 'v) SmallDenseMap \<times> ('k, 'v) SmallDenseMap" where
  "SmallDenseMap_swap info a b =
     (let a' = a\<lparr>NumEntries := NumEntries b, NumTombstones := NumTombstones b\<rparr>;
          b' = b\<lparr>NumEntries := NumEntries a, NumTombstones := NumTombstones a\<rparr>
      in if Small a \<and> Small b then
           let bs = map2 (swap_bucket info) (Buckets a) (Buckets b)
           in (a'\<lparr>Buckets := map fst bs\<rparr>, b'\<lparr>Buckets := map snd bs\<rparr>)
         else if \<not> Small a \<and> \<not> Small b then
           (a'\<lparr>Buckets := Buckets b\<rparr>, b'\<lparr>Buckets := Buckets a\<rparr>)
         else if Small a then
           (a'\<lparr>Small := False, Buckets := Buckets b\<rparr>,
            b'\<lparr>Small := True, Buckets := map (move_bucket info) (Buckets a)\<rparr>)
         else
           (a'\<lparr>Small := True, Buckets := map (move_bucket info) (Buckets b)\<rparr>,
            b'\<lparr>Small := False, Buckets := Buckets a\<rparr>))"

section \<open>Powers of two\<close>

lemma smear_step:
  fixes S A :: "'a::len word"
  assumes "\<And>i. bit S i \<longleftrightarrow> (\<exists>j<k. bit A (i + j))"
  shows "bit (S OR drop_bit k S) i \<longleftrightarrow> (\<exists>j<2 * k. bit A (i + j))"
proof -
  have "bit (S OR drop_bit k S) i \<longleftrightarrow> (\<exists>j<k. bit A (i + j)) \<or> (\<exists>j<k. bit A (i + (k + j)))"
    by (simp add: bit_or_iff bit_drop_bit_eq assms ac_simps)
  also have "\<dots> \<longleftrightarrow> (\<exists>j<2 * k. bit A (i + j))"
  proof
    assume "(\<exists>j<k. bit A (i + j)) \<or> (\<exists>j<k. bit A (i + (k + j)))"
    then obtain j where "j < k" "bit A (i + j) \<or> bit A (i + (k + j))" by blast
    then have "j < 2 * k" "k + j < 2 * k" "bit A (i + j) \<or> bit A (i + (k + j))" by simp_all
    then show "\<exists>j<2 * k. bit A (i + j)" by blast
  next
    assume "\<exists>j<2 * k. bit A (i + j)"
    then obtain j where j: "j < 2 * k" "bit A (i + j)" by blast
    show "(\<exists>j<k. bit A (i + j)) \<or> (\<exists>j<k. bit A (i + (k + j)))"
    proof (cases "j < k")
      case False
      then have "j - k < k" "bit A (i + (k + (j - k)))" using j by simp_all
      then show ?thesis by blast
    qed (use j in blast)
  qed
  finally show ?thesis .
qed

lemma exists_high_bit: "(\<exists>j\<ge>i. bit (n :: nat) j) \<longleftrightarrow> i < flsl n"
proof -
  have "(\<exists>j\<ge>i. bit n j) \<longleftrightarrow> drop_bit i n \<noteq> 0"
  proof -
    have "(\<exists>j\<ge>i. bit n j) \<longleftrightarrow> (\<exists>l. bit (drop_bit i n) l)"
      unfolding bit_drop_bit_eq comp_apply by (metis le_add1 le_add_diff_inverse)
    also have "\<dots> \<longleftrightarrow> drop_bit i n \<noteq> 0" using bit_eq_iff[of "drop_bit i n" 0] by auto
    finally show ?thesis .
  qed
  also have "\<dots> \<longleftrightarrow> 2 ^ i \<le> n" by (auto simp: drop_bit_eq_div div_greater_zero_iff)
  also have "\<dots> \<longleftrightarrow> i < flsl n" using flsl_iff[of n i] by linarith
  finally show ?thesis .
qed

lemma NextPowerOf2_spec:
  assumes "n < 2 ^ 31"
  shows "unat (NextPowerOf2 (of_nat n)) = 2 ^ flsl n"
proof -
  define A where "A = (of_nat n :: u32)"
  have A: "unat A = n" using assms by (simp add: A_def unsigned_of_nat take_bit_nat_eq_self)
  define S1 where "S1 = A OR drop_bit 1 A"
  define S2 where "S2 = S1 OR drop_bit 2 S1"
  define S3 where "S3 = S2 OR drop_bit 4 S2"
  define S4 where "S4 = S3 OR drop_bit 8 S3"
  define S5 where "S5 = S4 OR drop_bit 16 S4"
  note d = S1_def S2_def S3_def S4_def S5_def
  have b0: "bit A i \<longleftrightarrow> (\<exists>j<1. bit A (i + j))" for i by simp
  have b1: "bit S1 i \<longleftrightarrow> (\<exists>j<2. bit A (i + j))" for i using smear_step[OF b0] by (simp add: d)
  have b2: "bit S2 i \<longleftrightarrow> (\<exists>j<4. bit A (i + j))" for i using smear_step[OF b1] by (simp add: d)
  have b3: "bit S3 i \<longleftrightarrow> (\<exists>j<8. bit A (i + j))" for i using smear_step[OF b2] by (simp add: d)
  have b4: "bit S4 i \<longleftrightarrow> (\<exists>j<16. bit A (i + j))" for i using smear_step[OF b3] by (simp add: d)
  have b5: "bit S5 i \<longleftrightarrow> (\<exists>j<32. bit A (i + j))" for i using smear_step[OF b4] by (simp add: d)
  have "bit S5 i \<longleftrightarrow> i < flsl n" for i
  proof -
    have bn: "bit A j \<longleftrightarrow> bit n j" for j using A bit_unsigned_iff[of A j, where ?'a = nat] by auto
    have lt: "j < 31" if "bit n j" for j
    proof (rule ccontr)
      assume "\<not> j < 31"
      then have "31 < flsl n" using that exists_high_bit[of j n] by auto
      then show False using flsl_le[of n 31] assms by simp
    qed
    have "(\<exists>j<32. bit A (i + j)) \<longleftrightarrow> (\<exists>j\<ge>i. bit n j)"
    proof
      assume "\<exists>j\<ge>i. bit n j"
      then obtain j where j: "i \<le> j" "bit n j" by blast
      then have "j - i < 32" "bit A (i + (j - i))" using lt[of j] bn by simp_all
      then show "\<exists>j<32. bit A (i + j)" by blast
    qed (use bn le_add1 in blast)
    then show ?thesis using b5 exists_high_bit by simp
  qed
  then have S5: "S5 = mask (flsl n)"
    using flsl_le[of n 31] assms by (intro bit_word_eqI) (auto simp: bit_mask_iff)
  have k: "flsl n \<le> 31" using flsl_le[of n 31] assms by simp
  then have lt: "(2 :: nat) ^ flsl n < 2 ^ 32"
    by (intro power_strict_increasing) simp_all
  have "NextPowerOf2 A = S5 + 1" by (simp add: NextPowerOf2_def Let_def d)
  also have "\<dots> = of_nat (2 ^ flsl n)" by (simp add: S5 mask_eq_exp_minus_1)
  finally have "unat (NextPowerOf2 A) = unat (of_nat (2 ^ flsl n) :: u32)" by (rule arg_cong)
  also have "\<dots> = 2 ^ flsl n" using lt by (intro unat_of_nat_small) simp
  finally show ?thesis by (simp only: A_def)
qed

lemma NextPowerOf2_pow2:
  "k < 31 \<Longrightarrow> unat (NextPowerOf2 (of_nat (2 ^ k))) = 2 * 2 ^ k"
proof -
  assume "k < 31"
  then have "unat (NextPowerOf2 (of_nat (2 ^ k))) = 2 ^ flsl (2 ^ k)"
    by (intro NextPowerOf2_spec power_strict_increasing) simp_all
  moreover have "flsl (2 ^ k) = Suc k" by (induction k) (simp_all add: flsl_pos)
  ultimately show ?thesis by simp
qed

section \<open>Quadratic probing visits every bucket\<close>

definition probe :: "nat \<Rightarrow> nat \<Rightarrow> nat \<Rightarrow> nat" where
  "probe n h i = (h + i * (i + 1) div 2) mod 2 ^ n"

lemma probe_less [simp]: "probe n h i < 2 ^ n"
  by (simp add: probe_def)

lemma probe_0: "h < 2 ^ n \<Longrightarrow> probe n h 0 = h"
  by (simp add: probe_def)

lemma probe_Suc: "probe n h (Suc i) = (probe n h i + (i + 1)) mod 2 ^ n"
proof -
  have "Suc i * (Suc i + 1) = i * (i + 1) + (i + 1) * 2" by (simp add: algebra_simps)
  then have "Suc i * (Suc i + 1) div 2 = i * (i + 1) div 2 + (i + 1)" by (simp only: div_mult_self1)
  then have "h + Suc i * (Suc i + 1) div 2 = (h + i * (i + 1) div 2) + (i + 1)" by simp
  then show ?thesis by (simp only: probe_def mod_add_left_eq)
qed

lemma probe_step:
  assumes "n \<le> 32"
  shows "u32_add (probe n h i) (i + 1) AND (2 ^ n - 1) = probe n h (Suc i)"
proof -
  have "(2 :: nat) ^ n dvd 2 ^ 32" using assms by (rule le_imp_power_dvd)
  then show ?thesis unfolding u32_add_def and_mask_mod_nat probe_Suc by (rule mod_mod_cancel)
qed

lemma probe_inj: "inj_on (probe n h) {..<2 ^ n}"
proof (rule linorder_inj_onI')
  fix i j :: nat
  assume ij: "i \<in> {..<2 ^ n}" "j \<in> {..<2 ^ n}" "i < j"
  define T where "T k = k * (k + 1) div 2" for k :: nat
  have ev: "2 * T k = k * (k + 1)" for k by (simp add: T_def)
  have mono: "T i \<le> T j" unfolding T_def using ij(3) by (intro div_le_mono mult_le_mono) simp_all
  show "probe n h i \<noteq> probe n h j"
  proof
    assume "probe n h i = probe n h j"
    then have "(h + T j) mod 2 ^ n = (h + T i) mod 2 ^ n" by (simp add: probe_def T_def)
    then have "2 ^ n dvd T j - T i" using mono mod_eq_dvd_iff_nat[of "h + T i" "h + T j" "2 ^ n"] by simp
    then have dvd: "2 ^ Suc n dvd 2 * T j - 2 * T i" by (simp flip: diff_mult_distrib2)
    have fac: "2 * T j - 2 * T i = (j - i) * (i + j + 1)"
    proof -
      obtain d where "j = i + d" using ij(3) less_imp_add_positive by blast
      then show ?thesis by (simp only: ev) (simp add: algebra_simps)
    qed
    have "odd (j - i) \<or> odd (i + j + 1)" using ij(3) by auto
    then have "coprime (2 ^ Suc n) (j - i) \<or> coprime (2 ^ Suc n) (i + j + 1)"
      by (auto simp: coprime_power_left_iff)
    then have "2 ^ Suc n dvd i + j + 1 \<or> 2 ^ Suc n dvd j - i"
      using dvd unfolding fac by (metis coprime_dvd_mult_right_iff coprime_dvd_mult_left_iff)
    then have "2 ^ Suc n \<le> i + j + 1 \<or> 2 ^ Suc n \<le> j - i"
      using ij(3) by (auto dest!: dvd_imp_le)
    then show False using ij by auto
  qed
qed

lemma probe_surj: "e < 2 ^ n \<Longrightarrow> \<exists>j<2 ^ n. probe n h j = e"
proof -
  assume "e < 2 ^ n"
  moreover have "probe n h ` {..<2 ^ n} = {..<2 ^ n}"
    by (rule endo_inj_surj) (auto simp: probe_inj)
  ultimately have "e \<in> probe n h ` {..<2 ^ n}" by simp
  then show ?thesis by auto
qed

section \<open>Buckets and the invariant\<close>

definition live :: "'k DenseMapInfo \<Rightarrow> 'k \<Rightarrow> bool" where
  "live info k = (k \<noteq> getEmptyKey info \<and> k \<noteq> getTombstoneKey info)"

definition reusable :: "'k DenseMapInfo \<Rightarrow> bool \<Rightarrow> 'k \<times> 'v::zero \<Rightarrow> bool" where
  "reusable info zeroPurge b = (\<not> live info (fst b) \<or> zeroPurge \<and> snd b = 0)"

definition home :: "'k DenseMapInfo \<Rightarrow> nat \<Rightarrow> 'k \<Rightarrow> nat" where
  "home info n k = unat (getHashValue info k) mod 2 ^ n"

text \<open>Probing for \<open>k\<close> reaches bucket \<open>p\<close> without meeting an empty one before.\<close>

definition reaches :: "'k DenseMapInfo \<Rightarrow> nat \<Rightarrow> ('k \<times> 'v) list \<Rightarrow> 'k \<Rightarrow> nat \<Rightarrow> bool" where
  "reaches info n bs k p =
     (\<exists>j<2 ^ n. probe n (home info n k) j = p \<and>
        (\<forall>l<j. fst (bs ! probe n (home info n k) l) \<noteq> getEmptyKey info))"

definition table_ok :: "'k DenseMapInfo \<Rightarrow> nat \<Rightarrow> ('k \<times> 'v) list \<Rightarrow> bool" where
  "table_ok info n bs =
     (length bs = 2 ^ n \<and> n \<le> 31 \<and> (\<exists>b \<in> set bs. fst b = getEmptyKey info) \<and>
      (\<forall>p<2 ^ n. live info (fst (bs ! p)) \<longrightarrow> reaches info n bs (fst (bs ! p)) p) \<and>
      (\<forall>p<2 ^ n. \<forall>q<2 ^ n. live info (fst (bs ! p)) \<and> fst (bs ! p) = fst (bs ! q) \<longrightarrow> p = q))"

lemma loop_finds:
  assumes bs: "length bs = 2 ^ n" "n \<le> 31"
    and "i \<le> j" "j < 2 ^ n"
    and "\<And>l. i \<le> l \<Longrightarrow> l < j \<Longrightarrow>
      fst (bs ! probe n h l) \<noteq> val \<and> fst (bs ! probe n h l) \<noteq> getEmptyKey info"
    and "fst (bs ! probe n h j) = val"
  shows "LookupBucketFor_loop info zp bs val (probe n h i) (Suc i) ft = Some (True, probe n h j)"
  using assms(3-)
proof (induction "j - i" arbitrary: i ft)
  case 0
  then show ?case by (subst LookupBucketFor_loop.simps) (simp add: case_prod_beta)
next
  case (Suc d)
  have nxt: "u32_add (probe n h i) (Suc i) AND (length bs - Suc 0) = probe n h (Suc i)"
    using probe_step[of n h i] bs by simp
  have here: "fst (bs ! probe n h i) \<noteq> val" "fst (bs ! probe n h i) \<noteq> getEmptyKey info"
    using Suc.prems(3)[of i] Suc.hyps(2) by simp_all
  have IH: "LookupBucketFor_loop info zp bs val (probe n h (Suc i)) (Suc (Suc i)) ft =
      Some (True, probe n h j)" for ft
    using Suc.prems Suc.hyps(2) by (intro Suc.hyps(1)) simp_all
  have "\<not> length bs < Suc i" using Suc.prems Suc.hyps(2) bs by simp
  with here nxt IH show ?case
    by (subst LookupBucketFor_loop.simps) (simp add: case_prod_beta Let_def)
qed

lemma loop_misses:
  assumes bs: "length bs = 2 ^ n" "n \<le> 31"
    and "i \<le> j" "j < 2 ^ n"
    and "\<And>l. i \<le> l \<Longrightarrow> l < j \<Longrightarrow>
      fst (bs ! probe n h l) \<noteq> val \<and> fst (bs ! probe n h l) \<noteq> getEmptyKey info"
    and "fst (bs ! probe n h j) \<noteq> val" "fst (bs ! probe n h j) = getEmptyKey info"
  shows "\<exists>b. LookupBucketFor_loop info zp bs val (probe n h i) (Suc i) ft = Some (False, b) \<and>
    (ft = Some b \<or> (\<exists>l\<ge>i. l \<le> j \<and> b = probe n h l \<and> reusable info zp (bs ! b)))"
  using assms(3-)
proof (induction "j - i" arbitrary: i ft)
  case 0
  then have "i = j" by simp
  with 0 show ?case
    by (subst LookupBucketFor_loop.simps)
      (auto simp: case_prod_beta reusable_def live_def split: option.split intro!: exI[of _ j])
next
  case (Suc d)
  let ?p = "probe n h i"
  have nxt: "u32_add ?p (Suc i) AND (length bs - Suc 0) = probe n h (Suc i)"
    using probe_step[of n h i] bs by simp
  have here: "val \<noteq> fst (bs ! ?p)" "fst (bs ! ?p) \<noteq> getEmptyKey info" "\<not> length bs < Suc i"
    using Suc.prems(3)[of i] Suc.prems(1,2) Suc.hyps(2) bs by force+
  define ft' where "ft' = (if zp \<and> snd (bs ! ?p) = 0 \<and>
      (if fst (bs ! ?p) = getTombstoneKey info \<and> ft = None then Some ?p else ft) = None then Some ?p
    else if fst (bs ! ?p) = getTombstoneKey info \<and> ft = None then Some ?p else ft)"
  have step: "LookupBucketFor_loop info zp bs val ?p (Suc i) ft =
      LookupBucketFor_loop info zp bs val (probe n h (Suc i)) (Suc (Suc i)) ft'"
    using here nxt by (subst LookupBucketFor_loop.simps) (simp add: case_prod_beta Let_def ft'_def)
  have "\<exists>b. LookupBucketFor_loop info zp bs val (probe n h (Suc i)) (Suc (Suc i)) ft' = Some (False, b) \<and>
      (ft' = Some b \<or> (\<exists>l\<ge>Suc i. l \<le> j \<and> b = probe n h l \<and> reusable info zp (bs ! b)))"
    using Suc.prems Suc.hyps(2) by (intro Suc.hyps(1)) simp_all
  then obtain b where b: "LookupBucketFor_loop info zp bs val ?p (Suc i) ft = Some (False, b)"
    "ft' = Some b \<or> (\<exists>l\<ge>Suc i. l \<le> j \<and> b = probe n h l \<and> reusable info zp (bs ! b))"
    unfolding step by blast
  have "ft = Some b \<or> b = ?p \<and> reusable info zp (bs ! ?p)" if "ft' = Some b"
    using that by (auto simp: ft'_def reusable_def live_def split: if_splits)
  then have "ft = Some b \<or> (\<exists>l\<ge>i. l \<le> j \<and> b = probe n h l \<and> reusable info zp (bs ! b))"
    using b(2)
  proof (elim disjE exE conjE)
    fix l assume "Suc i \<le> l" "l \<le> j" "b = probe n h l" "reusable info zp (bs ! b)"
    then show ?thesis by (intro disjI2 exI[of _ l]) simp
  next
    assume "ft' = Some b" "ft' = Some b \<Longrightarrow> ft = Some b \<or> b = ?p \<and> reusable info zp (bs ! ?p)"
    then show ?thesis using Suc.prems(1) by blast
  qed
  with b(1) show ?case by blast
qed

text \<open>The first bucket of the probe sequence that is empty or holds the key.\<close>

lemma first_stop:
  assumes "table_ok info n bs"
  obtains j where "j < 2 ^ n"
    "fst (bs ! probe n h j) = val \<or> fst (bs ! probe n h j) = getEmptyKey info"
    "\<And>l. l < j \<Longrightarrow> fst (bs ! probe n h l) \<noteq> val \<and> fst (bs ! probe n h l) \<noteq> getEmptyKey info"
proof -
  let ?stop = "\<lambda>j. fst (bs ! probe n h j) = val \<or> fst (bs ! probe n h j) = getEmptyKey info"
  obtain e where "e < 2 ^ n" "fst (bs ! e) = getEmptyKey info"
    using assms by (auto simp: table_ok_def in_set_conv_nth)
  then obtain j where j: "j < 2 ^ n" "?stop j" using probe_surj[of e n h] by blast
  define k where "k = (LEAST j. ?stop j)"
  have k: "k \<le> j" "?stop k" unfolding k_def using Least_le[of ?stop j, OF j(2)] LeastI[of ?stop j, OF j(2)] .
  have "\<not> ?stop l" if "l < k" for l using that unfolding k_def by (rule not_less_Least)
  then show thesis using j(1) k by (intro that[of k]) simp_all
qed

lemma home_less [simp]: "home info n k < 2 ^ n"
  by (simp add: home_def)

lemma LookupBucketFor_probe:
  assumes "table_ok info n (Buckets m)"
  shows "LookupBucketFor info zp m val =
    map_option (map_prod id Some)
      (LookupBucketFor_loop info zp (Buckets m) val (probe n (home info n val) 0) (Suc 0) None)"
proof -
  have "length (Buckets m) = 2 ^ n" using assms by (simp add: table_ok_def)
  then show ?thesis
    using and_mask_mod_nat[of "unat (getHashValue info val)" n]
    by (auto simp: LookupBucketFor_def probe_0 home_def)
qed

lemma Lookup_stored:
  assumes ok: "table_ok info n (Buckets m)" and "live info val"
    and p: "p < 2 ^ n" "fst (Buckets m ! p) = val"
  shows "LookupBucketFor info zp m val = Some (True, Some p)"
proof -
  let ?bs = "Buckets m" and ?h = "home info n val"
  from ok have N: "length ?bs = 2 ^ n" "n \<le> 31" by (simp_all add: table_ok_def)
  have "reaches info n ?bs val p" using ok p assms(2) by (auto simp: table_ok_def)
  then obtain i where i: "i < 2 ^ n" "probe n ?h i = p"
    "\<And>l. l < i \<Longrightarrow> fst (?bs ! probe n ?h l) \<noteq> getEmptyKey info"
    by (auto simp: reaches_def)
  obtain j where j: "j < 2 ^ n" "fst (?bs ! probe n ?h j) = val \<or> fst (?bs ! probe n ?h j) = getEmptyKey info"
    "\<And>l. l < j \<Longrightarrow> fst (?bs ! probe n ?h l) \<noteq> val \<and> fst (?bs ! probe n ?h l) \<noteq> getEmptyKey info"
    using first_stop[OF ok, of ?h val] by blast
  have "j \<le> i" using i(2) p(2) j(3)[of i] by (meson not_le)
  then have "fst (?bs ! probe n ?h j) = val"
    using j(2) i p(2) by (cases "j = i") auto
  then have "probe n ?h j = p"
    using ok p assms(2) by (auto simp: table_ok_def)
  then have "LookupBucketFor_loop info zp ?bs val (probe n ?h 0) (Suc 0) None = Some (True, p)"
    using loop_finds[OF N, of 0 j ?h val] j p(2) by simp
  then show ?thesis by (simp add: LookupBucketFor_probe[OF ok])
qed

lemma Lookup_absent:
  assumes ok: "table_ok info n (Buckets m)" and "live info val"
    and "\<And>p. p < 2 ^ n \<Longrightarrow> fst (Buckets m ! p) \<noteq> val"
  obtains b where "LookupBucketFor info zp m val = Some (False, Some b)" "b < 2 ^ n"
    "reusable info zp (Buckets m ! b)" "reaches info n (Buckets m) val b"
proof -
  let ?bs = "Buckets m" and ?h = "home info n val"
  from ok have N: "length ?bs = 2 ^ n" "n \<le> 31" by (simp_all add: table_ok_def)
  obtain j where j: "j < 2 ^ n" "fst (?bs ! probe n ?h j) = getEmptyKey info"
    "\<And>l. l < j \<Longrightarrow> fst (?bs ! probe n ?h l) \<noteq> val \<and> fst (?bs ! probe n ?h l) \<noteq> getEmptyKey info"
    using first_stop[OF ok, of ?h val] assms(3) probe_less by metis
  have "fst (?bs ! probe n ?h j) \<noteq> val" using assms(3) by simp
  then obtain b l where "LookupBucketFor_loop info zp ?bs val (probe n ?h 0) (Suc 0) None = Some (False, b)"
    "l \<le> j" "b = probe n ?h l" "reusable info zp (?bs ! b)"
    using loop_misses[OF N, of 0 j ?h val info zp None] j by auto
  moreover from this have "reaches info n ?bs val b"
    using j unfolding reaches_def by (intro exI[of _ l]) auto
  ultimately show thesis
    by (intro that[of b]) (simp_all add: LookupBucketFor_probe[OF ok])
qed

lemma table_ok_keys: "map fst bs = map fst bs' \<Longrightarrow> table_ok info n bs \<Longrightarrow> table_ok info n bs'"
proof -
  assume eq: "map fst bs = map fst bs'" and ok: "table_ok info n bs"
  have len: "length bs = length bs'" using eq by (rule map_eq_imp_length_eq)
  have key: "fst (bs' ! p) = fst (bs ! p)" if "p < 2 ^ n" for p
    using arg_cong[OF eq, of "\<lambda>ks. ks ! p"] that ok len by (simp add: table_ok_def)
  have "(\<exists>b \<in> set bs. fst b = e) \<longleftrightarrow> (\<exists>b \<in> set bs'. fst b = e)" for e
    using arg_cong[OF eq, of "\<lambda>ks. e \<in> set ks"] unfolding set_map image_iff by metis
  with ok len key show ?thesis by (simp add: table_ok_def reaches_def) blast
qed

lemma table_ok_fill:
  assumes ok: "table_ok info n bs" and b: "b < 2 ^ n" and "live info k" "reaches info n bs k b"
    and new: "\<And>p. p < 2 ^ n \<Longrightarrow> fst (bs ! p) \<noteq> k"
    and e: "e < 2 ^ n" "e \<noteq> b" "fst (bs ! e) = getEmptyKey info"
  shows "table_ok info n (bs[b := (k, v)])"
proof -
  let ?bs = "bs[b := (k, v)]"
  have len: "length bs = 2 ^ n" "n \<le> 31" using ok by (simp_all add: table_ok_def)
  have nth: "?bs ! p = (if p = b then (k, v) else bs ! p)" if "p < 2 ^ n" for p
    using that len b by (auto simp: nth_list_update)
  have r: "reaches info n ?bs k' p" if "reaches info n bs k' p" for k' p
    using that assms(3) unfolding reaches_def by (auto simp: nth live_def)
  have "\<exists>x \<in> set ?bs. fst x = getEmptyKey info"
    using e nth[of e] len nth_mem[of e ?bs] by (intro bexI[of _ "?bs ! e"]) simp_all
  moreover have "reaches info n ?bs (fst (?bs ! p)) p" if "p < 2 ^ n" "live info (fst (?bs ! p))" for p
    using that ok assms(4) r nth[of p] by (auto simp: table_ok_def)
  moreover have "p = q" if "p < 2 ^ n" "q < 2 ^ n" "live info (fst (?bs ! p))" "fst (?bs ! p) = fst (?bs ! q)" for p q
    using that ok new nth by (auto simp: table_ok_def split: if_splits)
  ultimately show ?thesis using len by (auto simp: table_ok_def)
qed

lemma table_ok_erase:
  assumes ok: "table_ok info n bs" and b: "b < 2 ^ n" and "live info (fst (bs ! b))"
    and keys: "getEmptyKey info \<noteq> getTombstoneKey info"
  shows "table_ok info n (bs[b := (getTombstoneKey info, v)])"
proof -
  let ?bs = "bs[b := (getTombstoneKey info, v)]"
  have len: "length bs = 2 ^ n" "n \<le> 31" using ok by (simp_all add: table_ok_def)
  have nth: "?bs ! p = (if p = b then (getTombstoneKey info, v) else bs ! p)" if "p < 2 ^ n" for p
    using that len b by (auto simp: nth_list_update)
  obtain e where e: "e < 2 ^ n" "fst (bs ! e) = getEmptyKey info"
    using ok by (auto simp: table_ok_def in_set_conv_nth)
  then have "e \<noteq> b" using assms(3) by (auto simp: live_def)
  then have "\<exists>x \<in> set ?bs. fst x = getEmptyKey info"
    using e nth[of e] len nth_mem[of e ?bs] by (intro bexI[of _ "?bs ! e"]) simp_all
  moreover have r: "reaches info n ?bs k' p" if "reaches info n bs k' p" for k' p
    using that keys unfolding reaches_def by (auto simp: nth)
  moreover have "reaches info n ?bs (fst (?bs ! p)) p" if "p < 2 ^ n" "live info (fst (?bs ! p))" for p
    using that ok r nth[of p] by (auto simp: table_ok_def live_def split: if_splits)
  moreover have "p = q" if "p < 2 ^ n" "q < 2 ^ n" "live info (fst (?bs ! p))" "fst (?bs ! p) = fst (?bs ! q)" for p q
    using that ok nth by (auto simp: table_ok_def live_def split: if_splits)
  ultimately show ?thesis using len by (auto simp: table_ok_def)
qed

section \<open>The invariant of a map and the finite map it stores\<close>

definition dm_inv :: "'k DenseMapInfo \<Rightarrow> ('k, 'v, 'z) DenseMap_scheme \<Rightarrow> bool" where
  "dm_inv info m =
     ((Buckets m = [] \<or> (\<exists>n. table_ok info n (Buckets m))) \<and>
      NumEntries m = length (filter (\<lambda>b. live info (fst b)) (Buckets m)) \<and>
      NumTombstones m = length (filter (\<lambda>b. fst b = getTombstoneKey info) (Buckets m)))"

definition dm_map :: "'k DenseMapInfo \<Rightarrow> ('k, 'v, 'z) DenseMap_scheme \<Rightarrow> 'k \<rightharpoonup> 'v" where
  "dm_map info m k = (if live info k then map_of (Buckets m) k else None)"

text \<open>\<open>g\<close> is \<open>f\<close> with some of its zero values dropped, which the refcount table may do at any time.\<close>

definition purged :: "bool \<Rightarrow> ('k \<rightharpoonup> 'v::zero) \<Rightarrow> ('k \<rightharpoonup> 'v) \<Rightarrow> bool" where
  "purged zeroPurge f g = (\<forall>k. g k = f k \<or> zeroPurge \<and> f k = Some 0 \<and> g k = None)"

definition without_zeros :: "bool \<Rightarrow> ('k \<rightharpoonup> 'v::zero) \<Rightarrow> ('k \<rightharpoonup> 'v)" where
  "without_zeros zeroPurge f k = (if zeroPurge \<and> f k = Some 0 then None else f k)"

lemma purged_refl [simp]: "purged zp f f"
  by (simp add: purged_def)

lemma purged_trans: "purged zp f g \<Longrightarrow> purged zp g h \<Longrightarrow> purged zp f h"
  unfolding purged_def by metis

lemma purged_without_zeros [simp]: "purged zp f (without_zeros zp f)"
  by (simp add: purged_def without_zeros_def)

lemma purged_False: "purged False f g \<longleftrightarrow> g = f"
  by (auto simp: purged_def)

lemma map_eq_Some: "(\<And>k v. f k = Some v \<longleftrightarrow> g k = Some v) \<Longrightarrow> f = g"
  by (rule ext) (metis not_None_eq)

lemma table_ok_length: "table_ok info n bs \<Longrightarrow> length bs = 2 ^ n"
  by (simp add: table_ok_def)

lemma table_ok_unique:
  "table_ok info n bs \<Longrightarrow> p < length bs \<Longrightarrow> q < length bs \<Longrightarrow> live info (fst (bs ! p)) \<Longrightarrow>
     fst (bs ! p) = fst (bs ! q) \<Longrightarrow> p = q"
  by (simp add: table_ok_def)

lemma dm_inv_table:
  assumes "dm_inv info m" "Buckets m \<noteq> []"
  obtains n where "table_ok info n (Buckets m)"
  using assms by (auto simp: dm_inv_def)

lemma table_size_le:
  assumes "dm_inv info m"
  shows "getNumBuckets m \<le> 2 ^ 31"
proof (cases "Buckets m = []")
  case False
  then obtain n where "table_ok info n (Buckets m)" using dm_inv_table[OF assms] by blast
  then have "getNumBuckets m = 2 ^ n" "n \<le> 31" by (simp_all add: table_ok_def)
  then show ?thesis using power_increasing[of n 31 "2 :: nat"] by simp
qed simp

text \<open>The buckets a rehash carries over.\<close>

definition movable :: "'k DenseMapInfo \<Rightarrow> bool \<Rightarrow> 'k \<times> 'v::zero \<Rightarrow> bool" where
  "movable info zeroPurge b = (live info (fst b) \<and> \<not> (zeroPurge \<and> snd b = 0))"

text \<open>What the keys of a table need: the two markers differ.\<close>

locale dense_keys =
  fixes info :: "'k DenseMapInfo"
  assumes distinct_keys: "getEmptyKey info \<noteq> getTombstoneKey info"
begin

lemma bucket_partition:
  "length bs = length (filter (\<lambda>b. live info (fst b)) bs) +
     length (filter (\<lambda>b. fst b = getTombstoneKey info) bs) +
     length (filter (\<lambda>b. fst b = getEmptyKey info) bs)"
  using distinct_keys by (induction bs) (auto simp: live_def)

lemma some_empty_iff:
  "(\<exists>b \<in> set bs. fst b = getEmptyKey info) \<longleftrightarrow>
     length (filter (\<lambda>b. live info (fst b)) bs) +
       length (filter (\<lambda>b. fst b = getTombstoneKey info) bs) < length bs"
  using bucket_partition[of bs] by (auto simp: filter_empty_conv)

lemma used_less:
  "dm_inv info m \<Longrightarrow> Buckets m \<noteq> [] \<Longrightarrow> NumEntries m + NumTombstones m < getNumBuckets m"
  using some_empty_iff[of "Buckets m"] by (auto simp: dm_inv_def table_ok_def)

lemma other_empty:
  assumes "dm_inv info m" "NumEntries m + NumTombstones m + 1 < getNumBuckets m" "b < getNumBuckets m"
  obtains e where "e < getNumBuckets m" "e \<noteq> b" "fst (Buckets m ! e) = getEmptyKey info"
proof -
  let ?E = "\<lambda>x. fst x = getEmptyKey info"
  have two: "2 \<le> length (filter ?E (Buckets m))"
    using bucket_partition[of "Buckets m"] assms(1,2) by (simp add: dm_inv_def)
  have "length (filter ?E ((Buckets m)[b := (getTombstoneKey info, undefined)])) \<ge> 1"
    using filter_update_count[OF assms(3), of ?E "(getTombstoneKey info, undefined)"] two
    by (auto split: if_splits)
  then obtain x where "x \<in> set ((Buckets m)[b := (getTombstoneKey info, undefined)])" "?E x"
    by (auto simp: Suc_le_eq filter_empty_conv)
  then obtain e where "e < getNumBuckets m" "?E ((Buckets m)[b := (getTombstoneKey info, undefined)] ! e)"
    by (auto simp: in_set_conv_nth)
  then show thesis
    using distinct_keys assms(3) by (intro that[of e]) (auto simp: nth_list_update split: if_splits)
qed

lemma dm_map_Some_iff:
  assumes "dm_inv info m"
  shows "dm_map info m k = Some v \<longleftrightarrow> live info k \<and> (k, v) \<in> set (Buckets m)"
proof
  assume kv: "live info k \<and> (k, v) \<in> set (Buckets m)"
  then obtain p where p: "p < getNumBuckets m" "Buckets m ! p = (k, v)" by (auto simp: in_set_conv_nth)
  then have "Buckets m \<noteq> []" by auto
  then obtain n where n: "table_ok info n (Buckets m)" using dm_inv_table[OF assms] by blast
  obtain v' where v': "map_of (Buckets m) k = Some v'"
    using kv weak_map_of_SomeI by fast
  then obtain q where q: "q < getNumBuckets m" "Buckets m ! q = (k, v')"
    using map_of_SomeD[OF v'] by (auto simp: in_set_conv_nth)
  have "p = q" using table_ok_unique[OF n p(1) q(1)] p(2) q(2) kv by simp
  then show "dm_map info m k = Some v" using p(2) q(2) v' kv by (simp add: dm_map_def)
qed (auto simp: dm_map_def map_of_SomeD split: if_splits)

lemma dm_map_nth:
  assumes "dm_inv info m" "b < getNumBuckets m" "live info (fst (Buckets m ! b))"
  shows "dm_map info m (fst (Buckets m ! b)) = Some (snd (Buckets m ! b))"
  using assms by (simp add: dm_map_Some_iff)

lemma dm_map_None:
  "dm_inv info m \<Longrightarrow> live info k \<Longrightarrow> dm_map info m k = None \<longleftrightarrow> (\<forall>p < getNumBuckets m. fst (Buckets m ! p) \<noteq> k)"
  by (simp add: dm_map_def map_of_eq_None_iff image_iff all_set_conv_all_nth) metis

lemma dm_map_not_live [simp]: "\<not> live info k \<Longrightarrow> dm_map info m k = None"
  by (simp add: dm_map_def)

lemma Lookup_found:
  assumes "dm_inv info m" "live info k" "dm_map info m k = Some v"
  obtains b where "LookupBucketFor info zp m k = Some (True, Some b)" "b < getNumBuckets m"
    "Buckets m ! b = (k, v)"
proof -
  obtain b where b: "b < getNumBuckets m" "Buckets m ! b = (k, v)"
    using assms by (auto simp: dm_map_Some_iff in_set_conv_nth)
  then have "Buckets m \<noteq> []" by auto
  then obtain n where n: "table_ok info n (Buckets m)" using dm_inv_table[OF assms(1)] by blast
  then have "LookupBucketFor info zp m k = Some (True, Some b)"
    using b assms(2) table_ok_length[OF n] by (intro Lookup_stored[OF n]) simp_all
  then show thesis using b by (rule that)
qed

lemma Lookup_missing:
  assumes "dm_inv info m" "live info k" "dm_map info m k = None" "Buckets m \<noteq> []"
  obtains n b where "LookupBucketFor info zp m k = Some (False, Some b)" "b < getNumBuckets m"
    "table_ok info n (Buckets m)" "reusable info zp (Buckets m ! b)" "reaches info n (Buckets m) k b"
proof -
  obtain n where n: "table_ok info n (Buckets m)" using assms(1,4) by (rule dm_inv_table)
  have "\<And>p. p < 2 ^ n \<Longrightarrow> fst (Buckets m ! p) \<noteq> k"
    using assms(3) dm_map_None[OF assms(1,2)] table_ok_length[OF n] by simp
  then obtain b where "LookupBucketFor info zp m k = Some (False, Some b)" "b < 2 ^ n"
    "reusable info zp (Buckets m ! b)" "reaches info n (Buckets m) k b"
    using Lookup_absent[OF n assms(2), of zp] by blast
  then show thesis using n table_ok_length[OF n] by (intro that) simp_all
qed

text \<open>Storing a new key in the bucket a failed lookup returned.\<close>

lemma fill_inv:
  fixes m :: "('k, 'v::zero, 'z) DenseMap_scheme"
  assumes inv: "dm_inv info m" and "live info k" and n: "table_ok info n (Buckets m)"
    and b: "b < getNumBuckets m" "reaches info n (Buckets m) k b"
    and absent: "dm_map info m k = None" and room: "NumEntries m + NumTombstones m + 1 < getNumBuckets m"
  shows "dm_inv info (account info m b\<lparr>Buckets := (Buckets m)[b := (k, v)]\<rparr>)"
proof -
  let ?bs = "(Buckets m)[b := (k, v)]"
  have N: "getNumBuckets m = 2 ^ n" "n \<le> 31" using n by (simp_all add: table_ok_def)
  obtain e where "e < getNumBuckets m" "e \<noteq> b" "fst (Buckets m ! e) = getEmptyKey info"
    using other_empty[OF inv room b(1)] by blast
  then have "table_ok info n ?bs"
    using n b assms(2) absent dm_map_None[OF inv assms(2)] N by (intro table_ok_fill) simp_all
  moreover have "NumEntries m < 2 ^ 31" "NumTombstones m < 2 ^ 31"
    using used_less[OF inv] room table_size_le[OF inv] by auto
  moreover note filter_update_count[OF b(1), of "\<lambda>x. live info (fst x)" "(k, v)"]
    filter_update_count[OF b(1), of "\<lambda>x. fst x = getTombstoneKey info" "(k, v)"]
  ultimately show ?thesis
    using inv distinct_keys assms(2) unfolding dm_inv_def account_def Let_def
    by (auto simp: live_def split: if_splits)
qed

lemma in_update_live:
  assumes inv: "dm_inv info m" and b: "b < getNumBuckets m" and k: "live info k"
  shows "(k, v) \<in> set ((Buckets m)[b := y]) \<longleftrightarrow>
    (k, v) = y \<or> k \<noteq> fst (Buckets m ! b) \<and> (k, v) \<in> set (Buckets m)"
proof -
  have "Buckets m \<noteq> []" using b by auto
  then obtain n where n: "table_ok info n (Buckets m)" using dm_inv_table[OF inv] by blast
  have "p = b" if "p < getNumBuckets m" "Buckets m ! p = (k, v)" "k = fst (Buckets m ! b)" for p
    using table_ok_unique[OF n that(1) b] that(2,3) k by simp
  then have "(\<exists>p<getNumBuckets m. p \<noteq> b \<and> Buckets m ! p = (k, v)) \<longleftrightarrow>
      k \<noteq> fst (Buckets m ! b) \<and> (k, v) \<in> set (Buckets m)"
    unfolding in_set_conv_nth by (metis fst_conv)
  then show ?thesis using in_set_update_iff[OF b] by metis
qed

lemma fill_map:
  assumes inv: "dm_inv info m" and k: "live info k" and b: "b < getNumBuckets m"
    and absent: "dm_map info m k = None"
    and inv': "dm_inv info m'" and m': "Buckets m' = (Buckets m)[b := (k, v)]"
  shows "dm_map info m' = (dm_map info m)(fst (Buckets m ! b) := None, k \<mapsto> v)"
proof (rule map_eq_Some)
  fix k' v'
  have "(k, v') \<notin> set (Buckets m)" using absent k by (metis dm_map_Some_iff[OF inv] option.distinct(1))
  then show "dm_map info m' k' = Some v' \<longleftrightarrow>
      ((dm_map info m)(fst (Buckets m ! b) := None, k \<mapsto> v)) k' = Some v'"
    using in_update_live[OF inv b, of k' v' "(k, v)"] k
    by (auto simp: dm_map_Some_iff[OF inv] dm_map_Some_iff[OF inv'] m')
qed

lemma initEmpty_ok:
  assumes "getNumBuckets m = 2 ^ n" "n \<le> 31"
  shows "dm_inv info (initEmpty info m)" "dm_map info (initEmpty info m) = Map.empty"
    "NumEntries (initEmpty info m) = 0" "NumTombstones (initEmpty info m) = 0"
    "getNumBuckets (initEmpty info m) = 2 ^ n"
proof -
  let ?bs = "Buckets (initEmpty info m)"
  have key: "fst (?bs ! p) = getEmptyKey info" if "p < 2 ^ n" for p
    using that assms by (simp add: initEmpty_def case_prod_beta)
  have len: "length ?bs = 2 ^ n" using assms by (simp add: initEmpty_def)
  then have "?bs \<noteq> []" by auto
  then obtain b where "b \<in> set ?bs" by (meson list.set_sel(1))
  then have all: "fst x = getEmptyKey info" if "x \<in> set ?bs" for x
    using that key len by (auto simp: in_set_conv_nth)
  have "table_ok info n ?bs"
    using len assms(2) key all[OF \<open>b \<in> set ?bs\<close>] \<open>b \<in> set ?bs\<close>
    unfolding table_ok_def by (intro conjI bexI[of _ b]) (simp_all add: live_def)
  moreover have "filter (\<lambda>b. live info (fst b)) ?bs = []"
    "filter (\<lambda>b. fst b = getTombstoneKey info) ?bs = []"
    using all distinct_keys by (auto simp: filter_empty_conv live_def)
  ultimately show inv: "dm_inv info (initEmpty info m)"
    by (auto simp: dm_inv_def initEmpty_def)
  show "dm_map info (initEmpty info m) = Map.empty"
  proof (rule map_eq_Some)
    fix k v
    have "\<not> (live info k \<and> (k, v) \<in> set ?bs)" using all by (auto simp: live_def)
    then show "dm_map info (initEmpty info m) k = Some v \<longleftrightarrow> Map.empty k = Some v"
      unfolding dm_map_Some_iff[OF inv] by simp
  qed
qed (use assms in \<open>simp_all add: initEmpty_def\<close>)

lemma distinct_live:
  assumes "dm_inv info m"
  shows "distinct (map fst (filter (\<lambda>b. live info (fst b)) (Buckets m)))"
proof (cases "Buckets m = []")
  case False
  then obtain n where "table_ok info n (Buckets m)" using dm_inv_table[OF assms] by blast
  then show ?thesis by (intro distinct_map_filter_nth) (rule table_ok_unique)
qed simp

lemma filter_movable: "filter (movable info zp) bs =
    filter (\<lambda>b. \<not> (zp \<and> snd b = 0)) (filter (\<lambda>b. live info (fst b)) bs)"
  by (auto simp: movable_def intro: filter_cong)

lemma map_of_movable:
  assumes "dm_inv info m"
  shows "map_of (filter (movable info zp) (Buckets m)) = without_zeros zp (dm_map info m)"
    "distinct (map fst (filter (movable info zp) (Buckets m)))"
    "length (filter (movable info zp) (Buckets m)) \<le> NumEntries m"
proof -
  show d: "distinct (map fst (filter (movable info zp) (Buckets m)))"
    unfolding filter_movable using distinct_live[OF assms] by (rule distinct_map_filter)
  show "map_of (filter (movable info zp) (Buckets m)) = without_zeros zp (dm_map info m)"
  proof (rule map_eq_Some)
    fix k v
    have "map_of (filter (movable info zp) (Buckets m)) k = Some v \<longleftrightarrow>
        dm_map info m k = Some v \<and> \<not> (zp \<and> v = 0)"
      unfolding dm_map_Some_iff[OF assms] using d by (auto simp: map_of_eq_Some_iff movable_def)
    then show "map_of (filter (movable info zp) (Buckets m)) k = Some v \<longleftrightarrow>
        without_zeros zp (dm_map info m) k = Some v"
      by (auto simp: without_zeros_def)
  qed
  show "length (filter (movable info zp) (Buckets m)) \<le> NumEntries m"
    unfolding filter_movable using assms by (simp add: dm_inv_def del: filter_filter)
qed

lemma move_loop:
  fixes m :: "('k, 'v::zero, 'z) DenseMap_scheme"
  assumes "dm_inv info m" "NumTombstones m = 0" "Buckets m \<noteq> []"
    and "distinct (map fst (filter (movable info zp) old))"
    and "\<And>k v. (k, v) \<in> set (filter (movable info zp) old) \<Longrightarrow> dm_map info m k = None"
    and "NumEntries m + length (filter (movable info zp) old) < getNumBuckets m"
    and "\<And>k. zp \<Longrightarrow> dm_map info m k \<noteq> Some 0"
  shows "\<exists>m'. moveFromOldBuckets_loop info zp old m = Some m' \<and> dm_inv info m' \<and> NumTombstones m' = 0 \<and>
    getNumBuckets m' = getNumBuckets m \<and>
    NumEntries m' = NumEntries m + length (filter (movable info zp) old) \<and>
    dm_map info m' = dm_map info m ++ map_of (filter (movable info zp) old)"
  using assms
proof (induction old arbitrary: m)
  case (Cons kv old)
  obtain k v where kv: "kv = (k, v)" by fastforce
  show ?case
  proof (cases "movable info zp kv")
    case False
    then have "moveFromOldBuckets_loop info zp (kv # old) m = moveFromOldBuckets_loop info zp old m"
      by (auto simp: kv movable_def live_def)
    with False Cons.IH[OF Cons.prems(1-3)] Cons.prems(4-) show ?thesis by simp
  next
    case True
    then have k: "live info k" "\<not> (zp \<and> v = 0)" by (simp_all add: kv movable_def)
    have absent: "dm_map info m k = None" using Cons.prems(5)[of k v] True by (simp add: kv)
    obtain n b where b: "LookupBucketFor info zp m k = Some (False, Some b)" "b < getNumBuckets m"
      "table_ok info n (Buckets m)" "reusable info zp (Buckets m ! b)" "reaches info n (Buckets m) k b"
      using Lookup_missing[OF Cons.prems(1) k(1) absent Cons.prems(3)] by blast
    have "fst (Buckets m ! b) \<noteq> getTombstoneKey info"
      using Cons.prems(1,2) b(2) by (auto simp: dm_inv_def filter_empty_conv)
    moreover have "\<not> live info (fst (Buckets m ! b))"
      using b(4) Cons.prems(7) dm_map_nth[OF Cons.prems(1) b(2)] by (auto simp: reusable_def)
    ultimately have e: "fst (Buckets m ! b) = getEmptyKey info" by (auto simp: live_def)
    let ?m = "m\<lparr>Buckets := (Buckets m)[b := (k, v)], NumEntries := u32_add (NumEntries m) 1\<rparr>"
    have acc: "?m = account info m b\<lparr>Buckets := (Buckets m)[b := (k, v)]\<rparr>"
      using e by (simp add: account_def)
    have room: "NumEntries m + NumTombstones m + 1 < getNumBuckets m"
      using Cons.prems(2,6) True by simp
    have inv: "dm_inv info ?m"
      unfolding acc using fill_inv[OF Cons.prems(1) k(1) b(3,2,5) absent room] .
    have ent: "NumEntries ?m = NumEntries m + 1"
      using room table_size_le[OF Cons.prems(1)] by simp
    have map: "dm_map info ?m = (dm_map info m)(k \<mapsto> v)"
      using fill_map[OF Cons.prems(1) k(1) b(2) absent inv] e by (simp add: fun_upd_idem live_def)
    have "moveFromOldBuckets_loop info zp (kv # old) m = moveFromOldBuckets_loop info zp old ?m"
      using b(1) k by (simp add: kv live_def)
    moreover have "\<exists>m'. moveFromOldBuckets_loop info zp old ?m = Some m' \<and> dm_inv info m' \<and> NumTombstones m' = 0 \<and>
        getNumBuckets m' = getNumBuckets ?m \<and>
        NumEntries m' = NumEntries ?m + length (filter (movable info zp) old) \<and>
        dm_map info m' = dm_map info ?m ++ map_of (filter (movable info zp) old)"
    proof (rule Cons.IH[OF inv])
      show "dm_map info ?m k' = None" if "(k', v') \<in> set (filter (movable info zp) old)" for k' v'
        using that Cons.prems(4,5) True unfolding map by (force simp: kv)
      show "NumEntries ?m + length (filter (movable info zp) old) < getNumBuckets ?m"
        unfolding ent using Cons.prems(6) True by simp
      show "dm_map info ?m k' \<noteq> Some 0" if zp for k'
        unfolding map using Cons.prems(7)[OF that] k(2) that by simp
    qed (use Cons.prems True in \<open>simp_all\<close>)
    moreover have "dm_map info ?m ++ map_of (filter (movable info zp) old) =
        dm_map info m ++ map_of (filter (movable info zp) (kv # old))"
      using Cons.prems(4) True unfolding map
      by (simp add: kv map_add_upd_left dom_map_of_conv_image_fst)
    ultimately obtain m' where "moveFromOldBuckets_loop info zp (kv # old) m = Some m'" "dm_inv info m'"
      "NumTombstones m' = 0" "getNumBuckets m' = getNumBuckets m"
      "NumEntries m' = NumEntries m + 1 + length (filter (movable info zp) old)"
      "dm_map info m' = dm_map info m ++ map_of (filter (movable info zp) (kv # old))"
      using ent by auto
    then show ?thesis using True by (intro exI[of _ m'] conjI) (assumption | simp)+
  qed
qed simp

lemma move_ok:
  fixes m :: "('k, 'v::zero, 'z) DenseMap_scheme"
  assumes "dm_inv info m" "getNumBuckets fresh = 2 ^ n" "n \<le> 31" "NumEntries m < 2 ^ n"
  shows "\<exists>m'. moveFromOldBuckets info zp (Buckets m) fresh = Some m' \<and> dm_inv info m' \<and> NumTombstones m' = 0 \<and>
    getNumBuckets m' = 2 ^ n \<and> NumEntries m' \<le> NumEntries m \<and>
    dm_map info m' = without_zeros zp (dm_map info m)"
proof -
  note e = initEmpty_ok[OF assms(2,3)] and mv = map_of_movable[OF assms(1), of zp]
  have "Buckets (initEmpty info fresh) \<noteq> []" using e(5) by auto
  then have "\<exists>m'. moveFromOldBuckets_loop info zp (Buckets m) (initEmpty info fresh) = Some m' \<and> dm_inv info m' \<and>
      NumTombstones m' = 0 \<and> getNumBuckets m' = getNumBuckets (initEmpty info fresh) \<and>
      NumEntries m' = NumEntries (initEmpty info fresh) + length (filter (movable info zp) (Buckets m)) \<and>
      dm_map info m' = dm_map info (initEmpty info fresh) ++ map_of (filter (movable info zp) (Buckets m))"
    using e mv assms(4) by (intro move_loop) simp_all
  then show ?thesis using e mv by (auto simp: moveFromOldBuckets_def)
qed

lemma Lookup_None:
  assumes "dm_inv info m" "live info k" "dm_map info m k = None"
  obtains tb where "LookupBucketFor info zp m k = Some (False, tb)"
proof (cases "Buckets m = []")
  case True
  then show thesis by (intro that[of None]) (simp add: LookupBucketFor_def)
next
  case False
  then show thesis using Lookup_missing[OF assms False, of zp] that by metis
qed

lemma lookup_ok:
  assumes "dm_inv info m" "live info k"
  shows "DenseMap_count info zp m k = Some (dm_map info m k \<noteq> None)"
    "DenseMap_lookup info zp m k = Some (case dm_map info m k of None \<Rightarrow> 0 | Some v \<Rightarrow> v)"
    "\<exists>it. DenseMap_find info zp m k = Some it \<and>
      (case dm_map info m k of None \<Rightarrow> it = getNumBuckets m
       | Some v \<Rightarrow> it < getNumBuckets m \<and> Buckets m ! it = (k, v))"
proof -
  note d = DenseMap_count_def DenseMap_lookup_def DenseMap_find_def
  consider tb where "dm_map info m k = None" "LookupBucketFor info zp m k = Some (False, tb)"
    | b v where "dm_map info m k = Some v" "LookupBucketFor info zp m k = Some (True, Some b)"
      "b < getNumBuckets m" "Buckets m ! b = (k, v)"
  proof (cases "dm_map info m k")
    case None
    then show thesis using Lookup_None[OF assms None, of zp] that(1) by blast
  next
    case (Some v)
    then show thesis using Lookup_found[OF assms Some, of zp] that(2) by blast
  qed
  then show "DenseMap_count info zp m k = Some (dm_map info m k \<noteq> None)"
    "DenseMap_lookup info zp m k = Some (case dm_map info m k of None \<Rightarrow> 0 | Some v \<Rightarrow> v)"
    "\<exists>it. DenseMap_find info zp m k = Some it \<and>
      (case dm_map info m k of None \<Rightarrow> it = getNumBuckets m
       | Some v \<Rightarrow> it < getNumBuckets m \<and> Buckets m ! it = (k, v))"
    by (cases; simp add: d)+
qed

lemma assign_ok:
  assumes inv: "dm_inv info m" and b: "b < getNumBuckets m" "Buckets m ! b = (k, w)" and k: "live info k"
  shows "dm_inv info (m\<lparr>Buckets := (Buckets m)[b := (k, v)]\<rparr>)"
    "dm_map info (m\<lparr>Buckets := (Buckets m)[b := (k, v)]\<rparr>) = (dm_map info m)(k \<mapsto> v)"
proof -
  let ?m = "m\<lparr>Buckets := (Buckets m)[b := (k, v)]\<rparr>"
  have "Buckets m \<noteq> []" using b by auto
  then obtain n where n: "table_ok info n (Buckets m)" using dm_inv_table[OF inv] by blast
  have keys: "map fst (Buckets m) = map fst (Buckets ?m)"
    using b list_update_id[of "map fst (Buckets m)" b] by (simp add: map_update)
  show inv': "dm_inv info ?m"
    using inv table_ok_keys[OF keys n] filter_update_count[OF b(1), of "\<lambda>x. live info (fst x)" "(k, v)"]
      filter_update_count[OF b(1), of "\<lambda>x. fst x = getTombstoneKey info" "(k, v)"] b(2)
    unfolding dm_inv_def by (auto split: if_splits)
  show "dm_map info ?m = (dm_map info m)(k \<mapsto> v)"
  proof (rule map_eq_Some)
    fix k' v'
    have "(k', v') \<in> set (Buckets ?m) \<longleftrightarrow> (if k' = k then v' = v else (k', v') \<in> set (Buckets m))"
      if "live info k'" using in_update_live[OF inv b(1) that, of v' "(k, v)"] b(2) by auto
    then show "dm_map info ?m k' = Some v' \<longleftrightarrow> ((dm_map info m)(k \<mapsto> v)) k' = Some v'"
      using k by (auto simp: dm_map_Some_iff[OF inv] dm_map_Some_iff[OF inv'])
  qed
qed

lemma tombstone_ok:
  assumes inv: "dm_inv info m" and b: "b < getNumBuckets m" "Buckets m ! b = (k, w)" and k: "live info k"
  defines "m' \<equiv> m\<lparr>Buckets := (Buckets m)[b := (getTombstoneKey info, w)],
      NumEntries := u32_sub (NumEntries m) 1, NumTombstones := u32_add (NumTombstones m) 1\<rparr>"
  shows "dm_inv info m'" "dm_map info m' = (dm_map info m)(k := None)" "NumEntries m' + 1 = NumEntries m"
    "getNumBuckets m' = getNumBuckets m"
proof -
  have "Buckets m \<noteq> []" using b by auto
  then obtain n where n: "table_ok info n (Buckets m)" using dm_inv_table[OF inv] by blast
  have N: "getNumBuckets m = 2 ^ n" using n by (rule table_ok_length)
  note cnt = filter_update_count[OF b(1), of "\<lambda>x. live info (fst x)" "(getTombstoneKey info, w)"]
    filter_update_count[OF b(1), of "\<lambda>x. fst x = getTombstoneKey info" "(getTombstoneKey info, w)"]
  have lt: "NumEntries m < 2 ^ 31" "NumTombstones m < 2 ^ 31"
    using used_less[OF inv \<open>Buckets m \<noteq> []\<close>] table_size_le[OF inv] by auto
  have pos: "NumEntries m \<ge> 1"
    using inv b k nth_mem[OF b(1)] by (force simp: dm_inv_def Suc_le_eq filter_empty_conv)
  have "table_ok info n ((Buckets m)[b := (getTombstoneKey info, w)])"
    using n b k N distinct_keys by (intro table_ok_erase) simp_all
  then show inv': "dm_inv info m'"
    using inv cnt lt pos b k unfolding dm_inv_def m'_def by (auto simp: live_def split: if_splits)
  show "NumEntries m' + 1 = NumEntries m" "getNumBuckets m' = getNumBuckets m"
    using pos lt by (simp_all add: m'_def)
  show "dm_map info m' = (dm_map info m)(k := None)"
  proof (rule map_eq_Some)
    fix k' v'
    have "(k', v') \<in> set (Buckets m') \<longleftrightarrow> k' \<noteq> k \<and> (k', v') \<in> set (Buckets m)" if "live info k'"
      using in_update_live[OF inv b(1) that, of v' "(getTombstoneKey info, w)"] b(2) that
      by (auto simp: m'_def live_def)
    then show "dm_map info m' k' = Some v' \<longleftrightarrow> ((dm_map info m)(k := None)) k' = Some v'"
      by (auto simp: dm_map_Some_iff[OF inv] dm_map_Some_iff[OF inv'])
  qed
qed

end

section \<open>What DenseMapBase relies on\<close>

text \<open>
  The contract of the derived class: \<open>grow\<close> rehashes into a table with more than \<open>AtLeast\<close>
  buckets and no tombstones, keeping all but purgeable zeros; \<open>shrink_and_clear\<close> empties.
\<close>

locale dense_map_derived = dense_keys info
  for info :: "'k DenseMapInfo" +
  fixes zp :: bool
    and grow :: "('k, 'v::zero, 'z) grow_fun"
    and shrink_and_clear :: "('k, 'v, 'z) shrink_fun"
  assumes grow_law: "dm_inv info m \<Longrightarrow> NumEntries m \<le> AtLeast \<Longrightarrow> AtLeast \<le> 2 ^ 30 \<Longrightarrow>
      \<exists>m'. grow m AtLeast = Some m' \<and> dm_inv info m' \<and> NumTombstones m' = 0 \<and>
        AtLeast < getNumBuckets m' \<and> 4 \<le> getNumBuckets m' \<and> getNumBuckets m' \<le> max 4 (2 * AtLeast) \<and>
        NumEntries m' \<le> NumEntries m \<and> dm_map info m' = without_zeros zp (dm_map info m)"
    and shrink_law: "dm_inv info m \<Longrightarrow> getNumBuckets m \<le> 2 ^ 28 \<Longrightarrow>
      dm_inv info (shrink_and_clear m) \<and> dm_map info (shrink_and_clear m) = Map.empty \<and>
      getNumBuckets (shrink_and_clear m) \<le> max 4 (4 * NumEntries m)"
begin

lemma place_ok:
  fixes m :: "('k, 'v, 'z) DenseMap_scheme"
  assumes inv: "dm_inv info m" and k: "live info k" and absent: "dm_map info m k = None"
    and room: "NumEntries m + NumTombstones m + 1 < getNumBuckets m"
  obtains b where "LookupBucketFor info zp m k = Some (False, Some b)" "b < getNumBuckets m"
    "\<And>v. dm_inv info (account info m b\<lparr>Buckets := (Buckets m)[b := (k, v)]\<rparr>)"
    "\<And>v. \<exists>f. purged zp (dm_map info m) f \<and>
      dm_map info (account info m b\<lparr>Buckets := (Buckets m)[b := (k, v)]\<rparr>) = f(k \<mapsto> v)"
proof -
  have "Buckets m \<noteq> []" using room by auto
  then obtain n b where b: "LookupBucketFor info zp m k = Some (False, Some b)" "b < getNumBuckets m"
    "table_ok info n (Buckets m)" "reusable info zp (Buckets m ! b)" "reaches info n (Buckets m) k b"
    using Lookup_missing[OF inv k absent] by blast
  note inv' = fill_inv[OF inv k b(3,2,5) absent room]
  have "purged zp (dm_map info m) ((dm_map info m)(fst (Buckets m ! b) := None))"
    using b(4) dm_map_nth[OF inv b(2)]
    by (cases "live info (fst (Buckets m ! b))") (auto simp: purged_def reusable_def)
  moreover have "dm_map info (account info m b\<lparr>Buckets := (Buckets m)[b := (k, v)]\<rparr>) =
      (dm_map info m)(fst (Buckets m ! b) := None, k \<mapsto> v)" for v
    using fill_map[OF inv k b(2) absent inv'] by simp
  ultimately show thesis by (intro that[OF b(1,2) inv']) blast
qed

lemma InsertIntoBucket_ok:
  fixes m :: "('k, 'v, 'z) DenseMap_scheme"
  assumes inv: "dm_inv info m" and k: "live info k" and absent: "dm_map info m k = None"
    and size: "getNumBuckets m \<le> 2 ^ 28" and look: "LookupBucketFor info zp m k = Some (False, tb)"
  shows "\<exists>m' b f. InsertIntoBucket grow info zp m k v tb = Some (m', b) \<and> dm_inv info m' \<and>
    b < getNumBuckets m' \<and> Buckets m' ! b = (k, v) \<and> getNumBuckets m' \<le> max 4 (4 * getNumBuckets m) \<and>
    purged zp (dm_map info m) f \<and> dm_map info m' = f(k \<mapsto> v)"
proof -
  let ?N = "getNumBuckets m" and ?e = "NumEntries m" and ?t = "NumTombstones m"
  have used: "?e + ?t < ?N \<or> ?N = 0 \<and> ?e = 0 \<and> ?t = 0"
    using used_less[OF inv] inv by (cases "Buckets m = []") (auto simp: dm_inv_def)
  have ar: "u32_add ?e 1 = ?e + 1" "u32_mul (?e + 1) 4 = (?e + 1) * 4" "u32_mul ?N 3 = ?N * 3"
    "u32_mul ?N 2 = 2 * ?N" using used size by auto
  have finish: ?thesis
    if "InsertIntoBucket grow info zp m k v tb =
        Some (account info m1 b\<lparr>Buckets := (Buckets m1)[b := (k, v)]\<rparr>, b)"
      "dm_inv info m1" "LookupBucketFor info zp m1 k = Some (False, Some b)"
      "dm_map info m1 k = None" "NumEntries m1 + NumTombstones m1 + 1 < getNumBuckets m1"
      "getNumBuckets m1 \<le> max 4 (4 * ?N)" "purged zp (dm_map info m) (dm_map info m1)" for m1 b
  proof -
    note hyps = that
    obtain f where "b < getNumBuckets m1"
      "dm_inv info (account info m1 b\<lparr>Buckets := (Buckets m1)[b := (k, v)]\<rparr>)"
      "purged zp (dm_map info m1) f"
      "dm_map info (account info m1 b\<lparr>Buckets := (Buckets m1)[b := (k, v)]\<rparr>) = f(k \<mapsto> v)"
      using place_ok[OF hyps(2) k hyps(4,5)] hyps(3) by (metis Pair_inject option.inject)
    with hyps(1,6) purged_trans[OF hyps(7)] show ?thesis by (fastforce simp: account_def Let_def)
  qed
  have purge: "without_zeros zp (dm_map info m) k = None" using absent by (simp add: without_zeros_def)
  show ?thesis
  proof (cases "?N * 3 \<le> (?e + 1) * 4")
    case load: True
    obtain m1 where m1: "grow m (2 * ?N) = Some m1" "dm_inv info m1" "NumTombstones m1 = 0"
      "2 * ?N < getNumBuckets m1" "4 \<le> getNumBuckets m1" "getNumBuckets m1 \<le> max 4 (4 * ?N)"
      "NumEntries m1 \<le> ?e" "dm_map info m1 = without_zeros zp (dm_map info m)"
      using grow_law[OF inv, of "2 * ?N"] used size by auto
    have room: "NumEntries m1 + NumTombstones m1 + 1 < getNumBuckets m1" using m1 used by auto
    obtain b where b: "LookupBucketFor info zp m1 k = Some (False, Some b)"
      using place_ok[OF m1(2) k _ room] m1(8) purge by metis
    have "?e + 1 + NumTombstones m1 < 2 ^ 32" using m1(3) used size by auto
    moreover have "getNumBuckets m1 < 2 ^ 32" using m1(6) size by auto
    ultimately have "u32_sub (getNumBuckets m1) (u32_add (?e + 1) (NumTombstones m1)) =
        getNumBuckets m1 - (?e + 1)"
      using m1(3,4,5) used by auto
    moreover have "\<not> getNumBuckets m1 - (?e + 1) \<le> getNumBuckets m1 div 8" using m1(4,5) used by auto
    ultimately have "InsertIntoBucketImpl grow info zp m k tb = Some (account info m1 b, b)"
      using load m1(1) b unfolding InsertIntoBucketImpl_def Let_def ar by simp
    then show ?thesis
      using m1 room purge b by (intro finish[of m1 b]) (simp_all add: InsertIntoBucket_def account_def Let_def)
  next
    case noload: False
    then have used: "?e + ?t < ?N" using used by auto
    have sub: "u32_sub ?N (u32_add (?e + 1) ?t) = ?N - (?e + 1 + ?t)" using used size by auto
    show ?thesis
    proof (cases "?N - (?e + 1 + ?t) \<le> ?N div 8")
      case few: True
      obtain m1 where m1: "grow m ?N = Some m1" "dm_inv info m1" "NumTombstones m1 = 0"
        "?N < getNumBuckets m1" "getNumBuckets m1 \<le> max 4 (2 * ?N)" "NumEntries m1 \<le> ?e"
        "dm_map info m1 = without_zeros zp (dm_map info m)"
        using grow_law[OF inv, of ?N] used size by auto
      have room: "NumEntries m1 + NumTombstones m1 + 1 < getNumBuckets m1" using m1 used by auto
      obtain b where b: "LookupBucketFor info zp m1 k = Some (False, Some b)"
        using place_ok[OF m1(2) k _ room] m1(7) purge by metis
      have "InsertIntoBucketImpl grow info zp m k tb = Some (account info m1 b, b)"
        using noload few m1(1) b unfolding InsertIntoBucketImpl_def Let_def ar by (simp add: sub[simplified])
      then show ?thesis
        using m1 room purge b by (intro finish[of m1 b]) (auto simp: InsertIntoBucket_def account_def Let_def)
    next
      case enough: False
      then have room: "?e + ?t + 1 < ?N" by auto
      obtain b where b: "LookupBucketFor info zp m k = Some (False, Some b)"
        using place_ok[OF inv k absent room] by metis
      then have "tb = Some b" using look by simp
      then have "InsertIntoBucketImpl grow info zp m k tb = Some (account info m b, b)"
        using noload enough unfolding InsertIntoBucketImpl_def Let_def ar by (simp add: sub[simplified])
      then show ?thesis
        using inv room absent b by (intro finish[of m b]) (simp_all add: InsertIntoBucket_def account_def Let_def)
    qed
  qed
qed

lemma no_entries: "dm_inv info m \<Longrightarrow> NumEntries m = 0 \<Longrightarrow> dm_map info m = Map.empty"
  by (rule map_eq_Some) (auto simp: dm_map_Some_iff dm_inv_def filter_empty_conv)

lemma FindAndConstruct_ok:
  fixes m :: "('k, 'v, 'z) DenseMap_scheme"
  assumes inv: "dm_inv info m" and k: "live info k" and size: "getNumBuckets m \<le> 2 ^ 28"
  shows "\<exists>m' b f. FindAndConstruct grow info zp m k = Some (m', b) \<and> dm_inv info m' \<and>
    b < getNumBuckets m' \<and> Buckets m' ! b = (k, case dm_map info m k of None \<Rightarrow> 0 | Some v \<Rightarrow> v) \<and>
    getNumBuckets m' \<le> max 4 (4 * getNumBuckets m) \<and> purged zp (dm_map info m) f \<and>
    dm_map info m' = f(k \<mapsto> (case dm_map info m k of None \<Rightarrow> 0 | Some v \<Rightarrow> v))"
proof (cases "dm_map info m k")
  case None
  obtain tb where tb: "LookupBucketFor info zp m k = Some (False, tb)"
    using Lookup_None[OF inv k None, of zp] by blast
  show ?thesis
    using InsertIntoBucket_ok[OF inv k None size tb, of 0] tb None by (simp add: FindAndConstruct_def)
next
  case (Some v)
  obtain b where "LookupBucketFor info zp m k = Some (True, Some b)" "b < getNumBuckets m" "Buckets m ! b = (k, v)"
    using Lookup_found[OF inv k Some, of zp] by blast
  moreover have "dm_map info m = (dm_map info m)(k \<mapsto> v)" using Some by (simp add: fun_upd_idem)
  ultimately show ?thesis using Some inv
    by (intro exI[of _ m] exI[of _ b] exI[of _ "dm_map info m"]) (simp add: FindAndConstruct_def)
qed

lemma subscript_ok:
  fixes m :: "('k, 'v, 'z) DenseMap_scheme"
  assumes inv: "dm_inv info m" and k: "live info k" and size: "getNumBuckets m \<le> 2 ^ 28"
  shows "\<exists>m' f. subscript_update grow info zp m k g = Some m' \<and> dm_inv info m' \<and>
    getNumBuckets m' \<le> max 4 (4 * getNumBuckets m) \<and> purged zp (dm_map info m) f \<and>
    dm_map info m' = f(k \<mapsto> g (case dm_map info m k of None \<Rightarrow> 0 | Some v \<Rightarrow> v))"
proof -
  let ?v = "case dm_map info m k of None \<Rightarrow> 0 | Some v \<Rightarrow> v"
  obtain m1 b f where m1: "FindAndConstruct grow info zp m k = Some (m1, b)" "dm_inv info m1"
    "b < getNumBuckets m1" "Buckets m1 ! b = (k, ?v)" "getNumBuckets m1 \<le> max 4 (4 * getNumBuckets m)"
    "purged zp (dm_map info m) f" "dm_map info m1 = f(k \<mapsto> ?v)"
    using FindAndConstruct_ok[OF assms] by blast
  note a = assign_ok[OF m1(2-4) k, of "g ?v"]
  show ?thesis
    using m1(1,4-7) a
    by (intro exI[of _ "m1\<lparr>Buckets := (Buckets m1)[b := (k, g ?v)]\<rparr>"] exI[of _ f])
      (simp add: subscript_update_def)
qed

lemma insert_ok:
  fixes m :: "('k, 'v, 'z) DenseMap_scheme"
  assumes inv: "dm_inv info m" and k: "live info k" and size: "getNumBuckets m \<le> 2 ^ 28"
  shows "\<exists>m' b f. DenseMap_insert grow info zp m (k, v) = Some (m', b, dm_map info m k = None) \<and> dm_inv info m' \<and>
    b < getNumBuckets m' \<and> fst (Buckets m' ! b) = k \<and> getNumBuckets m' \<le> max 4 (4 * getNumBuckets m) \<and>
    purged zp (dm_map info m) f \<and>
    dm_map info m' = f(k \<mapsto> (case dm_map info m k of None \<Rightarrow> v | Some w \<Rightarrow> w))"
proof (cases "dm_map info m k")
  case None
  obtain tb where tb: "LookupBucketFor info zp m k = Some (False, tb)"
    using Lookup_None[OF inv k None, of zp] by blast
  show ?thesis
    using InsertIntoBucket_ok[OF inv k None size tb, of v] tb None by (fastforce simp: DenseMap_insert_def)
next
  case (Some w)
  obtain b where "LookupBucketFor info zp m k = Some (True, Some b)" "b < getNumBuckets m" "Buckets m ! b = (k, w)"
    using Lookup_found[OF inv k Some, of zp] by blast
  moreover have "dm_map info m = (dm_map info m)(k \<mapsto> w)" using Some by (simp add: fun_upd_idem)
  ultimately show ?thesis using Some inv
    by (intro exI[of _ m] exI[of _ b] exI[of _ "dm_map info m"]) (simp add: DenseMap_insert_def)
qed

lemma compact_ok:
  fixes m :: "('k, 'v, 'z) DenseMap_scheme"
  assumes inv: "dm_inv info m" and size: "getNumBuckets m \<le> 2 ^ 28"
  shows "\<exists>m'. DenseMap_compact grow shrink_and_clear m = Some m' \<and> dm_inv info m' \<and>
    getNumBuckets m' \<le> max 4 (getNumBuckets m) \<and> purged zp (dm_map info m) (dm_map info m')"
proof (cases "NumEntries m = 0")
  case True
  then show ?thesis
    using shrink_law[OF inv size] no_entries[OF inv] by (auto simp: DenseMap_compact_def)
next
  case False
  show ?thesis
  proof (cases "getNumBuckets m div 16 > NumEntries m \<and> getNumBuckets m > MIN_COMPACT")
    case True
    then have "u32_mul (NumEntries m) 2 = NumEntries m * 2" "NumEntries m * 2 \<le> 2 ^ 30" using size by auto
    then obtain m' where "grow m (u32_mul (NumEntries m) 2) = Some m'" "dm_inv info m'"
      "getNumBuckets m' \<le> max 4 (2 * (NumEntries m * 2))"
      "dm_map info m' = without_zeros zp (dm_map info m)"
      using grow_law[OF inv, of "NumEntries m * 2"] by auto
    with True False show ?thesis by (auto simp: DenseMap_compact_def)
  next
    case False
    with \<open>NumEntries m \<noteq> 0\<close> inv show ?thesis by (auto simp: DenseMap_compact_def)
  qed
qed

lemma erase_ok:
  fixes m :: "('k, 'v, 'z) DenseMap_scheme"
  assumes inv: "dm_inv info m" and k: "live info k" and size: "getNumBuckets m \<le> 2 ^ 28"
  shows "\<exists>m'. DenseMap_erase grow shrink_and_clear info zp m k = Some (m', dm_map info m k \<noteq> None) \<and>
    dm_inv info m' \<and> getNumBuckets m' \<le> max 4 (getNumBuckets m) \<and>
    purged zp ((dm_map info m)(k := None)) (dm_map info m')"
proof (cases "dm_map info m k")
  case None
  moreover obtain tb where "LookupBucketFor info zp m k = Some (False, tb)"
    using Lookup_None[OF inv k None, of zp] by blast
  moreover have "(dm_map info m)(k := None) = dm_map info m" using None by (simp add: fun_upd_idem)
  ultimately show ?thesis using inv by (simp add: DenseMap_erase_def)
next
  case (Some w)
  obtain b where b: "LookupBucketFor info zp m k = Some (True, Some b)" "b < getNumBuckets m" "Buckets m ! b = (k, w)"
    using Lookup_found[OF inv k Some, of zp] by blast
  note tomb = tombstone_ok[OF inv b(2,3) k]
  show ?thesis
    using compact_ok[OF tomb(1)] tomb(2,4) size b Some by (auto simp: DenseMap_erase_def)
qed

lemma erase_iterator_ok:
  fixes m :: "('k, 'v, 'z) DenseMap_scheme"
  assumes inv: "dm_inv info m" and b: "b < getNumBuckets m" "Buckets m ! b = (k, w)" and k: "live info k"
    and size: "getNumBuckets m \<le> 2 ^ 28"
  shows "\<exists>m'. DenseMap_erase_iterator grow shrink_and_clear info m b = Some m' \<and> dm_inv info m' \<and>
    purged zp ((dm_map info m)(k := None)) (dm_map info m')"
  using compact_ok[OF tombstone_ok(1)[OF inv b k]] tombstone_ok(2,4)[OF inv b k] size b
  by (auto simp: DenseMap_erase_iterator_def)

lemma clear_loop_ok:
  assumes "length (filter (\<lambda>b. live info (fst b)) bs) \<le> n" "n < 2 ^ 32"
  shows "DenseMap_clear_loop info bs n =
    (map (\<lambda>(k, v). (getEmptyKey info, v)) bs, n - length (filter (\<lambda>b. live info (fst b)) bs))"
  using assms
proof (induction bs arbitrary: n)
  case (Cons b bs)
  obtain k v where b: "b = (k, v)" by fastforce
  show ?case
    using Cons.prems Cons.IH[of n] Cons.IH[of "n - 1"] distinct_keys
    by (cases "k = getEmptyKey info"; cases "k = getTombstoneKey info") (auto simp: b live_def)
qed simp

lemma clear_ok:
  fixes m :: "('k, 'v, 'z) DenseMap_scheme"
  assumes inv: "dm_inv info m" and size: "getNumBuckets m \<le> 2 ^ 28"
  shows "dm_inv info (DenseMap_clear shrink_and_clear info m) \<and>
    dm_map info (DenseMap_clear shrink_and_clear info m) = Map.empty"
proof -
  have lt: "NumEntries m < 2 ^ 32"
    using used_less[OF inv] inv size by (cases "Buckets m = []") (auto simp: dm_inv_def)
  have "DenseMap_clear_loop info (Buckets m) (NumEntries m) =
      (map (\<lambda>(k, v). (getEmptyKey info, v)) (Buckets m), 0)"
    using clear_loop_ok[of "Buckets m" "NumEntries m"] inv lt by (simp add: dm_inv_def)
  moreover have "m\<lparr>Buckets := map (\<lambda>(k, v). (getEmptyKey info, v)) (Buckets m), NumEntries := 0, NumTombstones := 0\<rparr> =
      initEmpty info m" by (simp add: initEmpty_def)
  moreover have "dm_inv info (initEmpty info m) \<and> dm_map info (initEmpty info m) = Map.empty"
    if nonempty: "Buckets m \<noteq> []"
  proof -
    obtain n where "table_ok info n (Buckets m)" using dm_inv_table[OF inv nonempty] by blast
    then have "getNumBuckets m = 2 ^ n" "n \<le> 31" by (simp_all add: table_ok_def)
    then show ?thesis using initEmpty_ok(1,2) by blast
  qed
  moreover have "NumEntries m = 0 \<and> NumTombstones m = 0" if "Buckets m = []"
    using that inv by (simp add: dm_inv_def)
  ultimately show ?thesis
    using shrink_law[OF inv size] no_entries[OF inv] inv unfolding DenseMap_clear_def
    by (cases "Buckets m = []") auto
qed

lemma insert_range_ok:
  fixes m :: "('k, 'v, 'z) DenseMap_scheme"
  assumes "dm_inv info m" "\<forall>kv \<in> set kvs. live info (fst kv)" "\<not> zp"
    and "max 4 (getNumBuckets m) * 4 ^ length kvs \<le> 2 ^ 28"
  shows "\<exists>m'. DenseMap_insert_range grow info zp m kvs = Some m' \<and> dm_inv info m' \<and>
    dm_map info m' = map_of kvs ++ dm_map info m"
  using assms
proof (induction kvs arbitrary: m)
  case (Cons kv kvs)
  obtain k v where kv: "kv = (k, v)" by fastforce
  have "getNumBuckets m * 1 \<le> max 4 (getNumBuckets m) * 4 ^ length (kv # kvs)"
    by (rule mult_le_mono) simp_all
  then have small: "getNumBuckets m \<le> 2 ^ 28" using Cons.prems(4) unfolding mult_1_right by (rule le_trans)
  obtain m1 b f where m1: "DenseMap_insert grow info zp m (k, v) = Some (m1, b, dm_map info m k = None)"
    "dm_inv info m1" "getNumBuckets m1 \<le> max 4 (4 * getNumBuckets m)" "f = dm_map info m"
    "dm_map info m1 = f(k \<mapsto> (case dm_map info m k of None \<Rightarrow> v | Some w \<Rightarrow> w))"
    using insert_ok[OF Cons.prems(1) _ small, of k v] Cons.prems(2,3) by (auto simp: kv purged_False)
  have "max 4 (getNumBuckets m1) * 4 ^ length kvs \<le> (max 4 (getNumBuckets m) * 4) * 4 ^ length kvs"
    using m1(3) by (intro mult_right_mono) auto
  also have "\<dots> = max 4 (getNumBuckets m) * 4 ^ length (kv # kvs)" by simp
  also note Cons.prems(4)
  finally obtain m' where "DenseMap_insert_range grow info zp m1 kvs = Some m'" "dm_inv info m'"
    "dm_map info m' = map_of kvs ++ dm_map info m1"
    using Cons.IH[OF m1(2)] Cons.prems(2,3) by auto
  moreover have "map_of kvs ++ dm_map info m1 = map_of (kv # kvs) ++ dm_map info m"
    unfolding m1(4,5) by (rule ext) (auto simp: kv map_add_def split: option.splits)
  ultimately show ?case using m1(1) by (intro exI[of _ m'] conjI) (simp_all add: kv fun_upd_def)
qed simp

end

section \<open>DenseMap satisfies the contract\<close>

lemma flsl_lower: "0 < n \<Longrightarrow> 2 ^ flsl n \<le> 2 * n"
  using flsl_iff[of n "flsl n - 1"] by (cases "flsl n") (auto simp: flsl_pos)

lemma Log2_32_Ceil_spec: "0 < e \<Longrightarrow> e < 2 ^ 31 \<Longrightarrow> Log2_32_Ceil (of_nat e) = flsl (e - 1)"
proof -
  assume e: "0 < e" "e < 2 ^ 31"
  have "(of_nat e :: u32) - 1 = of_nat (e - 1)" using e by (simp add: of_nat_diff)
  moreover have "unat (of_nat (e - 1) :: u32) = e - 1" using e by (intro unat_of_nat_small) simp
  moreover have "flsl (e - 1) \<le> 32" using e by (intro flsl_le) simp
  ultimately show ?thesis
    using unat_eq_0[of "of_nat (e - 1) :: u32"] by (auto simp: Log2_32_Ceil_def CountLeadingZeros_32_def)
qed

lemma DenseMap_derived:
  fixes info :: "'k DenseMapInfo"
  assumes "getEmptyKey info \<noteq> getTombstoneKey info"
  shows "dense_map_derived info zp (DenseMap_grow info zp :: ('k, 'v::zero, unit) grow_fun)
    (DenseMap_shrink_and_clear info)"
proof -
  have keys: "dense_keys info" using assms by (rule dense_keys.intro)
  show ?thesis
  proof (rule dense_map_derived.intro[OF keys], rule dense_map_derived_axioms.intro)
    fix m :: "('k, 'v) DenseMap" and a :: nat
    assume inv: "dm_inv info m" and a: "NumEntries m \<le> a" "a \<le> 2 ^ 30"
    define n where "n = max 2 (flsl a)"
    have "max MIN_BUCKETS (2 ^ flsl a) = 2 ^ n" using max_exp2[of 2 "flsl a"] by (simp add: n_def MIN_BUCKETS_def)
    then have n: "max MIN_BUCKETS (unat (NextPowerOf2 (of_nat a))) = 2 ^ n" using NextPowerOf2_spec[of a] a by simp
    have n': "n \<le> 31" "a < 2 ^ n"
      using a flsl_le[of a 31] less_le_trans[OF flsl_bound[of a] power_increasing[of "flsl a" n 2]] by (auto simp: n_def)
    have ub: "(2 :: nat) ^ n \<le> max 4 (2 * a)"
      using flsl_lower[of a] by (cases "a = 0") (auto simp: n_def max_def)
    let ?fresh = "m\<lparr>Buckets := replicate (2 ^ n) (getTombstoneKey info, 0)\<rparr>"
    have "getNumBuckets ?fresh = 2 ^ n" by simp
    note e = dense_keys.initEmpty_ok[OF keys this n'(1)]
    have g: "DenseMap_grow info zp m a =
        (if Buckets m = [] then Some (initEmpty info ?fresh) else moveFromOldBuckets info zp (Buckets m) ?fresh)"
      by (simp add: DenseMap_grow_def allocateBuckets_def n)
    have "\<exists>m'. moveFromOldBuckets info zp (Buckets m) ?fresh = Some m' \<and> dm_inv info m' \<and>
        NumTombstones m' = 0 \<and> getNumBuckets m' = 2 ^ n \<and> NumEntries m' \<le> NumEntries m \<and>
        dm_map info m' = without_zeros zp (dm_map info m)"
      using a(1) n' by (intro dense_keys.move_ok[OF keys inv]) simp_all
    moreover have "without_zeros zp (dm_map info m) = Map.empty" if "Buckets m = []"
      using that by (auto simp: without_zeros_def dm_map_def)
    moreover have "4 \<le> (2 :: nat) ^ n" using power_increasing[of 2 n "2 :: nat"] by (simp add: n_def)
    ultimately show "\<exists>m'. DenseMap_grow info zp m a = Some m' \<and> dm_inv info m' \<and> NumTombstones m' = 0 \<and>
        a < getNumBuckets m' \<and> 4 \<le> getNumBuckets m' \<and> getNumBuckets m' \<le> max 4 (2 * a) \<and>
        NumEntries m' \<le> NumEntries m \<and> dm_map info m' = without_zeros zp (dm_map info m)"
      unfolding g using e n'(2) ub by auto
  next
    fix m :: "('k, 'v) DenseMap"
    assume inv: "dm_inv info m" and size: "getNumBuckets m \<le> 2 ^ 28"
    let ?e = "NumEntries m"
    have lt: "?e < 2 ^ 29"
      using dense_keys.used_less[OF keys inv] inv size by (cases "Buckets m = []") (auto simp: dm_inv_def)
    define N where "N = (if ?e \<noteq> 0 then max MIN_BUCKETS (2 ^ (Log2_32_Ceil (of_nat ?e) + 1)) else 0)"
    have s: "DenseMap_shrink_and_clear info m = (if N = getNumBuckets m then initEmpty info m else DenseMap_init info m N)"
      by (simp add: DenseMap_shrink_and_clear_def N_def Let_def)
    have init: "DenseMap_init info m N =
        (if N \<noteq> 0 then initEmpty info (m\<lparr>Buckets := replicate N (getTombstoneKey info, 0)\<rparr>)
         else m\<lparr>Buckets := [], NumEntries := 0, NumTombstones := 0\<rparr>)"
      by (simp add: DenseMap_init_def allocateBuckets_def)
    show "dm_inv info (DenseMap_shrink_and_clear info m) \<and>
        dm_map info (DenseMap_shrink_and_clear info m) = Map.empty \<and>
        getNumBuckets (DenseMap_shrink_and_clear info m) \<le> max 4 (4 * ?e)"
    proof (cases "?e = 0")
      case True
      then show ?thesis unfolding s init by (auto simp: N_def dm_inv_def dm_map_def initEmpty_def)
    next
      case False
      define n where "n = max 2 (flsl (?e - 1) + 1)"
      have N: "N = 2 ^ n" using False lt max_exp2[of 2 "flsl (?e - 1) + 1"]
        by (simp add: N_def n_def MIN_BUCKETS_def Log2_32_Ceil_spec)
      have "?e - 1 < 2 ^ 29" using lt by simp
      then have n: "n \<le> 31" using flsl_le[of "?e - 1" 29] by (simp add: n_def)
      have ub: "(2 :: nat) ^ n \<le> max 4 (4 * ?e)"
        using flsl_lower[of "?e - 1"] by (cases "?e - 1 = 0") (auto simp: n_def max_def)
      have "getNumBuckets (m\<lparr>Buckets := replicate N (getTombstoneKey info, 0)\<rparr>) = 2 ^ n" by (simp add: N)
      note e1 = dense_keys.initEmpty_ok[OF keys this n]
      have e2: "dm_inv info (initEmpty info m) \<and> dm_map info (initEmpty info m) = Map.empty \<and>
          getNumBuckets (initEmpty info m) = 2 ^ n" if "N = getNumBuckets m"
        using dense_keys.initEmpty_ok[OF keys _ n, of m] that N by simp
      show ?thesis unfolding s init using e1 e2 ub N by auto
    qed
  qed
qed

text \<open>The table of reference counts: keys are disguised object pointers, zero counts are purgeable.\<close>

interpretation RefcountMap: dense_map_derived DenseMapInfo_DisguisedPtr True
  "DenseMap_grow DenseMapInfo_DisguisedPtr True :: (u64, u64, unit) grow_fun"
  "DenseMap_shrink_and_clear DenseMapInfo_DisguisedPtr"
  by (rule DenseMap_derived) (simp add: DenseMapInfo_DisguisedPtr_def disguise_def)

interpretation ptr_keys: dense_keys DenseMapInfo_ptr
  by unfold_locales (simp add: DenseMapInfo_ptr_def)

interpretation char_keys: dense_keys DenseMapInfo_char
  by unfold_locales (simp add: DenseMapInfo_char_def)

interpretation unsigned_keys: dense_keys DenseMapInfo_unsigned
  by unfold_locales (simp add: DenseMapInfo_unsigned_def)

interpretation int_keys: dense_keys DenseMapInfo_int
  by unfold_locales (simp add: DenseMapInfo_int_def)

interpretation long_keys: dense_keys DenseMapInfo_long
  by unfold_locales (simp add: DenseMapInfo_long_def)

section \<open>Iteration\<close>

lemma AdvancePastEmptyBuckets_drop:
  "p \<le> length bs \<Longrightarrow> drop (AdvancePastEmptyBuckets info bs p) bs =
     dropWhile (\<lambda>b. \<not> live info (fst b)) (drop p bs)"
proof (induction info bs p rule: AdvancePastEmptyBuckets.induct)
  case (1 info bs p)
  show ?case
  proof (cases "p < length bs")
    case True
    then have "drop p bs = bs ! p # drop (p + 1) bs" by (simp add: Cons_nth_drop_Suc)
    with True 1 show ?thesis by (subst AdvancePastEmptyBuckets.simps) (auto simp: live_def)
  qed (use 1 in \<open>subst AdvancePastEmptyBuckets.simps, simp\<close>)
qed

lemma AdvancePastEmptyBuckets_le: "p \<le> length bs \<Longrightarrow> AdvancePastEmptyBuckets info bs p \<le> length bs"
  by (induction info bs p rule: AdvancePastEmptyBuckets.induct) (subst AdvancePastEmptyBuckets.simps, auto)

lemma filter_dropWhile_not: "filter P (dropWhile (\<lambda>x. \<not> P x) xs) = filter P xs"
  by (induction xs) auto

lemma iterate_from_live:
  "p \<le> length bs \<Longrightarrow> (p < length bs \<Longrightarrow> live info (fst (bs ! p))) \<Longrightarrow>
     iterate_from info bs p = filter (\<lambda>b. live info (fst b)) (drop p bs)"
proof (induction "length bs - p" arbitrary: p rule: less_induct)
  case less
  show ?case
  proof (cases "p < length bs")
    case True
    let ?q = "iterator_next info bs p"
    have q: "?q \<le> length bs" "p < ?q"
      using True AdvancePastEmptyBuckets_le[of "p + 1" bs info] AdvancePastEmptyBuckets_ge[of "p + 1" info bs]
      by (simp_all add: iterator_next_def)
    have dq: "drop ?q bs = dropWhile (\<lambda>b. \<not> live info (fst b)) (drop (p + 1) bs)"
      using True AdvancePastEmptyBuckets_drop[of "p + 1" bs info] by (simp add: iterator_next_def)
    have "live info (fst (bs ! ?q))" if "?q < length bs"
    proof -
      have "drop ?q bs \<noteq> []" "hd (drop ?q bs) = bs ! ?q" using that by (simp_all add: hd_drop_conv_nth)
      then show ?thesis using hd_dropWhile[of "\<lambda>b. \<not> live info (fst b)" "drop (p + 1) bs"] dq by auto
    qed
    then have "iterate_from info bs ?q = filter (\<lambda>b. live info (fst b)) (drop ?q bs)"
      using q True by (intro less.hyps) auto
    also have "\<dots> = filter (\<lambda>b. live info (fst b)) (drop (p + 1) bs)"
      unfolding dq by (rule filter_dropWhile_not)
    finally show ?thesis
      using True less.prems(2) by (subst iterate_from.simps) (simp add: Cons_nth_drop_Suc[symmetric])
  qed (use less.prems in \<open>subst iterate_from.simps, simp\<close>)
qed

lemma DenseMap_elements_live:
  assumes "dm_inv info m"
  shows "DenseMap_elements info m = filter (\<lambda>b. live info (fst b)) (Buckets m)"
proof (cases "NumEntries m = 0")
  case True
  then have "filter (\<lambda>b. live info (fst b)) (Buckets m) = []" using assms by (simp add: dm_inv_def)
  then show ?thesis using True
    by (simp add: DenseMap_elements_def DenseMap_begin_def) (subst iterate_from.simps, simp)
next
  case False
  let ?q = "AdvancePastEmptyBuckets info (Buckets m) 0"
  have dq: "drop ?q (Buckets m) = dropWhile (\<lambda>b. \<not> live info (fst b)) (Buckets m)"
    using AdvancePastEmptyBuckets_drop[of 0 "Buckets m" info] by simp
  have "live info (fst (Buckets m ! ?q))" if "?q < getNumBuckets m"
  proof -
    have "drop ?q (Buckets m) \<noteq> []" "hd (drop ?q (Buckets m)) = Buckets m ! ?q"
      using that by (simp_all add: hd_drop_conv_nth)
    then show ?thesis using hd_dropWhile[of "\<lambda>b. \<not> live info (fst b)" "Buckets m"] dq by auto
  qed
  then have "iterate_from info (Buckets m) ?q = filter (\<lambda>b. live info (fst b)) (drop ?q (Buckets m))"
    by (intro iterate_from_live AdvancePastEmptyBuckets_le) simp_all
  then show ?thesis using False unfolding dq filter_dropWhile_not
    by (simp add: DenseMap_elements_def DenseMap_begin_def)
qed

section \<open>Properties\<close>

definition dm_val :: "'k DenseMapInfo \<Rightarrow> ('k, 'v::zero, 'z) DenseMap_scheme \<Rightarrow> 'k \<Rightarrow> 'v" where
  "dm_val info m k = (case dm_map info m k of None \<Rightarrow> 0 | Some v \<Rightarrow> v)"

lemma purged_val:
  "purged zp (dm_map info m) f \<Longrightarrow> (case f k of None \<Rightarrow> 0 | Some v \<Rightarrow> v) = dm_val info m k"
  unfolding purged_def dm_val_def by (metis option.case(1,2))

lemma DenseMap_new_ok:
  "dm_inv info (DenseMap_new info 0 :: ('k, 'v::zero) DenseMap)"
  "dm_map info (DenseMap_new info 0 :: ('k, 'v::zero) DenseMap) = Map.empty"
  by (auto simp: DenseMap_new_def DenseMap_init_def allocateBuckets_def dm_inv_def dm_map_def)

text \<open>
  C7: in a table that satisfies the invariant every search for a proper key returns, never
  reaching the fatal error, and \<open>count\<close>, \<open>lookup\<close> and \<open>find\<close> report what is stored.
\<close>

theorem DenseMap_lookup_correct:
  fixes m :: "('k, 'v::zero, 'z) DenseMap_scheme"
  assumes "getEmptyKey info \<noteq> getTombstoneKey info" "dm_inv info m" "live info k"
  shows "DenseMap_count info zp m k = Some (dm_map info m k \<noteq> None) \<and>
    DenseMap_lookup info zp m k = Some (dm_val info m k) \<and>
    (\<exists>it. DenseMap_find info zp m k = Some it \<and>
      (case dm_map info m k of None \<Rightarrow> it = getNumBuckets m
       | Some v \<Rightarrow> it < getNumBuckets m \<and> Buckets m ! it = (k, v)))"
  using dense_keys.lookup_ok[OF dense_keys.intro[OF assms(1)] assms(2,3), of zp]
  by (simp add: dm_val_def)

theorem DenseMap_lookup_correct_witness:
  "DenseMap_count DenseMapInfo_unsigned False (DenseMap_new DenseMapInfo_unsigned 0 :: (u32, u64) DenseMap) 7
     = Some False"
  using DenseMap_lookup_correct[of DenseMapInfo_unsigned
      "DenseMap_new DenseMapInfo_unsigned 0 :: (u32, u64) DenseMap" 7 False]
    DenseMap_new_ok[of DenseMapInfo_unsigned, where ?'v = u64]
  by (simp add: DenseMapInfo_unsigned_def live_def)

text \<open>
  C3: \<open>m[k] = f (m[k])\<close> implements a function update. Absent keys read as zero; other keys keep
  their value, whatever the operation rehashes, and keep their entry unless zeros are purgeable.
\<close>

theorem DenseMap_update_refines:
  fixes m :: "('k, 'v::zero) DenseMap"
  assumes "getEmptyKey info \<noteq> getTombstoneKey info" "dm_inv info m" "live info k" "getNumBuckets m \<le> 2 ^ 28"
  shows "\<exists>m'. subscript_update (DenseMap_grow info zp) info zp m k f = Some m' \<and> dm_inv info m' \<and>
    (\<forall>k'. dm_val info m' k' = (if k' = k then f (dm_val info m k) else dm_val info m k')) \<and>
    (\<not> zp \<longrightarrow> dm_map info m' = (dm_map info m)(k \<mapsto> f (dm_val info m k)))"
proof -
  obtain m' g where "subscript_update (DenseMap_grow info zp) info zp m k f = Some m'" "dm_inv info m'"
    "purged zp (dm_map info m) g" "dm_map info m' = g(k \<mapsto> f (dm_val info m k))"
    using dense_map_derived.subscript_ok[OF DenseMap_derived[OF assms(1)] assms(2-4), of zp f]
    unfolding dm_val_def by blast
  then show ?thesis
    using purged_val[of zp info m g] by (intro exI[of _ m']) (auto simp: dm_val_def purged_False)
qed

theorem DenseMap_update_refines_witness:
  "\<exists>m'. subscript_update (DenseMap_grow DenseMapInfo_unsigned False) DenseMapInfo_unsigned False
      (DenseMap_new DenseMapInfo_unsigned 0) 7 (\<lambda>v. v + 5) = Some m' \<and>
    dm_val DenseMapInfo_unsigned m' 7 = (5 :: u64)"
  using DenseMap_update_refines[of DenseMapInfo_unsigned
      "DenseMap_new DenseMapInfo_unsigned 0 :: (u32, u64) DenseMap" 7 False "\<lambda>v. v + 5"]
    DenseMap_new_ok[of DenseMapInfo_unsigned, where ?'v = u64]
  by (auto simp: DenseMapInfo_unsigned_def live_def dm_val_def DenseMap_new_def DenseMap_init_def allocateBuckets_def)

text \<open>
  C21: \<open>erase\<close> reports whether the key was present, removes it, and keeps every other key, even when
  it compacts or frees the table; zero values may go if they are purgeable.
\<close>

theorem DenseMap_erase_refines:
  fixes m :: "('k, 'v::zero) DenseMap"
  assumes "getEmptyKey info \<noteq> getTombstoneKey info" "dm_inv info m" "live info k" "getNumBuckets m \<le> 2 ^ 28"
  shows "\<exists>m'. DenseMap_erase (DenseMap_grow info zp) (DenseMap_shrink_and_clear info) info zp m k =
      Some (m', dm_map info m k \<noteq> None) \<and> dm_inv info m' \<and> dm_map info m' k = None \<and>
    (\<forall>k'. dm_val info m' k' = (if k' = k then 0 else dm_val info m k')) \<and>
    (\<not> zp \<longrightarrow> dm_map info m' = (dm_map info m)(k := None))"
proof -
  obtain m' where m': "DenseMap_erase (DenseMap_grow info zp) (DenseMap_shrink_and_clear info) info zp m k =
      Some (m', dm_map info m k \<noteq> None)" "dm_inv info m'" "purged zp ((dm_map info m)(k := None)) (dm_map info m')"
    using dense_map_derived.erase_ok[OF DenseMap_derived[OF assms(1)] assms(2-4), of zp] by blast
  have "dm_val info m' k' = (if k' = k then 0 else dm_val info m k')" for k'
    using m'(3) unfolding purged_def dm_val_def by (metis fun_upd_apply option.case(1,2))
  moreover have "dm_map info m' k = None" using m'(3) unfolding purged_def by (metis fun_upd_same)
  ultimately show ?thesis using m' by (auto simp: purged_False)
qed

theorem DenseMap_erase_refines_witness:
  "\<exists>m'. DenseMap_erase (DenseMap_grow DenseMapInfo_unsigned True) (DenseMap_shrink_and_clear DenseMapInfo_unsigned)
      DenseMapInfo_unsigned True (DenseMap_new DenseMapInfo_unsigned 0 :: (u32, u64) DenseMap) 7 = Some (m', False)"
  using DenseMap_erase_refines[of DenseMapInfo_unsigned
      "DenseMap_new DenseMapInfo_unsigned 0 :: (u32, u64) DenseMap" 7 True]
    DenseMap_new_ok[of DenseMapInfo_unsigned, where ?'v = u64]
  by (auto simp: DenseMapInfo_unsigned_def live_def DenseMap_new_def DenseMap_init_def allocateBuckets_def)

text \<open>The maps a program can build with the operations while they stay below \<open>2^28\<close> buckets.\<close>

inductive dm_reachable :: "'k DenseMapInfo \<Rightarrow> bool \<Rightarrow> ('k, 'v::zero) DenseMap \<Rightarrow> bool" for info zp where
  new: "dm_reachable info zp (DenseMap_new info 0)"
| update: "dm_reachable info zp m \<Longrightarrow> getNumBuckets m \<le> 2 ^ 28 \<Longrightarrow> live info k \<Longrightarrow>
    subscript_update (DenseMap_grow info zp) info zp m k f = Some m' \<Longrightarrow> dm_reachable info zp m'"
| insert: "dm_reachable info zp m \<Longrightarrow> getNumBuckets m \<le> 2 ^ 28 \<Longrightarrow> live info k \<Longrightarrow>
    DenseMap_insert (DenseMap_grow info zp) info zp m (k, v) = Some (m', it, b) \<Longrightarrow> dm_reachable info zp m'"
| erase: "dm_reachable info zp m \<Longrightarrow> getNumBuckets m \<le> 2 ^ 28 \<Longrightarrow> live info k \<Longrightarrow>
    DenseMap_erase (DenseMap_grow info zp) (DenseMap_shrink_and_clear info) info zp m k = Some (m', b) \<Longrightarrow>
    dm_reachable info zp m'"
| clear: "dm_reachable info zp m \<Longrightarrow> getNumBuckets m \<le> 2 ^ 28 \<Longrightarrow>
    dm_reachable info zp (DenseMap_clear (DenseMap_shrink_and_clear info) info m)"
| resize: "dm_reachable info zp m \<Longrightarrow> n \<le> 2 ^ 28 \<Longrightarrow>
    DenseMap_resize (DenseMap_grow info zp) m n = Some m' \<Longrightarrow> dm_reachable info zp m'"

text \<open>
  C22: every reachable map satisfies the invariant: a power of two of buckets, exact entry and
  tombstone counts, unique keys, every key found by probing, and always an empty bucket left.
\<close>

theorem DenseMap_reachable_inv:
  assumes "getEmptyKey info \<noteq> getTombstoneKey info" "dm_reachable info zp m"
  shows "dm_inv info m \<and> (Buckets m \<noteq> [] \<longrightarrow> NumEntries m + NumTombstones m < getNumBuckets m)"
proof -
  note d = DenseMap_derived[OF assms(1), of zp] and k = dense_keys.intro[OF assms(1)]
  from assms(2) have "dm_inv info m"
  proof induction
    case new
    show ?case by (rule DenseMap_new_ok)
  next
    case (update m k f m')
    with dense_map_derived.subscript_ok[OF d update.IH update.hyps(3,2), of f] show ?case by auto
  next
    case (insert m k v m' it b)
    with dense_map_derived.insert_ok[OF d insert.IH insert.hyps(3,2), of v] show ?case by auto
  next
    case (erase m k m' b)
    with dense_map_derived.erase_ok[OF d erase.IH erase.hyps(3,2)] show ?case by auto
  next
    case (clear m)
    with dense_map_derived.clear_ok[OF d clear.IH clear.hyps(2)] show ?case by simp
  next
    case (resize m n m')
    have le: "NumEntries m \<le> getNumBuckets m" using resize.IH by (simp add: dm_inv_def)
    show ?case
    proof (cases "n > getNumBuckets m")
      case True
      with resize le dense_map_derived.grow_law[OF d resize.IH, of n] show ?thesis
        by (auto simp: DenseMap_resize_def)
    qed (use resize in \<open>simp add: DenseMap_resize_def\<close>)
  qed
  then show ?thesis using dense_keys.used_less[OF k] by blast
qed

theorem DenseMap_reachable_inv_witness:
  "dm_inv DenseMapInfo_ptr (DenseMap_clear (DenseMap_shrink_and_clear DenseMapInfo_ptr) DenseMapInfo_ptr
     (DenseMap_new DenseMapInfo_ptr 0 :: (ptr, u64) DenseMap))"
proof -
  let ?m = "DenseMap_new DenseMapInfo_ptr 0 :: (ptr, u64) DenseMap"
  have "getNumBuckets ?m \<le> 2 ^ 28" by (simp add: DenseMap_new_def DenseMap_init_def allocateBuckets_def)
  then have "dm_reachable DenseMapInfo_ptr True (DenseMap_clear (DenseMap_shrink_and_clear DenseMapInfo_ptr) DenseMapInfo_ptr ?m)"
    by (intro dm_reachable.clear dm_reachable.new)
  then show ?thesis using DenseMap_reachable_inv ptr_keys.distinct_keys by blast
qed

text \<open>
  a loop over the iterators visits each stored pair exactly once.
\<close>

theorem DenseMap_elements_correct:
  assumes "getEmptyKey info \<noteq> getTombstoneKey info" "dm_inv info m"
  shows "distinct (map fst (DenseMap_elements info m)) \<and> map_of (DenseMap_elements info m) = dm_map info m \<and>
    length (DenseMap_elements info m) = NumEntries m"
proof -
  note k = dense_keys.intro[OF assms(1)]
  have e: "DenseMap_elements info m = filter (\<lambda>b. live info (fst b)) (Buckets m)"
    by (rule DenseMap_elements_live[OF assms(2)])
  have d: "distinct (map fst (DenseMap_elements info m))"
    unfolding e by (rule dense_keys.distinct_live[OF k assms(2)])
  have "map_of (DenseMap_elements info m) = dm_map info m"
    using d by (intro map_eq_Some) (auto simp: dense_keys.dm_map_Some_iff[OF k assms(2)] e)
  then show ?thesis using d assms(2) by (simp add: e dm_inv_def)
qed

theorem DenseMap_elements_correct_witness:
  "DenseMap_elements DenseMapInfo_ptr (DenseMap_new DenseMapInfo_ptr 0 :: (ptr, u64) DenseMap) = []"
  using DenseMap_elements_correct[of DenseMapInfo_ptr "DenseMap_new DenseMapInfo_ptr 0 :: (ptr, u64) DenseMap"]
    DenseMap_new_ok[of DenseMapInfo_ptr, where ?'v = u64] ptr_keys.distinct_keys
  by (simp add: dm_inv_def)

text \<open>
  \<open>grow(NumBuckets)\<close>, the call meant to rehash in place, doubles the table, and
  \<open>grow(NumBuckets * 2)\<close> makes it four times as large, because \<open>NextPowerOf2\<close> is strict.
\<close>

theorem DenseMap_grow_doubles:
  fixes m :: "('k, 'v::zero) DenseMap"
  assumes "getEmptyKey info \<noteq> getTombstoneKey info" "dm_inv info m" "getNumBuckets m = 2 ^ k" "1 \<le> k" "k \<le> 28"
  shows "(\<exists>m'. DenseMap_grow info zp m (getNumBuckets m) = Some m' \<and> getNumBuckets m' = 2 * getNumBuckets m) \<and>
    (\<exists>m'. DenseMap_grow info zp m (u32_mul (getNumBuckets m) 2) = Some m' \<and> getNumBuckets m' = 4 * getNumBuckets m)"
proof -
  note keys = dense_keys.intro[OF assms(1)]
  have grow: "\<exists>m'. DenseMap_grow info zp m (2 ^ j) = Some m' \<and> getNumBuckets m' = 2 * 2 ^ j"
    if jk: "k \<le> j" "j \<le> 29" for j
  proof -
    have ne: "Buckets m \<noteq> []" using assms(3) by auto
    have "(4 :: nat) \<le> 2 * 2 ^ j" using power_increasing[of 1 j "2 :: nat"] jk assms(4) by simp
    then have N: "max MIN_BUCKETS (unat (NextPowerOf2 (of_nat (2 ^ j)))) = 2 ^ Suc j"
      using NextPowerOf2_pow2[of j] jk by (simp add: MIN_BUCKETS_def)
    let ?fresh = "m\<lparr>Buckets := replicate (2 ^ Suc j) (getTombstoneKey info, 0 :: 'v)\<rparr>"
    have "NumEntries m < 2 ^ k" using dense_keys.used_less[OF keys assms(2) ne] assms(3) by simp
    also have "(2 :: nat) ^ k \<le> 2 ^ Suc j" using jk by (intro power_increasing) simp_all
    finally obtain m' where "moveFromOldBuckets info zp (Buckets m) ?fresh = Some m'" "getNumBuckets m' = 2 ^ Suc j"
      using dense_keys.move_ok[OF keys assms(2), of ?fresh "Suc j" zp] jk by auto
    then show ?thesis using ne N by (auto simp: DenseMap_grow_def allocateBuckets_def)
  qed
  have "(2 :: nat) ^ Suc k \<le> 2 ^ 29" using assms(5) by (intro power_increasing) simp_all
  then have "u32_mul (2 ^ k) 2 = 2 ^ Suc k" by simp
  then show ?thesis using grow[of k] grow[of "Suc k"] assms(3-5) by simp
qed

theorem DenseMap_grow_doubles_witness:
  "\<exists>m'. DenseMap_grow DenseMapInfo_ptr False
      (initEmpty DenseMapInfo_ptr \<lparr>Buckets = replicate 4 (0, 0 :: u64), NumEntries = 0, NumTombstones = 0\<rparr>) 4 = Some m' \<and>
    getNumBuckets m' = 8"
proof -
  let ?m = "initEmpty DenseMapInfo_ptr \<lparr>Buckets = replicate 4 (0, 0 :: u64), NumEntries = 0, NumTombstones = 0\<rparr>"
  have "dm_inv DenseMapInfo_ptr ?m" "getNumBuckets ?m = 2 ^ 2"
    using ptr_keys.initEmpty_ok(1,5)[of "\<lparr>Buckets = replicate 4 (0, 0 :: u64), NumEntries = 0, NumTombstones = 0\<rparr>" 2]
    by simp_all
  then show ?thesis
    using DenseMap_grow_doubles[of DenseMapInfo_ptr ?m 2 False] ptr_keys.distinct_keys by simp
qed

lemma four_buckets:
  "replicate 4 x = [x, x, x, x]"
  "[a, b, c, d][0 := y] = [y, b, c, d]" "[a, b, c, d][Suc 0 := y] = [a, y, c, d]"
  "[a, b, c, d][2 := y] = [a, b, y, d]" "[a, b, c, d][3 := y] = [a, b, c, y]"
  "[a, b, c, d] ! Suc 0 = b" "[a, b, c, d] ! 2 = c" "[a, b, c, d] ! 3 = d"
  by (simp_all add: numeral_eq_Suc)

lemmas small_map_eval = DenseMapInfo_unsigned_def DenseMap_insert_def DenseMap_erase_def DenseMap_compact_def
  DenseMap_count_def InsertIntoBucket_def InsertIntoBucketImpl_def account_def SmallDenseMap_grow_def
  SmallDenseMap_new_def SmallDenseMap_init_def initEmpty_def MIN_COMPACT_def LookupBucketFor_def
  LookupBucketFor_loop.simps Let_def four_buckets numeral_3_eq_3 [symmetric]

definition small_insert :: "(u32, u64) SmallDenseMap \<Rightarrow> u32 \<Rightarrow> (u32, u64) SmallDenseMap option" where
  "small_insert m k = map_option fst
     (DenseMap_insert (SmallDenseMap_grow 4 DenseMapInfo_unsigned False) DenseMapInfo_unsigned False m (k, 1))"

definition small_erase :: "(u32, u64) SmallDenseMap \<Rightarrow> u32 \<Rightarrow> (u32, u64) SmallDenseMap option" where
  "small_erase m k = map_option fst
     (DenseMap_erase (SmallDenseMap_grow 4 DenseMapInfo_unsigned False)
        (SmallDenseMap_shrink_and_clear 4 DenseMapInfo_unsigned) DenseMapInfo_unsigned False m k)"

definition small_history :: "(u32, u64) SmallDenseMap option" where
  "small_history =
     do { m \<leftarrow> small_insert (SmallDenseMap_new 4 DenseMapInfo_unsigned 0) 0;
          m \<leftarrow> small_insert m 1; m \<leftarrow> small_erase m 1; m \<leftarrow> small_insert m 2;
          m \<leftarrow> small_erase m 2; small_insert m 3 }"

abbreviation small_state :: "(u32 \<times> u64) list \<Rightarrow> nat \<Rightarrow> nat \<Rightarrow> (u32, u64) SmallDenseMap" where
  "small_state bs e t \<equiv> \<lparr>Buckets = bs, NumEntries = e, NumTombstones = t, Small = True\<rparr>"

lemma small_history_steps:
  "small_insert (SmallDenseMap_new 4 DenseMapInfo_unsigned 0) 0 = Some (small_state [(0, 1), (-1, 0), (-1, 0), (-1, 0)] 1 0)"
  "small_insert (small_state [(0, 1), (-1, 0), (-1, 0), (-1, 0)] 1 0) 1 =
     Some (small_state [(0, 1), (1, 1), (-1, 0), (-1, 0)] 2 0)"
  "small_erase (small_state [(0, 1), (1, 1), (-1, 0), (-1, 0)] 2 0) 1 =
     Some (small_state [(0, 1), (-2, 1), (-1, 0), (-1, 0)] 1 1)"
  "small_insert (small_state [(0, 1), (-2, 1), (-1, 0), (-1, 0)] 1 1) 2 =
     Some (small_state [(0, 1), (-2, 1), (2, 1), (-1, 0)] 2 1)"
  "small_erase (small_state [(0, 1), (-2, 1), (2, 1), (-1, 0)] 2 1) 2 =
     Some (small_state [(0, 1), (-2, 1), (-2, 1), (-1, 0)] 1 2)"
  "small_insert (small_state [(0, 1), (-2, 1), (-2, 1), (-1, 0)] 1 2) 3 =
     Some (small_state [(0, 1), (-2, 1), (-2, 1), (3, 1)] 2 2)"
  by (simp_all add: small_insert_def small_erase_def small_map_eval)


text \<open>
  \<open>SmallDenseMap::swap\<close> exchanges the live buckets of two maps, in each of the four
  combinations of inline and allocated representations.
\<close>

theorem SmallDenseMap_swap_exchanges:
  assumes "Small a \<and> Small b \<longrightarrow> getNumBuckets a = getNumBuckets b"
    and "SmallDenseMap_swap info a b = (a', b')"
  shows "filter (\<lambda>x. live info (fst x)) (Buckets a') = filter (\<lambda>x. live info (fst x)) (Buckets b) \<and>
    filter (\<lambda>x. live info (fst x)) (Buckets b') = filter (\<lambda>x. live info (fst x)) (Buckets a) \<and>
    map fst (Buckets a') = map fst (Buckets b) \<and> map fst (Buckets b') = map fst (Buckets a) \<and>
    Small a' = Small b \<and> Small b' = Small a \<and> NumEntries a' = NumEntries b \<and> NumEntries b' = NumEntries a"
proof -
  let ?live = "filter (\<lambda>x. live info (fst x))"
  have mv: "?live (map (move_bucket info) bs) = ?live bs \<and> map fst (map (move_bucket info) bs) = map fst bs"
    for bs :: "('a \<times> 'b) list"
    by (induction bs) (auto simp: move_bucket_def live_def)
  have sw: "?live (map fst (map2 (swap_bucket info) xs ys)) = ?live ys \<and>
      ?live (map snd (map2 (swap_bucket info) xs ys)) = ?live xs \<and>
      map fst (map fst (map2 (swap_bucket info) xs ys)) = map fst ys \<and>
      map fst (map snd (map2 (swap_bucket info) xs ys)) = map fst xs"
    if "length xs = length ys" for xs ys :: "('a \<times> 'b) list"
    using that by (induction xs ys rule: list_induct2) (auto simp: swap_bucket_def live_def Let_def)
  show ?thesis
    using assms sw[of "Buckets a" "Buckets b"] mv
    by (auto simp: SmallDenseMap_swap_def Let_def split: if_splits)
qed

theorem SmallDenseMap_swap_exchanges_witness:
  "fst (SmallDenseMap_swap DenseMapInfo_unsigned (SmallDenseMap_new 4 DenseMapInfo_unsigned 0 :: (u32, u64) SmallDenseMap)
     (SmallDenseMap_new 4 DenseMapInfo_unsigned 8)) = SmallDenseMap_new 4 DenseMapInfo_unsigned 8"
proof -
  let ?a = "SmallDenseMap_new 4 DenseMapInfo_unsigned 0 :: (u32, u64) SmallDenseMap"
  let ?b = "SmallDenseMap_new 4 DenseMapInfo_unsigned 8 :: (u32, u64) SmallDenseMap"
  have s: "Small ?a" "\<not> Small ?b" by (simp_all add: SmallDenseMap_new_def SmallDenseMap_init_def initEmpty_def)
  have "Small (fst (SmallDenseMap_swap DenseMapInfo_unsigned ?a ?b)) = Small ?b"
    using SmallDenseMap_swap_exchanges[of ?a ?b DenseMapInfo_unsigned
        "fst (SmallDenseMap_swap DenseMapInfo_unsigned ?a ?b)" "snd (SmallDenseMap_swap DenseMapInfo_unsigned ?a ?b)"] s
    by simp
  then show ?thesis
    using s by (simp add: SmallDenseMap_swap_def SmallDenseMap_new_def SmallDenseMap_init_def initEmpty_def)
qed

end
