(* ===== verification/ObjC_TaggedPointer.thy ===== *)
theory ObjC_TaggedPointer
  imports Prelude
begin

text \<open>
  Tagged pointer objects (runtime/objc-internal.h, the class lookup \<open>objc_object::getIsa\<close> of
  runtime/objc-object.h and the class tables of runtime/objc-runtime-new.mm): a pointer with its
  tag bit set carries a tag and a payload instead of an address. The layout is a parameter: the
  tag bit is the most significant bit, or the least significant one on 64-bit Macs.
  \<open>_objc_fatal\<close> is the result \<open>None\<close>.
\<close>

section \<open>Layout\<close>

record tag_layout =
  TAG_MASK :: u64
  TAG_INDEX_SHIFT :: nat
  TAG_SLOT_SHIFT :: nat
  TAG_PAYLOAD_LSHIFT :: nat
  TAG_PAYLOAD_RSHIFT :: nat
  TAG_EXT_MASK :: u64
  TAG_EXT_INDEX_SHIFT :: nat
  TAG_EXT_SLOT_SHIFT :: nat
  TAG_EXT_PAYLOAD_LSHIFT :: nat
  TAG_EXT_PAYLOAD_RSHIFT :: nat

definition tag_layout_of :: "bool \<Rightarrow> tag_layout" where
  "tag_layout_of msb =
     (if msb then
        \<lparr>TAG_MASK = push_bit 63 1, TAG_INDEX_SHIFT = 60, TAG_SLOT_SHIFT = 60, TAG_PAYLOAD_LSHIFT = 4,
         TAG_PAYLOAD_RSHIFT = 4, TAG_EXT_MASK = push_bit 60 0xf, TAG_EXT_INDEX_SHIFT = 52,
         TAG_EXT_SLOT_SHIFT = 52, TAG_EXT_PAYLOAD_LSHIFT = 12, TAG_EXT_PAYLOAD_RSHIFT = 12\<rparr>
      else
        \<lparr>TAG_MASK = 1, TAG_INDEX_SHIFT = 1, TAG_SLOT_SHIFT = 0, TAG_PAYLOAD_LSHIFT = 0,
         TAG_PAYLOAD_RSHIFT = 4, TAG_EXT_MASK = 0xf, TAG_EXT_INDEX_SHIFT = 4,
         TAG_EXT_SLOT_SHIFT = 4, TAG_EXT_PAYLOAD_LSHIFT = 0, TAG_EXT_PAYLOAD_RSHIFT = 12\<rparr>)"

definition TAG_INDEX_MASK :: u64 where "TAG_INDEX_MASK = 0x7"
definition TAG_SLOT_MASK :: u64 where "TAG_SLOT_MASK = 0xf"
definition TAG_EXT_INDEX_MASK :: u64 where "TAG_EXT_INDEX_MASK = 0xff"
definition TAG_EXT_SLOT_MASK :: u64 where "TAG_EXT_SLOT_MASK = 0xff"

definition OBJC_TAG_RESERVED_7 :: nat where "OBJC_TAG_RESERVED_7 = 7"
definition OBJC_TAG_First60BitPayload :: nat where "OBJC_TAG_First60BitPayload = 0"
definition OBJC_TAG_Last60BitPayload :: nat where "OBJC_TAG_Last60BitPayload = 6"
definition OBJC_TAG_First52BitPayload :: nat where "OBJC_TAG_First52BitPayload = 8"
definition OBJC_TAG_Last52BitPayload :: nat where "OBJC_TAG_Last52BitPayload = 263"

lemmas tag_consts = TAG_INDEX_MASK_def TAG_SLOT_MASK_def TAG_EXT_INDEX_MASK_def TAG_EXT_SLOT_MASK_def
  OBJC_TAG_RESERVED_7_def OBJC_TAG_First60BitPayload_def OBJC_TAG_Last60BitPayload_def
  OBJC_TAG_First52BitPayload_def OBJC_TAG_Last52BitPayload_def

section \<open>Making and reading tagged pointers (objc-internal.h)\<close>

text \<open>\<open>obf\<close> is the global \<open>objc_debug_taggedpointer_obfuscator\<close>.\<close>

definition encodeTaggedPointer :: "u64 \<Rightarrow> u64 \<Rightarrow> ptr" where
  "encodeTaggedPointer obf p = obf XOR p"

definition decodeTaggedPointer :: "u64 \<Rightarrow> ptr \<Rightarrow> u64" where
  "decodeTaggedPointer obf p = p XOR obf"

definition makeTaggedPointer :: "tag_layout \<Rightarrow> u64 \<Rightarrow> nat \<Rightarrow> u64 \<Rightarrow> ptr" where
  "makeTaggedPointer L obf tag val =
     (if tag \<le> OBJC_TAG_Last60BitPayload then
        encodeTaggedPointer obf
          (TAG_MASK L OR push_bit (TAG_INDEX_SHIFT L) (of_nat tag) OR
           drop_bit (TAG_PAYLOAD_LSHIFT L) (push_bit (TAG_PAYLOAD_RSHIFT L) val))
      else
        encodeTaggedPointer obf
          (TAG_EXT_MASK L OR push_bit (TAG_EXT_INDEX_SHIFT L) (of_nat tag - of_nat OBJC_TAG_First52BitPayload) OR
           drop_bit (TAG_EXT_PAYLOAD_LSHIFT L) (push_bit (TAG_EXT_PAYLOAD_RSHIFT L) val)))"

definition objc_isTaggedPointer :: "tag_layout \<Rightarrow> ptr \<Rightarrow> bool" where
  "objc_isTaggedPointer L p = ((p AND TAG_MASK L) = TAG_MASK L)"

definition basicTag :: "tag_layout \<Rightarrow> u64 \<Rightarrow> u64" where
  "basicTag L v = drop_bit (TAG_INDEX_SHIFT L) v AND TAG_INDEX_MASK"

definition getTaggedPointerTag :: "tag_layout \<Rightarrow> u64 \<Rightarrow> ptr \<Rightarrow> nat" where
  "getTaggedPointerTag L obf p =
     (let v = decodeTaggedPointer obf p;
          extTag = drop_bit (TAG_EXT_INDEX_SHIFT L) v AND TAG_EXT_INDEX_MASK
      in if basicTag L v = TAG_INDEX_MASK then unat extTag + OBJC_TAG_First52BitPayload
         else unat (basicTag L v))"

definition getTaggedPointerValue :: "tag_layout \<Rightarrow> u64 \<Rightarrow> ptr \<Rightarrow> u64" where
  "getTaggedPointerValue L obf p =
     (let v = decodeTaggedPointer obf p
      in if basicTag L v = TAG_INDEX_MASK
         then drop_bit (TAG_EXT_PAYLOAD_RSHIFT L) (push_bit (TAG_EXT_PAYLOAD_LSHIFT L) v)
         else drop_bit (TAG_PAYLOAD_RSHIFT L) (push_bit (TAG_PAYLOAD_LSHIFT L) v))"

definition getTaggedPointerSignedValue :: "tag_layout \<Rightarrow> u64 \<Rightarrow> ptr \<Rightarrow> u64" where
  "getTaggedPointerSignedValue L obf p =
     (let v = decodeTaggedPointer obf p
      in if basicTag L v = TAG_INDEX_MASK
         then signed_drop_bit (TAG_EXT_PAYLOAD_RSHIFT L) (push_bit (TAG_EXT_PAYLOAD_LSHIFT L) v)
         else signed_drop_bit (TAG_PAYLOAD_RSHIFT L) (push_bit (TAG_PAYLOAD_LSHIFT L) v))"

section \<open>Classes of tagged pointers (objc-object.h, objc-runtime-new.mm)\<close>

text \<open>The two class tables; \<open>0\<close> is \<open>nil\<close>.\<close>

record tag_tables =
  objc_tag_classes :: "ptr list"
  objc_tag_ext_classes :: "ptr list"

definition isExtTaggedPointer :: "tag_layout \<Rightarrow> u64 \<Rightarrow> ptr \<Rightarrow> bool" where
  "isExtTaggedPointer L obf p = ((decodeTaggedPointer obf p AND TAG_EXT_MASK L) = TAG_EXT_MASK L)"

definition isBasicTaggedPointer :: "tag_layout \<Rightarrow> u64 \<Rightarrow> ptr \<Rightarrow> bool" where
  "isBasicTaggedPointer L obf p = (objc_isTaggedPointer L p \<and> \<not> isExtTaggedPointer L obf p)"

text \<open>\<open>ISA\<close> of an ordinary object is a parameter; \<open>getIsa\<close> indexes with the pointer as it is, still encoded.\<close>

definition getIsa :: "tag_layout \<Rightarrow> u64 \<Rightarrow> tag_tables \<Rightarrow> (ptr \<Rightarrow> ptr) \<Rightarrow> ptr \<Rightarrow> ptr" where
  "getIsa L obf T ISA p =
     (if \<not> objc_isTaggedPointer L p then ISA p
      else if isExtTaggedPointer L obf p then
        objc_tag_ext_classes T ! unat (drop_bit (TAG_EXT_SLOT_SHIFT L) p AND TAG_EXT_SLOT_MASK)
      else
        objc_tag_classes T ! unat (drop_bit (TAG_SLOT_SHIFT L) p AND TAG_SLOT_MASK))"

datatype class_slot = BasicSlot nat | ExtSlot nat

definition classSlotForBasicTagIndex :: "bool \<Rightarrow> tag_layout \<Rightarrow> u64 \<Rightarrow> nat \<Rightarrow> class_slot" where
  "classSlotForBasicTagIndex msb L obf tag =
     (let tagObfuscator = drop_bit (TAG_INDEX_SHIFT L) obf AND TAG_INDEX_MASK;
          obfuscatedTag = of_nat tag XOR tagObfuscator
      in BasicSlot (if msb then unat (0x8 OR obfuscatedTag) else unat (push_bit 1 obfuscatedTag OR 1)))"

definition classSlotForTagIndex :: "bool \<Rightarrow> tag_layout \<Rightarrow> u64 \<Rightarrow> nat \<Rightarrow> class_slot option" where
  "classSlotForTagIndex msb L obf tag =
     (if tag \<ge> OBJC_TAG_First60BitPayload \<and> tag \<le> OBJC_TAG_Last60BitPayload
      then Some (classSlotForBasicTagIndex msb L obf tag)
      else if tag \<ge> OBJC_TAG_First52BitPayload \<and> tag \<le> OBJC_TAG_Last52BitPayload then
        let index = tag - OBJC_TAG_First52BitPayload;
            tagObfuscator = drop_bit (TAG_EXT_INDEX_SHIFT L) obf AND TAG_EXT_INDEX_MASK
        in Some (ExtSlot (unat (of_nat index XOR tagObfuscator)))
      else None)"

fun read_slot :: "tag_tables \<Rightarrow> class_slot \<Rightarrow> ptr" where
  "read_slot T (BasicSlot i) = objc_tag_classes T ! i"
| "read_slot T (ExtSlot i) = objc_tag_ext_classes T ! i"

fun write_slot :: "tag_tables \<Rightarrow> class_slot \<Rightarrow> ptr \<Rightarrow> tag_tables" where
  "write_slot T (BasicSlot i) c = T\<lparr>objc_tag_classes := (objc_tag_classes T)[i := c]\<rparr>"
| "write_slot T (ExtSlot i) c = T\<lparr>objc_tag_ext_classes := (objc_tag_ext_classes T)[i := c]\<rparr>"

definition initializeTaggedPointerObfuscator :: "tag_layout \<Rightarrow> bool \<Rightarrow> u64 \<Rightarrow> u64" where
  "initializeTaggedPointerObfuscator L disabled random = (if disabled then 0 else random AND NOT (TAG_MASK L))"

text \<open>
  \<open>tagged_mask\<close> is \<open>objc_debug_taggedpointer_mask\<close>; \<open>placeholder\<close> the class \<open>__NSUnrecognizedTaggedPointer\<close>.
\<close>

definition registerTaggedPointerClass ::
  "bool \<Rightarrow> tag_layout \<Rightarrow> u64 \<Rightarrow> u64 \<Rightarrow> ptr \<Rightarrow> tag_tables \<Rightarrow> nat \<Rightarrow> ptr \<Rightarrow> tag_tables option" where
  "registerTaggedPointerClass msb L obf tagged_mask placeholder T tag cls =
     (if tagged_mask = 0 then None
      else case classSlotForTagIndex msb L obf tag of
        None \<Rightarrow> None
      | Some slot \<Rightarrow>
          let oldCls = read_slot T slot
          in if cls \<noteq> 0 \<and> oldCls \<noteq> 0 \<and> cls \<noteq> oldCls then None
             else
               let T = write_slot T slot cls
               in if tag < OBJC_TAG_First60BitPayload \<or> tag > OBJC_TAG_Last60BitPayload then
                    let extSlot = classSlotForBasicTagIndex msb L obf OBJC_TAG_RESERVED_7
                    in if read_slot T extSlot = 0 then Some (write_slot T extSlot placeholder) else Some T
                  else Some T)"

definition getClassForTag :: "bool \<Rightarrow> tag_layout \<Rightarrow> u64 \<Rightarrow> tag_tables \<Rightarrow> nat \<Rightarrow> ptr" where
  "getClassForTag msb L obf T tag =
     (case classSlotForTagIndex msb L obf tag of Some slot \<Rightarrow> read_slot T slot | None \<Rightarrow> 0)"

section \<open>Round trips\<close>

lemma bit_of_nat_less: "n < 2 ^ k \<Longrightarrow> bit (of_nat n :: u64) i \<Longrightarrow> i < k"
proof (rule ccontr)
  assume n: "n < 2 ^ k" and b: "bit (of_nat n :: u64) i" and "\<not> i < k"
  then have "bit n i" by (simp add: bit_of_nat_iff)
  moreover have "take_bit k n = n" using n by (simp add: take_bit_nat_eq_self)
  ultimately show False using \<open>\<not> i < k\<close> by (metis bit_take_bit_iff)
qed

definition basic_word :: "tag_layout \<Rightarrow> u64 \<Rightarrow> u64 \<Rightarrow> u64" where
  "basic_word L t val = TAG_MASK L OR push_bit (TAG_INDEX_SHIFT L) t OR
     drop_bit (TAG_PAYLOAD_LSHIFT L) (push_bit (TAG_PAYLOAD_RSHIFT L) val)"

definition ext_word :: "tag_layout \<Rightarrow> u64 \<Rightarrow> u64 \<Rightarrow> u64" where
  "ext_word L t val = TAG_EXT_MASK L OR push_bit (TAG_EXT_INDEX_SHIFT L) t OR
     drop_bit (TAG_EXT_PAYLOAD_LSHIFT L) (push_bit (TAG_EXT_PAYLOAD_RSHIFT L) val)"

lemma layout_shifts:
  "TAG_INDEX_SHIFT (tag_layout_of msb) = (if msb then 60 else 1)"
  "TAG_SLOT_SHIFT (tag_layout_of msb) = (if msb then 60 else 0)"
  "TAG_PAYLOAD_LSHIFT (tag_layout_of msb) = (if msb then 4 else 0)"
  "TAG_PAYLOAD_RSHIFT (tag_layout_of msb) = 4"
  "TAG_EXT_INDEX_SHIFT (tag_layout_of msb) = (if msb then 52 else 4)"
  "TAG_EXT_SLOT_SHIFT (tag_layout_of msb) = (if msb then 52 else 4)"
  "TAG_EXT_PAYLOAD_LSHIFT (tag_layout_of msb) = (if msb then 12 else 0)"
  "TAG_EXT_PAYLOAD_RSHIFT (tag_layout_of msb) = 12"
  by (simp_all add: tag_layout_of_def)

lemma bit_mask_u64: "bit (mask k :: u64) i \<longleftrightarrow> i < 64 \<and> i < k"
  by (simp add: bit_mask_iff)

lemma layout_bits:
  "bit (TAG_MASK (tag_layout_of msb)) i \<longleftrightarrow> i = (if msb then 63 else 0)"
  "bit (TAG_EXT_MASK (tag_layout_of msb)) i \<longleftrightarrow> (if msb then 60 \<le> i \<and> i < 64 else i < 4)"
  "bit TAG_INDEX_MASK i \<longleftrightarrow> i < 3" "bit TAG_SLOT_MASK i \<longleftrightarrow> i < 4"
  "bit TAG_EXT_INDEX_MASK i \<longleftrightarrow> i < 8" "bit TAG_EXT_SLOT_MASK i \<longleftrightarrow> i < 8"
proof -
  have m: "(0xf :: u64) = mask 4" "(7 :: u64) = mask 3" "(0xff :: u64) = mask 8" by (simp_all add: mask_numeral)
  have tm: "TAG_MASK (tag_layout_of msb) = (if msb then push_bit 63 1 else 1)"
    "TAG_EXT_MASK (tag_layout_of msb) = (if msb then push_bit 60 (mask 4) else mask 4)"
    unfolding m[symmetric] by (cases msb; simp only: tag_layout_of_def tag_layout.simps if_True if_False)+
  show "bit (TAG_MASK (tag_layout_of msb)) i \<longleftrightarrow> i = (if msb then 63 else 0)"
    unfolding tm by (simp only: bit_push_bit_iff bit_1_iff split: if_split) auto
  show "bit (TAG_EXT_MASK (tag_layout_of msb)) i \<longleftrightarrow> (if msb then 60 \<le> i \<and> i < 64 else i < 4)"
    unfolding tm by (simp only: bit_push_bit_iff bit_mask_u64 split: if_split) auto
  show "bit TAG_INDEX_MASK i \<longleftrightarrow> i < 3" "bit TAG_SLOT_MASK i \<longleftrightarrow> i < 4"
    "bit TAG_EXT_INDEX_MASK i \<longleftrightarrow> i < 8" "bit TAG_EXT_SLOT_MASK i \<longleftrightarrow> i < 8"
    unfolding TAG_INDEX_MASK_def TAG_SLOT_MASK_def TAG_EXT_INDEX_MASK_def TAG_EXT_SLOT_MASK_def m
    by (auto simp: bit_mask_u64)
qed

lemmas tag_bits = layout_bits layout_shifts bit_and_iff bit_or_iff bit_xor_iff bit_drop_bit_eq bit_push_bit_iff
  bit_take_bit_iff bit_signed_drop_bit_iff bit_signed_take_bit_iff

lemma basic_word_fields:
  fixes msb :: bool
  assumes "\<And>i. bit t i \<Longrightarrow> i < 3"
  defines "L \<equiv> tag_layout_of msb"
  shows "basicTag L (basic_word L t val) = t"
    "drop_bit (TAG_PAYLOAD_RSHIFT L) (push_bit (TAG_PAYLOAD_LSHIFT L) (basic_word L t val)) = take_bit 60 val"
    "signed_drop_bit (TAG_PAYLOAD_RSHIFT L) (push_bit (TAG_PAYLOAD_LSHIFT L) (basic_word L t val)) = signed_take_bit 59 val"
  unfolding L_def basicTag_def basic_word_def
  subgoal by (rule bit_word_eqI) (auto simp: tag_bits dest: assms(1) split: if_splits)
  subgoal by (rule bit_word_eqI) (auto simp: tag_bits dest: assms(1) split: if_splits)
  subgoal
  proof (rule bit_word_eqI)
    fix n assume "n < LENGTH(64)"
    then show "bit (signed_drop_bit (TAG_PAYLOAD_RSHIFT (tag_layout_of msb)) (push_bit (TAG_PAYLOAD_LSHIFT (tag_layout_of msb))
        (TAG_MASK (tag_layout_of msb) OR push_bit (TAG_INDEX_SHIFT (tag_layout_of msb)) t OR
         drop_bit (TAG_PAYLOAD_LSHIFT (tag_layout_of msb)) (push_bit (TAG_PAYLOAD_RSHIFT (tag_layout_of msb)) val)))) n =
      bit (signed_take_bit 59 val) n"
      by (cases "n = 59") (auto simp: tag_bits min_def dest: assms(1) split: if_splits)
  qed
  done

lemma ext_word_fields:
  fixes msb :: bool
  assumes "\<And>i. bit t i \<Longrightarrow> i < 8"
  defines "L \<equiv> tag_layout_of msb"
  shows "basicTag L (ext_word L t val) = TAG_INDEX_MASK"
    "drop_bit (TAG_EXT_INDEX_SHIFT L) (ext_word L t val) AND TAG_EXT_INDEX_MASK = t"
    "drop_bit (TAG_EXT_PAYLOAD_RSHIFT L) (push_bit (TAG_EXT_PAYLOAD_LSHIFT L) (ext_word L t val)) = take_bit 52 val"
    "signed_drop_bit (TAG_EXT_PAYLOAD_RSHIFT L) (push_bit (TAG_EXT_PAYLOAD_LSHIFT L) (ext_word L t val)) =
      signed_take_bit 51 val"
  unfolding L_def basicTag_def ext_word_def
  subgoal by (rule bit_word_eqI) (auto simp: tag_bits dest: assms(1) split: if_splits)
  subgoal by (rule bit_word_eqI) (auto simp: tag_bits dest: assms(1) split: if_splits)
  subgoal by (rule bit_word_eqI) (auto simp: tag_bits dest: assms(1) split: if_splits)
  subgoal
  proof (rule bit_word_eqI)
    fix n assume "n < LENGTH(64)"
    then show "bit (signed_drop_bit (TAG_EXT_PAYLOAD_RSHIFT (tag_layout_of msb)) (push_bit (TAG_EXT_PAYLOAD_LSHIFT (tag_layout_of msb))
        (TAG_EXT_MASK (tag_layout_of msb) OR push_bit (TAG_EXT_INDEX_SHIFT (tag_layout_of msb)) t OR
         drop_bit (TAG_EXT_PAYLOAD_LSHIFT (tag_layout_of msb)) (push_bit (TAG_EXT_PAYLOAD_RSHIFT (tag_layout_of msb)) val)))) n =
      bit (signed_take_bit 51 val) n"
      by (cases "n = 51") (auto simp: tag_bits min_def dest: assms(1) split: if_splits)
  qed
  done

lemma make_decode:
  "decodeTaggedPointer obf (makeTaggedPointer L obf tag val) =
     (if tag \<le> 6 then basic_word L (of_nat tag) val else ext_word L (of_nat tag - 8) val)"
  by (simp add: makeTaggedPointer_def encodeTaggedPointer_def decodeTaggedPointer_def basic_word_def ext_word_def
      tag_consts xor.assoc xor.left_commute xor.commute)

definition valid_tag :: "nat \<Rightarrow> bool" where
  "valid_tag tag = (tag \<le> OBJC_TAG_Last60BitPayload \<or>
     OBJC_TAG_First52BitPayload \<le> tag \<and> tag \<le> OBJC_TAG_Last52BitPayload)"

definition payload_bits :: "nat \<Rightarrow> nat" where
  "payload_bits tag = (if tag \<le> OBJC_TAG_Last60BitPayload then 60 else 52)"

lemma small_tag_bits: "tag \<le> 6 \<Longrightarrow> bit (of_nat tag :: u64) i \<Longrightarrow> i < 3"
  using bit_of_nat_less[of tag 3 i] by simp

lemma ext_tag_bits: "8 \<le> tag \<Longrightarrow> tag \<le> 263 \<Longrightarrow> bit (of_nat tag - 8 :: u64) i \<Longrightarrow> i < 8"
  using bit_of_nat_less[of "tag - 8" 8 i] by (simp add: of_nat_diff)

lemma unat_ext_tag: "8 \<le> tag \<Longrightarrow> tag \<le> 263 \<Longrightarrow> unat (of_nat tag - 8 :: u64) = tag - 8"
  using unat_of_nat_small[of "tag - 8", where ?'a = 64] by (simp add: of_nat_diff)

lemma basic_tag_not_ext: "tag \<le> 6 \<Longrightarrow> (of_nat tag :: u64) \<noteq> TAG_INDEX_MASK"
proof
  assume t: "tag \<le> 6" "(of_nat tag :: u64) = TAG_INDEX_MASK"
  then have "unat (of_nat tag :: u64) = 7" by (simp add: TAG_INDEX_MASK_def)
  moreover have "unat (of_nat tag :: u64) = tag" using t(1) by (intro unat_of_nat_small) simp
  ultimately show False using t(1) by simp
qed

text \<open>
  C26: a tagged pointer gives back the tag it was made with, and its payload truncated to 60 bits
  (52 bits for extended tags), zero-extended or sign-extended, for every obfuscator.
\<close>

theorem TaggedPointer_roundtrip:
  assumes "valid_tag tag"
  shows "getTaggedPointerTag (tag_layout_of msb) obf (makeTaggedPointer (tag_layout_of msb) obf tag val) = tag \<and>
    getTaggedPointerValue (tag_layout_of msb) obf (makeTaggedPointer (tag_layout_of msb) obf tag val) = take_bit (payload_bits tag) val \<and>
    getTaggedPointerSignedValue (tag_layout_of msb) obf (makeTaggedPointer (tag_layout_of msb) obf tag val) =
      signed_take_bit (payload_bits tag - 1) val"
proof (cases "tag \<le> 6")
  case True
  have "unat (of_nat tag :: u64) = tag" using True by (intro unat_of_nat_small) simp
  then show ?thesis
    using True basic_tag_not_ext[OF True] basic_word_fields[OF small_tag_bits[OF True], where msb = msb and val = val]
    by (simp add: getTaggedPointerTag_def getTaggedPointerValue_def getTaggedPointerSignedValue_def
        make_decode payload_bits_def OBJC_TAG_Last60BitPayload_def)
next
  case False
  then have tag: "8 \<le> tag" "tag \<le> 263" using assms(1) by (simp_all add: valid_tag_def tag_consts)
  show ?thesis
    using False tag(1) unat_ext_tag[OF tag] ext_word_fields[OF ext_tag_bits[OF tag], where msb = msb and val = val]
    by (simp add: getTaggedPointerTag_def getTaggedPointerValue_def getTaggedPointerSignedValue_def
        make_decode payload_bits_def OBJC_TAG_Last60BitPayload_def OBJC_TAG_First52BitPayload_def)
qed

theorem TaggedPointer_roundtrip_witness:
  "getTaggedPointerTag (tag_layout_of True) 0x123456 (makeTaggedPointer (tag_layout_of True) 0x123456 9 77) = 9 \<and>
   getTaggedPointerValue (tag_layout_of True) 0x123456 (makeTaggedPointer (tag_layout_of True) 0x123456 9 77) = 77"
  using TaggedPointer_roundtrip[of 9 True "0x123456" 77] by (simp add: valid_tag_def payload_bits_def tag_consts)

section \<open>Class lookup\<close>

text \<open>What the runtime guarantees of the obfuscator: the tag bit is clear.\<close>

definition obfuscator_ok :: "tag_layout \<Rightarrow> u64 \<Rightarrow> bool" where
  "obfuscator_ok L obf = ((obf AND TAG_MASK L) = 0)"

lemma initializeTaggedPointerObfuscator_ok: "obfuscator_ok L (initializeTaggedPointerObfuscator L disabled random)"
  by (simp add: obfuscator_ok_def initializeTaggedPointerObfuscator_def and.assoc)

lemma obfuscator_tag_bit: "obfuscator_ok (tag_layout_of msb) obf \<Longrightarrow> \<not> bit obf (if msb then 63 else 0)"
proof
  assume "obfuscator_ok (tag_layout_of msb) obf" "bit obf (if msb then 63 else 0)"
  then have "bit (obf AND TAG_MASK (tag_layout_of msb)) (if msb then 63 else 0)"
    by (simp add: bit_and_iff layout_bits)
  then show False using \<open>obfuscator_ok (tag_layout_of msb) obf\<close> by (simp add: obfuscator_ok_def)
qed

lemma encode_bits: "makeTaggedPointer L obf tag val =
    obf XOR (if tag \<le> 6 then basic_word L (of_nat tag) val else ext_word L (of_nat tag - 8) val)"
  by (simp add: makeTaggedPointer_def encodeTaggedPointer_def basic_word_def ext_word_def tag_consts)

lemma make_isTagged:
  assumes "obfuscator_ok (tag_layout_of msb) obf"
  shows "objc_isTaggedPointer (tag_layout_of msb) (makeTaggedPointer (tag_layout_of msb) obf tag val)"
proof -
  note o = obfuscator_tag_bit[OF assms]
  show ?thesis unfolding objc_isTaggedPointer_def encode_bits basic_word_def ext_word_def
    by (rule bit_word_eqI) (use o in \<open>auto simp: tag_bits split: if_splits\<close>)
qed

lemma basic_not_ext:
  assumes "tag \<le> 6"
  shows "\<not> isExtTaggedPointer (tag_layout_of msb) obf (makeTaggedPointer (tag_layout_of msb) obf tag val)"
proof
  let ?L = "tag_layout_of msb" and ?w = "basic_word (tag_layout_of msb) (of_nat tag) val"
  assume "isExtTaggedPointer ?L obf (makeTaggedPointer ?L obf tag val)"
  then have "?w AND TAG_EXT_MASK ?L = TAG_EXT_MASK ?L" using assms by (simp add: isExtTaggedPointer_def make_decode)
  then have e: "bit ?w i" if "bit (TAG_EXT_MASK ?L) i" for i using that by (metis bit_and_iff)
  have "basicTag ?L ?w = TAG_INDEX_MASK"
    by (rule bit_word_eqI) (use e in \<open>auto simp: basicTag_def tag_bits split: if_splits\<close>)
  then show False
    using basic_word_fields(1)[OF small_tag_bits[OF assms], where msb = msb and val = val] basic_tag_not_ext[OF assms]
    by simp
qed

lemma ext_isExt:
  assumes "\<not> tag \<le> 6"
  shows "isExtTaggedPointer (tag_layout_of msb) obf (makeTaggedPointer (tag_layout_of msb) obf tag val)"
proof -
  have "(ext_word (tag_layout_of msb) (of_nat tag - 8) val AND TAG_EXT_MASK (tag_layout_of msb)) =
      TAG_EXT_MASK (tag_layout_of msb)"
    by (rule bit_word_eqI) (auto simp: ext_word_def bit_and_iff bit_or_iff)
  then show ?thesis using assms by (simp add: isExtTaggedPointer_def make_decode)
qed

lemma bit_8_u64: "bit (8 :: u64) n \<longleftrightarrow> n = 3" "bit (8 :: int) n \<longleftrightarrow> n = 3"
proof -
  have "(8 :: u64) = push_bit 3 1" "(8 :: int) = push_bit 3 1" by simp_all
  then show "bit (8 :: u64) n \<longleftrightarrow> n = 3" "bit (8 :: int) n \<longleftrightarrow> n = 3"
    by (simp_all only: bit_push_bit_iff bit_1_iff) auto
qed

lemma bit_shift_or_1: "bit (push_bit 1 x OR 1 :: u64) n \<longleftrightarrow> n < 64 \<and> (n = 0 \<or> 0 < n \<and> bit x (n - 1))"
  by (simp only: bit_or_iff bit_push_bit_iff bit_1_iff) (auto dest: bit_imp_le_length simp: bit_word.rep_eq)

lemma basic_slot_index:
  fixes msb :: bool and obf val :: u64
  assumes tag: "tag \<le> 6" and o: "\<not> bit obf (if msb then 63 else 0)"
  defines "L \<equiv> tag_layout_of msb"
  defines "x \<equiv> of_nat tag XOR (drop_bit (TAG_INDEX_SHIFT L) obf AND TAG_INDEX_MASK)"
  shows "drop_bit (TAG_SLOT_SHIFT L) (makeTaggedPointer L obf tag val) AND TAG_SLOT_MASK =
    (if msb then 8 OR x else push_bit 1 x OR 1)"
proof -
  have x: "bit x i \<longleftrightarrow> i < 3 \<and> (bit (of_nat tag :: u64) i \<noteq> bit obf ((if msb then 60 else 1) + i))" for i
    using small_tag_bits[OF tag, of i] by (auto simp: x_def L_def tag_bits)
  define S where "S = (if msb then 8 OR x else push_bit 1 x OR 1)"
  have S: "bit S n \<longleftrightarrow> n < 64 \<and> (if msb then n = 3 \<or> bit x n else n = 0 \<or> 0 < n \<and> bit x (n - 1))" for n
    unfolding S_def using bit_shift_or_1[of x n] x[of n]
    by (cases msb) (auto simp only: bit_or_iff bit_8_u64 if_True if_False refl simp_thms)
  have "drop_bit (TAG_SLOT_SHIFT L) (makeTaggedPointer L obf tag val) AND TAG_SLOT_MASK = S"
    unfolding encode_bits basic_word_def L_def
    by (rule bit_word_eqI) (use tag o in \<open>auto simp: tag_bits S x dest: small_tag_bits split: if_splits\<close>)
  then show ?thesis unfolding S_def .
qed

lemma ext_slot_index:
  fixes msb :: bool and obf val :: u64
  assumes tag: "8 \<le> tag" "tag \<le> 263"
  defines "L \<equiv> tag_layout_of msb"
  shows "drop_bit (TAG_EXT_SLOT_SHIFT L) (makeTaggedPointer L obf tag val) AND TAG_EXT_SLOT_MASK =
    of_nat tag - 8 XOR (drop_bit (TAG_EXT_INDEX_SHIFT L) obf AND TAG_EXT_INDEX_MASK)"
proof -
  define e where "e = (of_nat tag - 8 :: u64)"
  have e: "i < 8" if "bit e i" for i using ext_tag_bits[OF tag] that by (simp add: e_def)
  show ?thesis unfolding encode_bits ext_word_def L_def e_def[symmetric]
    by (rule bit_word_eqI) (use tag in \<open>auto simp: tag_bits dest: e split: if_splits\<close>)
qed

lemma getIsa_slot:
  assumes "valid_tag tag" "obfuscator_ok (tag_layout_of msb) obf"
  shows "\<exists>slot. classSlotForTagIndex msb (tag_layout_of msb) obf tag = Some slot \<and>
    getIsa (tag_layout_of msb) obf T ISA (makeTaggedPointer (tag_layout_of msb) obf tag val) = read_slot T slot"
proof (cases "tag \<le> 6")
  case True
  show ?thesis
    using True basic_not_ext[OF True] make_isTagged[OF assms(2)] basic_slot_index[OF True obfuscator_tag_bit[OF assms(2)]]
    by (simp add: getIsa_def classSlotForTagIndex_def classSlotForBasicTagIndex_def tag_consts(5-9) Let_def)
next
  case False
  then have tag: "8 \<le> tag" "tag \<le> 263" using assms(1) by (simp_all add: valid_tag_def tag_consts)
  then show ?thesis
    using False ext_isExt[OF False] make_isTagged[OF assms(2)] ext_slot_index[OF tag]
    by (simp add: getIsa_def classSlotForTagIndex_def tag_consts(5-9) Let_def)
qed

text \<open>Slots of valid tags lie in the tables, and a slot other than the written one keeps its class.\<close>

definition tables_ok :: "tag_tables \<Rightarrow> bool" where
  "tables_ok T = (length (objc_tag_classes T) = 32 \<and> length (objc_tag_ext_classes T) = 256)"

fun slot_in_range :: "class_slot \<Rightarrow> bool" where
  "slot_in_range (BasicSlot i) = (i < 16)"
| "slot_in_range (ExtSlot i) = (i < 256)"

lemma unat_bits_less:
  assumes "\<And>i. bit (x :: u64) i \<Longrightarrow> i < k" "k < 64"
  shows "unat x < 2 ^ k"
proof -
  have "take_bit k x = x" by (rule bit_word_eqI) (auto simp: bit_take_bit_iff dest: assms(1))
  then have "take_bit k (unat x) = unat x" by (metis unsigned_take_bit_eq)
  then show ?thesis by (simp add: take_bit_nat_eq_self_iff)
qed

lemma basic_slot_in_range:
  assumes "tag \<le> 7"
  shows "slot_in_range (classSlotForBasicTagIndex msb L obf tag)"
proof -
  define x where "x = (of_nat tag :: u64) XOR (drop_bit (TAG_INDEX_SHIFT L) obf AND TAG_INDEX_MASK)"
  have x: "i < 3" if "bit x i" for i
    using that bit_of_nat_less[of tag 3 i] assms by (auto simp: x_def bit_xor_iff bit_and_iff layout_bits)
  have "unat (8 OR x) < 2 ^ 4"
    by (rule unat_bits_less) (auto simp: bit_or_iff bit_8_u64 dest: x)
  moreover have "unat (push_bit 1 x OR 1) < 2 ^ 4"
    using bit_shift_or_1[of x] x by (intro unat_bits_less) force+
  ultimately show ?thesis by (simp add: classSlotForBasicTagIndex_def Let_def x_def)
qed

lemma slot_in_range:
  assumes "classSlotForTagIndex msb L obf tag = Some slot"
  shows "slot_in_range slot"
proof (cases "tag \<le> 6")
  case True
  then show ?thesis using assms basic_slot_in_range[of tag msb L obf]
    by (simp add: classSlotForTagIndex_def tag_consts(5-9))
next
  case False
  then have tag: "8 \<le> tag" "tag \<le> 263" and slot: "slot = ExtSlot (unat (of_nat tag - 8 XOR
      (drop_bit (TAG_EXT_INDEX_SHIFT L) obf AND TAG_EXT_INDEX_MASK)))"
    using assms by (auto simp: classSlotForTagIndex_def tag_consts(5-9) Let_def split: if_splits)
  have "unat (of_nat tag - 8 XOR (drop_bit (TAG_EXT_INDEX_SHIFT L) obf AND TAG_EXT_INDEX_MASK)) < 2 ^ 8"
    by (rule unat_bits_less) (auto simp: bit_xor_iff bit_and_iff layout_bits dest: ext_tag_bits[OF tag])
  then show ?thesis by (simp add: slot)
qed

lemma read_write_slot:
  assumes "tables_ok T" "slot_in_range s"
  shows "read_slot (write_slot T s c) s' = (if s' = s then c else read_slot T s')"
  using assms by (cases s; cases s') (auto simp: tables_ok_def nth_list_update)

lemma write_slot_ok: "tables_ok T \<Longrightarrow> tables_ok (write_slot T s c)"
  by (cases s) (simp_all add: tables_ok_def)

text \<open>Different valid tags, and the slot reserved for extended tags, never share a slot.\<close>

lemma basic_slot_inj:
  assumes "tag \<le> 7" "tag' \<le> 7" "classSlotForBasicTagIndex msb L obf tag = classSlotForBasicTagIndex msb L obf tag'"
  shows "tag = tag'"
proof -
  define ob where "ob = drop_bit (TAG_INDEX_SHIFT L) obf AND TAG_INDEX_MASK"
  have "i < 3" if "bit ob i" for i using that by (simp add: ob_def bit_and_iff layout_bits)
  have tb: "i < 3" if "bit (of_nat tag :: u64) i" for i using bit_of_nat_less[of tag 3 i] assms(1) that by simp
  have tb': "i < 3" if "bit (of_nat tag' :: u64) i" for i using bit_of_nat_less[of tag' 3 i] assms(2) that by simp
  have "bit (of_nat tag :: u64) i = bit (of_nat tag' :: u64) i" for i
  proof (cases "i < 3")
    case True
    show ?thesis
    proof (cases msb)
      case msb: True
      then have "8 OR (of_nat tag XOR ob) = 8 OR (of_nat tag' XOR ob)"
        using assms(3) by (simp add: classSlotForBasicTagIndex_def Let_def ob_def word_unat_eq_iff)
      then have "bit (8 OR (of_nat tag XOR ob)) i = bit (8 OR (of_nat tag' XOR ob)) i" by simp
      then show ?thesis using True by (auto simp: bit_or_iff bit_xor_iff bit_8_u64)
    next
      case msb: False
      then have "push_bit 1 (of_nat tag XOR ob) OR 1 = push_bit 1 (of_nat tag' XOR ob) OR 1"
        using assms(3) unfolding classSlotForBasicTagIndex_def Let_def ob_def[symmetric] word_unat_eq_iff
        by (simp only: if_False class_slot.inject)
      then have "bit (push_bit 1 (of_nat tag XOR ob) OR 1) (Suc i) = bit (push_bit 1 (of_nat tag' XOR ob) OR 1) (Suc i)"
        by simp
      then show ?thesis unfolding bit_shift_or_1 using True by (auto simp: bit_xor_iff)
    qed
  next
    case False
    then show ?thesis using tb[of i] tb'[of i] by blast
  qed
  then have "(of_nat tag :: u64) = of_nat tag'" by (intro bit_word_eqI) simp
  moreover have "unat (of_nat tag :: u64) = tag" "unat (of_nat tag' :: u64) = tag'"
    using assms(1,2) by (auto intro!: unat_of_nat_small)
  ultimately show ?thesis by metis
qed

lemma slot_inj:
  assumes "classSlotForTagIndex msb L obf tag = Some s" "classSlotForTagIndex msb L obf tag' = Some s"
  shows "tag = tag'"
proof (cases "tag \<le> 6")
  case True
  then have "tag' \<le> 6" using assms
    by (auto simp: classSlotForTagIndex_def classSlotForBasicTagIndex_def tag_consts(5-9) Let_def split: if_splits)
  then show ?thesis using True assms basic_slot_inj[of tag tag' msb L obf]
    by (simp add: classSlotForTagIndex_def tag_consts(5-9))
next
  case False
  define ob where "ob = drop_bit (TAG_EXT_INDEX_SHIFT L) obf AND TAG_EXT_INDEX_MASK"
  have tags: "8 \<le> tag" "tag \<le> 263" "8 \<le> tag'" "tag' \<le> 263"
    and x: "(of_nat tag - 8 XOR ob) = (of_nat tag' - 8 XOR ob)"
    using False assms
    by (auto simp: classSlotForTagIndex_def classSlotForBasicTagIndex_def tag_consts(5-9) Let_def ob_def word_unat_eq_iff split: if_splits)
  have "(of_nat tag - 8 :: u64) = (of_nat tag - 8 XOR ob) XOR ob" by (simp only: xor.assoc xor_self_eq xor.right_neutral)
  also have "\<dots> = of_nat tag' - 8" unfolding x by (simp only: xor.assoc xor_self_eq xor.right_neutral)
  finally have "(of_nat tag - 8 :: u64) = of_nat tag' - 8" .
  moreover note unat_ext_tag[OF tags(1,2)] unat_ext_tag[OF tags(3,4)]
  ultimately show ?thesis using tags by (metis eq_diff_iff)
qed

text \<open>What a registration leaves in each slot of a valid tag.\<close>

lemma register_slots:
  assumes "tables_ok T" "registerTaggedPointerClass msb L obf tagged_mask placeholder T tag cls = Some T'"
  shows "\<exists>slot. classSlotForTagIndex msb L obf tag = Some slot \<and> tables_ok T' \<and>
    (\<forall>tag' slot'. classSlotForTagIndex msb L obf tag' = Some slot' \<longrightarrow>
       read_slot T' slot' = (if tag' = tag then cls else read_slot T slot'))"
proof -
  obtain slot where slot: "classSlotForTagIndex msb L obf tag = Some slot"
    using assms(2) by (auto simp: registerTaggedPointerClass_def split: option.splits if_splits)
  let ?T1 = "write_slot T slot cls" and ?e = "classSlotForBasicTagIndex msb L obf OBJC_TAG_RESERVED_7"
  have T': "T' = ?T1 \<or> T' = write_slot ?T1 ?e placeholder"
    using assms(2) slot by (auto simp: registerTaggedPointerClass_def Let_def split: if_splits)
  have e: "slot_in_range ?e" by (rule basic_slot_in_range) (simp add: OBJC_TAG_RESERVED_7_def)
  have ne: "slot' \<noteq> ?e" if s': "classSlotForTagIndex msb L obf tag' = Some slot'" for tag' slot'
  proof (cases "tag' \<le> 6")
    case True
    then show ?thesis using s' basic_slot_inj[of tag' 7 msb L obf]
      by (auto simp: classSlotForTagIndex_def tag_consts(5-9))
  next
    case False
    then show ?thesis using s'
      by (auto simp: classSlotForTagIndex_def classSlotForBasicTagIndex_def tag_consts(5-9) Let_def split: if_splits)
  qed
  have "read_slot T' slot' = (if tag' = tag then cls else read_slot T slot')"
    if s': "classSlotForTagIndex msb L obf tag' = Some slot'" for tag' slot'
    using T' ne[OF s'] slot s' slot_inj[OF s', of tag]
    by (auto simp: read_write_slot[OF write_slot_ok[OF assms(1)] e] read_write_slot[OF assms(1) slot_in_range[OF slot]])
  then show ?thesis using slot T' by (auto simp: write_slot_ok assms(1))
qed

text \<open>
  C15: after a class has been registered for a tag, every tagged pointer made with that tag is recognised
  as tagged and has that class as its \<open>isa\<close>; the class the runtime reports for the tag is the same one,
  and every other tag keeps its class. This holds for both layouts and for every obfuscator the runtime picks.
\<close>

theorem TaggedPointer_class_registered:
  assumes "tables_ok T" "obf = initializeTaggedPointerObfuscator (tag_layout_of msb) disabled random"
    "registerTaggedPointerClass msb (tag_layout_of msb) obf tagged_mask placeholder T tag cls = Some T'"
  shows "objc_isTaggedPointer (tag_layout_of msb) (makeTaggedPointer (tag_layout_of msb) obf tag val) \<and>
    getIsa (tag_layout_of msb) obf T' ISA (makeTaggedPointer (tag_layout_of msb) obf tag val) = cls \<and>
    getClassForTag msb (tag_layout_of msb) obf T' tag = cls \<and>
    (\<forall>tag'. tag' \<noteq> tag \<longrightarrow>
       getClassForTag msb (tag_layout_of msb) obf T' tag' = getClassForTag msb (tag_layout_of msb) obf T tag')"
proof -
  have ok: "obfuscator_ok (tag_layout_of msb) obf" unfolding assms(2) by (rule initializeTaggedPointerObfuscator_ok)
  obtain slot where slot: "classSlotForTagIndex msb (tag_layout_of msb) obf tag = Some slot"
    and r: "\<And>tag' slot'. classSlotForTagIndex msb (tag_layout_of msb) obf tag' = Some slot' \<Longrightarrow>
       read_slot T' slot' = (if tag' = tag then cls else read_slot T slot')"
    using register_slots[OF assms(1,3)] by blast
  have "valid_tag tag" using slot by (auto simp: classSlotForTagIndex_def valid_tag_def split: if_splits)
  then have "getIsa (tag_layout_of msb) obf T' ISA (makeTaggedPointer (tag_layout_of msb) obf tag val) = cls"
    using getIsa_slot[OF _ ok, of tag T' ISA val] slot r by auto
  then show ?thesis using make_isTagged[OF ok] slot r by (auto simp: getClassForTag_def split: option.splits)
qed

theorem TaggedPointer_class_registered_witness:
  "\<exists>T'. registerTaggedPointerClass False (tag_layout_of False) (initializeTaggedPointerObfuscator (tag_layout_of False) False 0xabcd)
      1 99 \<lparr>objc_tag_classes = replicate 32 0, objc_tag_ext_classes = replicate 256 0\<rparr> 3 42 = Some T' \<and>
    getIsa (tag_layout_of False) (initializeTaggedPointerObfuscator (tag_layout_of False) False 0xabcd) T' id
      (makeTaggedPointer (tag_layout_of False) (initializeTaggedPointerObfuscator (tag_layout_of False) False 0xabcd) 3 5) = 42"
proof -
  let ?L = "tag_layout_of False" and ?T = "\<lparr>objc_tag_classes = replicate 32 0, objc_tag_ext_classes = replicate 256 0\<rparr>"
  let ?o = "initializeTaggedPointerObfuscator ?L False 0xabcd"
  have ok: "tables_ok ?T" by (simp add: tables_ok_def)
  have s: "classSlotForTagIndex False ?L ?o 3 = Some (classSlotForBasicTagIndex False ?L ?o 3)"
    by (simp add: classSlotForTagIndex_def tag_consts(5-9))
  have "read_slot ?T (classSlotForBasicTagIndex False ?L ?o 3) = 0"
    using basic_slot_in_range[of 3 False ?L ?o] by (cases "classSlotForBasicTagIndex False ?L ?o 3") simp_all
  then have "\<exists>T'. registerTaggedPointerClass False ?L ?o 1 99 ?T 3 42 = Some T'"
    by (simp add: registerTaggedPointerClass_def s Let_def tag_consts(5-9))
  then show ?thesis using TaggedPointer_class_registered[OF ok refl] by blast
qed



end
