(* ===== verification/ObjC_Isa.thy ===== *)
theory ObjC_Isa
  imports Prelude
begin

text \<open>
  The packed \<open>isa\<close> word (runtime/isa.h, the union \<open>isa_t\<close> of runtime/objc-private.h, and the isa operations of
  runtime/objc-object.h that touch one word only). The bit-field layout of both 64-bit architectures is modelled; the
  word is a \<^typ>\<open>u64\<close> and every field is read and written by its position, least significant field first. Carrying
  addition and subtraction are those of runtime/objc-os.h. The indexed layout of 32-bit watches is not modelled.
\<close>

section \<open>Layout (isa.h)\<close>

datatype arch = ARM64 | X86_64

fun ISA_MASK :: "arch \<Rightarrow> u64" where
  "ISA_MASK ARM64 = 0x0000000ffffffff8"
| "ISA_MASK X86_64 = 0x00007ffffffffff8"

fun ISA_MAGIC_MASK :: "arch \<Rightarrow> u64" where
  "ISA_MAGIC_MASK ARM64 = 0x000003f000000001"
| "ISA_MAGIC_MASK X86_64 = 0x001f800000000001"

fun ISA_MAGIC_VALUE :: "arch \<Rightarrow> u64" where
  "ISA_MAGIC_VALUE ARM64 = 0x000001a000000001"
| "ISA_MAGIC_VALUE X86_64 = 0x001d800000000001"

fun shiftcls_width :: "arch \<Rightarrow> nat" where
  "shiftcls_width ARM64 = 33"
| "shiftcls_width X86_64 = 44"

fun extra_rc_width :: "arch \<Rightarrow> nat" where
  "extra_rc_width ARM64 = 19"
| "extra_rc_width X86_64 = 8"

text \<open>Positions of the fields of \<open>ISA_BITFIELD\<close>, in declaration order.\<close>

datatype isa_field = F_nonpointer | F_has_assoc | F_has_cxx_dtor | F_shiftcls | F_magic | F_weakly_referenced
  | F_deallocating | F_has_sidetable_rc | F_extra_rc

fun width_of :: "arch \<Rightarrow> isa_field \<Rightarrow> nat" where
  "width_of A F_nonpointer = 1"
| "width_of A F_has_assoc = 1"
| "width_of A F_has_cxx_dtor = 1"
| "width_of A F_shiftcls = shiftcls_width A"
| "width_of A F_magic = 6"
| "width_of A F_weakly_referenced = 1"
| "width_of A F_deallocating = 1"
| "width_of A F_has_sidetable_rc = 1"
| "width_of A F_extra_rc = extra_rc_width A"

fun position_of :: "arch \<Rightarrow> isa_field \<Rightarrow> nat" where
  "position_of A F_nonpointer = 0"
| "position_of A F_has_assoc = 1"
| "position_of A F_has_cxx_dtor = 2"
| "position_of A F_shiftcls = 3"
| "position_of A F_magic = 3 + shiftcls_width A"
| "position_of A F_weakly_referenced = 9 + shiftcls_width A"
| "position_of A F_deallocating = 10 + shiftcls_width A"
| "position_of A F_has_sidetable_rc = 11 + shiftcls_width A"
| "position_of A F_extra_rc = 12 + shiftcls_width A"

definition RC_ONE :: "arch \<Rightarrow> u64" where
  "RC_ONE A = (case A of ARM64 \<Rightarrow> push_bit 45 1 | X86_64 \<Rightarrow> push_bit 56 1)"

definition RC_HALF :: "arch \<Rightarrow> u64" where
  "RC_HALF A = (case A of ARM64 \<Rightarrow> push_bit 18 1 | X86_64 \<Rightarrow> push_bit 7 1)"

text \<open>Reading and writing a bit-field.\<close>

definition get_field :: "arch \<Rightarrow> isa_field \<Rightarrow> u64 \<Rightarrow> u64" where
  "get_field A f w = take_bit (width_of A f) (drop_bit (position_of A f) w)"

definition set_field :: "arch \<Rightarrow> isa_field \<Rightarrow> u64 \<Rightarrow> u64 \<Rightarrow> u64" where
  "set_field A f v w = (w AND NOT (push_bit (position_of A f) (mask (width_of A f)))) OR
     push_bit (position_of A f) (take_bit (width_of A f) v)"

definition get_flag :: "arch \<Rightarrow> isa_field \<Rightarrow> u64 \<Rightarrow> bool" where
  "get_flag A f w = (get_field A f w \<noteq> 0)"

definition set_flag :: "arch \<Rightarrow> isa_field \<Rightarrow> bool \<Rightarrow> u64 \<Rightarrow> u64" where
  "set_flag A f b w = set_field A f (if b then 1 else 0) w"

abbreviation nonpointer :: "arch \<Rightarrow> u64 \<Rightarrow> bool" where "nonpointer A \<equiv> get_flag A F_nonpointer"
abbreviation deallocating :: "arch \<Rightarrow> u64 \<Rightarrow> bool" where "deallocating A \<equiv> get_flag A F_deallocating"
abbreviation weakly_referenced :: "arch \<Rightarrow> u64 \<Rightarrow> bool" where "weakly_referenced A \<equiv> get_flag A F_weakly_referenced"
abbreviation has_sidetable_rc :: "arch \<Rightarrow> u64 \<Rightarrow> bool" where "has_sidetable_rc A \<equiv> get_flag A F_has_sidetable_rc"
abbreviation has_assoc :: "arch \<Rightarrow> u64 \<Rightarrow> bool" where "has_assoc A \<equiv> get_flag A F_has_assoc"
abbreviation has_cxx_dtor :: "arch \<Rightarrow> u64 \<Rightarrow> bool" where "has_cxx_dtor A \<equiv> get_flag A F_has_cxx_dtor"
abbreviation extra_rc :: "arch \<Rightarrow> u64 \<Rightarrow> u64" where "extra_rc A \<equiv> get_field A F_extra_rc"

section \<open>Carrying arithmetic (objc-os.h)\<close>

text \<open>The builtins the two functions call: the wrapped result and the carry out.\<close>

definition addc :: "u64 \<Rightarrow> u64 \<Rightarrow> u64 \<Rightarrow> u64 \<times> bool" where
  "addc lhs rhs carryin = (lhs + rhs + carryin, 2 ^ 64 \<le> unat lhs + unat rhs + unat carryin)"

definition subc :: "u64 \<Rightarrow> u64 \<Rightarrow> u64 \<Rightarrow> u64 \<times> bool" where
  "subc lhs rhs carryin = (lhs - rhs - carryin, unat lhs < unat rhs + unat carryin)"

section \<open>Operations on one word (objc-object.h)\<close>

text \<open>What the operations ask of a class.\<close>

record class_info =
  isFuture :: bool
  canAllocNonpointer :: bool
  cls_hasCxxDtor :: bool
  instancesRequireRawIsa :: bool

definition ISA :: "arch \<Rightarrow> u64 \<Rightarrow> ptr" where
  "ISA A isa = isa AND ISA_MASK A"

definition initIsa :: "arch \<Rightarrow> ptr \<Rightarrow> bool \<Rightarrow> bool \<Rightarrow> u64" where
  "initIsa A cls np hasCxxDtor =
     (if \<not> np then cls
      else set_field A F_shiftcls (drop_bit 3 cls) (set_flag A F_has_cxx_dtor hasCxxDtor (ISA_MAGIC_VALUE A)))"

definition initClassIsa :: "arch \<Rightarrow> bool \<Rightarrow> (ptr \<Rightarrow> class_info) \<Rightarrow> ptr \<Rightarrow> u64" where
  "initClassIsa A DisableNonpointerIsa info cls =
     (if DisableNonpointerIsa \<or> instancesRequireRawIsa (info cls) then initIsa A cls False False
      else initIsa A cls True False)"

definition initInstanceIsa :: "arch \<Rightarrow> (ptr \<Rightarrow> class_info) \<Rightarrow> ptr \<Rightarrow> bool \<Rightarrow> u64 option" where
  "initInstanceIsa A info cls hasCxxDtor =
     (if instancesRequireRawIsa (info cls) \<or> hasCxxDtor \<noteq> cls_hasCxxDtor (info cls) then None
      else Some (initIsa A cls True hasCxxDtor))"

text \<open>
  The word \<open>changeIsa\<close> stores in place of \<open>oldisa\<close>, with the flag \<open>transcribeToSideTable\<close>, and the class it returns.
\<close>

definition changeIsa_word :: "arch \<Rightarrow> (ptr \<Rightarrow> class_info) \<Rightarrow> ptr \<Rightarrow> u64 \<Rightarrow> u64 \<times> bool" where
  "changeIsa_word A info newCls oldisa =
     (if (oldisa = 0 \<or> nonpointer A oldisa) \<and> \<not> isFuture (info newCls) \<and> canAllocNonpointer (info newCls) then
        let newisa = (if oldisa = 0 then ISA_MAGIC_VALUE A else oldisa);
            newisa = set_flag A F_has_cxx_dtor (cls_hasCxxDtor (info newCls)) newisa
        in (set_field A F_shiftcls (drop_bit 3 newCls) newisa, False)
      else if nonpointer A oldisa then (newCls, True)
      else (newCls, False))"

definition changeIsa_result :: "arch \<Rightarrow> u64 \<Rightarrow> ptr" where
  "changeIsa_result A oldisa =
     (if nonpointer A oldisa then push_bit 3 (get_field A F_shiftcls oldisa) else oldisa)"

definition hasAssociatedObjects :: "arch \<Rightarrow> bool \<Rightarrow> u64 \<Rightarrow> bool" where
  "hasAssociatedObjects A tagged isa =
     (if tagged then True else if nonpointer A isa then has_assoc A isa else True)"

definition hasCxxDtor :: "arch \<Rightarrow> (ptr \<Rightarrow> class_info) \<Rightarrow> u64 \<Rightarrow> bool" where
  "hasCxxDtor A info isa = (if nonpointer A isa then has_cxx_dtor A isa else cls_hasCxxDtor (info isa))"

section \<open>Fields are independent\<close>

lemma width_pos [simp]: "0 < width_of A f"
  by (cases f; cases A) simp_all

lemma position_bound: "position_of A f + width_of A f \<le> 64"
  by (cases f; cases A) simp_all

lemma fields_disjoint:
  "f \<noteq> g \<Longrightarrow> position_of A f + width_of A f \<le> position_of A g \<or> position_of A g + width_of A g \<le> position_of A f"
  by (cases f; cases g; cases A) simp_all

lemma bit_set_field:
  "bit (set_field A f v w) i =
     (if position_of A f \<le> i \<and> i < position_of A f + width_of A f then bit v (i - position_of A f) else bit w i)"
  using position_bound[of A f]
  by (auto simp: set_field_def bit_and_iff bit_or_iff bit_not_iff bit_push_bit_iff bit_mask_iff bit_take_bit_iff
      dest: bit_imp_le_length)

lemma bit_get_field: "bit (get_field A f w) i = (i < width_of A f \<and> bit w (position_of A f + i))"
  by (simp add: get_field_def bit_take_bit_iff bit_drop_bit_eq)

lemma get_set_field:
  "get_field A f (set_field A g v w) = (if f = g then take_bit (width_of A f) v else get_field A f w)"
  using fields_disjoint[of f g A]
  by (intro bit_word_eqI) (auto simp: bit_get_field bit_set_field bit_take_bit_iff)

lemma get_flag_set_field: "f \<noteq> g \<Longrightarrow> get_flag A f (set_field A g v w) = get_flag A f w"
  by (simp add: get_flag_def get_set_field)

lemma get_flag_set_flag: "get_flag A f (set_flag A g b w) = (if f = g then b else get_flag A f w)"
  by (simp add: get_flag_def set_flag_def get_set_field)

lemma get_field_set_flag: "f \<noteq> g \<Longrightarrow> get_field A f (set_flag A g b w) = get_field A f w"
  by (simp add: set_flag_def get_set_field)

lemmas isa_fields = get_set_field get_flag_set_field get_flag_set_flag get_field_set_flag

section \<open>The inline reference count\<close>

abbreviation RC_SHIFT :: "arch \<Rightarrow> nat" where "RC_SHIFT A \<equiv> position_of A F_extra_rc"

definition xrc :: "arch \<Rightarrow> u64 \<Rightarrow> nat" where
  "xrc A w = unat (extra_rc A w)"

definition xmax :: "arch \<Rightarrow> nat" where
  "xmax A = 2 ^ extra_rc_width A"

lemma RC_SHIFT_width: "RC_SHIFT A + extra_rc_width A = 64"
  by (cases A) simp_all

lemma xrc_div: "xrc A w = unat w div 2 ^ RC_SHIFT A"
proof -
  have "get_field A F_extra_rc w = drop_bit (RC_SHIFT A) w"
    using RC_SHIFT_width[of A] by (intro bit_word_eqI) (auto simp: bit_get_field bit_drop_bit_eq dest: bit_imp_le_length)
  then show ?thesis 
    by (simp add: xrc_def unsigned_drop_bit_eq drop_bit_eq_div[where ?'a = nat] unsigned_take_bit_eq[symmetric] take_bit_word_eq_self del: position_of.simps)
qed

lemma xmax_shift: "xmax A * 2 ^ RC_SHIFT A = 2 ^ 64"
  by (cases A) (simp_all add: xmax_def)

lemma xrc_less: "xrc A w < xmax A"
proof -
  have "unat w < xmax A * 2 ^ RC_SHIFT A" using unsigned_less[of w, where ?'a = nat] xmax_shift[of A] by simp
  then show ?thesis unfolding xrc_div by (simp add: less_mult_imp_div_less)
qed

lemma RC_HALF_xmax: "2 * unat (RC_HALF A) = xmax A" and RC_HALF_pos: "0 < unat (RC_HALF A)"
  and RC_HALF_less: "unat (RC_HALF A) \<le> 2 ^ 18"
  by (cases A; simp add: RC_HALF_def xmax_def)+

lemma unat_RC_ONE: "unat (RC_ONE A) = 2 ^ RC_SHIFT A"
  by (cases A) (simp_all add: RC_ONE_def)

lemma unat_RC_ONE_mult:
  assumes "unat k < xmax A"
  shows "unat (RC_ONE A * k) = unat k * 2 ^ RC_SHIFT A"
proof -
  have "unat k * 2 ^ RC_SHIFT A < xmax A * 2 ^ RC_SHIFT A" using assms by simp
  then have "unat (RC_ONE A) * unat k < 2 ^ 64" unfolding xmax_shift unat_RC_ONE by (simp add: mult.commute)
  then show ?thesis by (simp add: unat_RC_ONE unat_mult_lem[THEN iffD1] mult.commute)
qed

text \<open>Adding or subtracting a multiple of \<open>RC_ONE\<close> changes no other field and carries exactly at the bounds.\<close>

lemma low_field:
  assumes "f \<noteq> F_extra_rc" "unat w mod 2 ^ RC_SHIFT A = unat w' mod 2 ^ RC_SHIFT A"
  shows "get_field A f w = get_field A f w'"
proof -
  have "take_bit (RC_SHIFT A) (unat w) = take_bit (RC_SHIFT A) (unat w')" using assms(2) by (simp add: take_bit_eq_mod)
  then have "take_bit (RC_SHIFT A) w = take_bit (RC_SHIFT A) w'" by (metis unsigned_take_bit_eq unsigned_word_eqI)
  then have b: "bit w i = bit w' i" if "i < RC_SHIFT A" for i by (metis bit_take_bit_iff that)
  have "position_of A f + width_of A f \<le> RC_SHIFT A" using assms(1) by (cases f; cases A) simp_all
  then show ?thesis by (intro bit_word_eqI) (auto simp: bit_get_field b)
qed

lemma add_rc:
  assumes "unat d = k * 2 ^ RC_SHIFT A" "xrc A w + k < xmax A"
  shows "xrc A (w + d) = xrc A w + k" "f \<noteq> F_extra_rc \<Longrightarrow> get_field A f (w + d) = get_field A f w"
    "unat w + unat d < 2 ^ 64"
proof -
  let ?s = "2 ^ RC_SHIFT A :: nat"
  have w: "unat w = xrc A w * ?s + unat w mod ?s" unfolding xrc_div by (rule div_mult_mod_eq[symmetric])
  have "unat w mod ?s < ?s" by (rule mod_less_divisor) simp
  then have "unat w + unat d < (xrc A w + k + 1) * ?s"
    unfolding assms(1) add_mult_distrib mult_1 using w by linarith
  also have "\<dots> \<le> xmax A * ?s" using assms(2) by (intro mult_right_mono) simp_all
  finally show less: "unat w + unat d < 2 ^ 64" unfolding xmax_shift .
  then have u: "unat (w + d) = unat w + k * ?s" by (simp add: unat_add_lem[THEN iffD1] assms(1))
  show "xrc A (w + d) = xrc A w + k" unfolding xrc_div u by simp
  show "f \<noteq> F_extra_rc \<Longrightarrow> get_field A f (w + d) = get_field A f w" by (rule low_field) (simp_all add: u)
qed

lemma add_rc_carry:
  assumes "unat d = k * 2 ^ RC_SHIFT A" "xmax A \<le> xrc A w + k"
  shows "2 ^ 64 \<le> unat w + unat d"
proof -
  have "xmax A * 2 ^ RC_SHIFT A \<le> (xrc A w + k) * 2 ^ RC_SHIFT A" using assms(2) by (rule mult_right_mono) simp
  also have "\<dots> \<le> unat w + unat d" unfolding xrc_div assms(1) by (simp add: add_mult_distrib)
  finally show ?thesis unfolding xmax_shift .
qed

lemma addc_RC:
  assumes "unat k < xmax A"
  shows "snd (addc w (RC_ONE A * k) 0) \<longleftrightarrow> xmax A \<le> xrc A w + unat k"
    "xrc A w + unat k < xmax A \<Longrightarrow> xrc A (fst (addc w (RC_ONE A * k) 0)) = xrc A w + unat k"
    "xrc A w + unat k < xmax A \<Longrightarrow> f \<noteq> F_extra_rc \<Longrightarrow> get_field A f (fst (addc w (RC_ONE A * k) 0)) = get_field A f w"
  using add_rc[OF unat_RC_ONE_mult[OF assms], of w] add_rc_carry[OF unat_RC_ONE_mult[OF assms], of w]
  by (fastforce simp: addc_def not_le)+

lemma xmax_gt_1: "1 < xmax A"
  by (cases A) (simp_all add: xmax_def)

lemma addc_one:
  "snd (addc w (RC_ONE A) 0) \<longleftrightarrow> xrc A w + 1 = xmax A"
  "xrc A w + 1 \<noteq> xmax A \<Longrightarrow> xrc A (fst (addc w (RC_ONE A) 0)) = xrc A w + 1"
  "f \<noteq> F_extra_rc \<Longrightarrow> get_field A f (fst (addc w (RC_ONE A) 0)) = get_field A f w"
proof -
  have k: "unat (1 :: u64) < xmax A" using xmax_gt_1[of A] by simp
  note a = addc_RC[OF k, of w] and l = xrc_less[of A w]
  show "snd (addc w (RC_ONE A) 0) \<longleftrightarrow> xrc A w + 1 = xmax A"
    "xrc A w + 1 \<noteq> xmax A \<Longrightarrow> xrc A (fst (addc w (RC_ONE A) 0)) = xrc A w + 1"
    using a(1,2) l by auto
  assume f: "f \<noteq> F_extra_rc"
  show "get_field A f (fst (addc w (RC_ONE A) 0)) = get_field A f w"
  proof (cases "xrc A w + 1 = xmax A")
    case False
    then show ?thesis using a(3) f l by auto
  next
    case True
    then have c: "2 ^ 64 \<le> unat w + unat (RC_ONE A)" using a(1) by (simp add: addc_def)
    have "unat w < 2 ^ 64" "unat (RC_ONE A) < 2 ^ 64"
      using unsigned_less[of w, where ?'a = nat] unsigned_less[of "RC_ONE A", where ?'a = nat] by simp_all
    then have "(unat w + unat (RC_ONE A)) mod 2 ^ 64 = unat w + unat (RC_ONE A) - 2 ^ 64"
      using c by (subst le_mod_geq[OF c]) (rule mod_less, linarith)
    then have "unat (w + RC_ONE A) + 2 ^ 64 = unat w + 2 ^ RC_SHIFT A"
      using c unfolding unat_RC_ONE[symmetric] by (simp add: unat_word_ariths)
    then have "unat (w + RC_ONE A) + xmax A * 2 ^ RC_SHIFT A = unat w + 2 ^ RC_SHIFT A" unfolding xmax_shift .
    then have "unat (w + RC_ONE A) mod 2 ^ RC_SHIFT A = unat w mod 2 ^ RC_SHIFT A"
      by (metis mod_add_self2 mod_mult_self1)
    then show ?thesis unfolding addc_def using f by (intro low_field) simp_all
  qed
qed

lemma subc_RC:
  shows "snd (subc w (RC_ONE A) 0) \<longleftrightarrow> xrc A w = 0"
    "0 < xrc A w \<Longrightarrow> xrc A (fst (subc w (RC_ONE A) 0)) = xrc A w - 1"
    "0 < xrc A w \<Longrightarrow> f \<noteq> F_extra_rc \<Longrightarrow> get_field A f (fst (subc w (RC_ONE A) 0)) = get_field A f w"
proof -
  let ?s = "2 ^ RC_SHIFT A :: nat"
  show "snd (subc w (RC_ONE A) 0) \<longleftrightarrow> xrc A w = 0"
    by (auto simp: subc_def unat_RC_ONE xrc_div div_eq_0_iff)
  assume x: "0 < xrc A w"
  then have le: "?s \<le> unat w" by (auto simp: xrc_div div_greater_zero_iff)
  then have u: "unat (w - RC_ONE A) = unat w - ?s"
    using unat_RC_ONE[of A] by (metis unat_sub word_le_nat_alt)
  show "xrc A (fst (subc w (RC_ONE A) 0)) = xrc A w - 1"
    unfolding subc_def xrc_div
    using le_div_geq[OF _ le] by (simp add: u del: position_of.simps)
  show "f \<noteq> F_extra_rc \<Longrightarrow> get_field A f (fst (subc w (RC_ONE A) 0)) = get_field A f w"
    by (rule low_field) (simp_all add: subc_def u le_mod_geq[OF le, symmetric] del: position_of.simps)
qed

lemma xrc_set_flag: "f \<noteq> F_extra_rc \<Longrightarrow> xrc A (set_flag A f b w) = xrc A w"
  by (simp add: xrc_def isa_fields)

lemma xrc_set_field:
  "xrc A (set_field A f v w) = (if f = F_extra_rc then unat v mod xmax A else xrc A w)"
  by (simp add: xrc_def isa_fields xmax_def unsigned_take_bit_eq take_bit_eq_mod[where ?'a = nat])

section \<open>Initialisation and class changes\<close>

text \<open>A class pointer fits the \<open>shiftcls\<close> field: 8-byte aligned and below the address limit of the layout.\<close>

definition class_ptr :: "arch \<Rightarrow> ptr \<Rightarrow> bool" where
  "class_ptr A cls = (cls \<noteq> 0 \<and> cls AND ISA_MASK A = cls)"

lemma bit_block: "p + w \<le> 64 \<Longrightarrow> bit (push_bit p (mask w) :: u64) i \<longleftrightarrow> p \<le> i \<and> i < p + w"
  by (auto simp: bit_push_bit_iff bit_mask_iff)

lemma bit_ISA_MASK: "bit (ISA_MASK A) i \<longleftrightarrow> 3 \<le> i \<and> i < 3 + shiftcls_width A"
proof -
  have "ISA_MASK A = push_bit 3 (mask (shiftcls_width A))" by (cases A) (simp_all add: mask_numeral)
  moreover have "3 + shiftcls_width A \<le> 64" by (cases A) simp_all
  ultimately show ?thesis using bit_block[of 3 "shiftcls_width A" i] by simp
qed

lemma class_ptr_bits: "class_ptr A cls \<Longrightarrow> bit cls i \<Longrightarrow> 3 \<le> i \<and> i < 3 + shiftcls_width A"
  unfolding class_ptr_def using bit_ISA_MASK[of A i] by (metis bit_and_iff)

lemma ISA_shiftcls: "ISA A w = push_bit 3 (get_field A F_shiftcls w)"
  unfolding ISA_def
  by (rule bit_word_eqI) (auto simp: bit_and_iff bit_ISA_MASK bit_push_bit_iff bit_get_field)

lemma ISA_set_shiftcls: "class_ptr A cls \<Longrightarrow> ISA A (set_field A F_shiftcls (drop_bit 3 cls) w) = cls"
  unfolding ISA_shiftcls get_set_field
  by (rule bit_word_eqI) (auto simp: bit_push_bit_iff bit_take_bit_iff bit_drop_bit_eq dest: class_ptr_bits)

lemma class_ptr_raw:
  assumes "class_ptr A cls"
  shows "\<not> nonpointer A cls" "ISA A cls = cls"
proof -
  have "get_field A F_nonpointer cls = 0"
    by (rule bit_word_eqI) (use class_ptr_bits[OF assms, of 0] in \<open>auto simp: bit_get_field\<close>)
  then show "\<not> nonpointer A cls" by (simp add: get_flag_def)
  show "ISA A cls = cls" using assms by (simp add: ISA_def class_ptr_def)
qed

lemma magic_fields:
  "nonpointer A (ISA_MAGIC_VALUE A)" "xrc A (ISA_MAGIC_VALUE A) = 0"
  "\<not> deallocating A (ISA_MAGIC_VALUE A)" "\<not> weakly_referenced A (ISA_MAGIC_VALUE A)"
  "\<not> has_sidetable_rc A (ISA_MAGIC_VALUE A)" "\<not> has_assoc A (ISA_MAGIC_VALUE A)"
proof -
  let ?m = "ISA_MAGIC_VALUE A"
  have flag: "get_flag A f w = odd (unat w div 2 ^ position_of A f)" if "width_of A f = 1" for f w
  proof -
    have "get_field A f w = (if bit w (position_of A f) then 1 else 0)"
      by (rule bit_word_eqI) (use that in \<open>auto simp: bit_get_field bit_1_iff\<close>)
    moreover have "bit w (position_of A f) = bit (unat w) (position_of A f)" by (simp add: bit_unsigned_iff)
    ultimately show ?thesis by (simp add: get_flag_def bit_iff_odd[where ?'a = nat] del: bit_unsigned_iff)
  qed
  have u: "unat ?m = (case A of ARM64 \<Rightarrow> 0x000001a000000001 | X86_64 \<Rightarrow> 0x001d800000000001)" by (cases A) simp_all
  show "nonpointer A ?m" "\<not> deallocating A ?m" "\<not> weakly_referenced A ?m" "\<not> has_sidetable_rc A ?m" "\<not> has_assoc A ?m"
    by (subst flag, simp, cases A, simp_all add: u)+
  show "xrc A ?m = 0" unfolding xrc_div u by (cases A) simp_all
qed

lemma initIsa_fields:
  assumes "class_ptr A cls"
  shows "ISA A (initIsa A cls np d) = cls" "nonpointer A (initIsa A cls np d) = np"
    "np \<Longrightarrow> xrc A (initIsa A cls np d) = 0" "np \<Longrightarrow> \<not> deallocating A (initIsa A cls np d)"
    "np \<Longrightarrow> \<not> weakly_referenced A (initIsa A cls np d)" "np \<Longrightarrow> \<not> has_sidetable_rc A (initIsa A cls np d)"
    "np \<Longrightarrow> \<not> has_assoc A (initIsa A cls np d)" "np \<Longrightarrow> has_cxx_dtor A (initIsa A cls np d) = d"
  using assms class_ptr_raw[OF assms] magic_fields[of A]
  by (simp_all add: initIsa_def ISA_set_shiftcls isa_fields xrc_set_field xrc_set_flag)

text \<open>
  C32: an object initialised with a class answers that class; a packed isa starts with a zero inline count,
  no flags but the requested destructor flag, and the magic bits debuggers test; a raw isa is the class itself.
\<close>

theorem initIsa_correct:
  assumes "class_ptr A cls"
  shows "ISA A (initIsa A cls np dtor) = cls \<and> nonpointer A (initIsa A cls np dtor) = np \<and>
    (np \<longrightarrow> xrc A (initIsa A cls np dtor) = 0 \<and> \<not> deallocating A (initIsa A cls np dtor) \<and>
       \<not> weakly_referenced A (initIsa A cls np dtor) \<and> \<not> has_sidetable_rc A (initIsa A cls np dtor) \<and>
       \<not> has_assoc A (initIsa A cls np dtor) \<and> has_cxx_dtor A (initIsa A cls np dtor) = dtor \<and>
       initIsa A cls np dtor AND ISA_MAGIC_MASK A = ISA_MAGIC_VALUE A)"
proof -
  have "initIsa A cls True dtor AND ISA_MAGIC_MASK A = ISA_MAGIC_VALUE A"
  proof -
    have m: "bit (ISA_MAGIC_MASK A) i \<longleftrightarrow> i = 0 \<or> 3 + shiftcls_width A \<le> i \<and> i < 9 + shiftcls_width A" for i
    proof -
      have "ISA_MAGIC_MASK A = 1 OR push_bit (3 + shiftcls_width A) (mask 6)" by (cases A) (simp_all add: mask_numeral)
      moreover have "3 + shiftcls_width A + 6 \<le> 64" by (cases A) simp_all
      ultimately show ?thesis using bit_block[of "3 + shiftcls_width A" 6 i] by (simp only: bit_or_iff bit_1_iff) auto
    qed
    have v: "ISA_MAGIC_VALUE A AND ISA_MAGIC_MASK A = ISA_MAGIC_VALUE A" by (cases A) simp_all
    have "initIsa A cls True dtor AND ISA_MAGIC_MASK A = ISA_MAGIC_VALUE A AND ISA_MAGIC_MASK A"
      by (rule bit_word_eqI) (auto simp: initIsa_def set_flag_def bit_and_iff bit_set_field m)
    then show ?thesis unfolding v .
  qed
  then show ?thesis using initIsa_fields[OF assms] by auto
qed

theorem initIsa_correct_witness:
  "class_ptr ARM64 0x1000 \<and> ISA ARM64 (initIsa ARM64 0x1000 True True) = 0x1000"
  using initIsa_correct[of ARM64 "0x1000" True True] by (simp add: class_ptr_def)

text \<open>Class changes keep everything but the class and the destructor flag, or ask for transcription.\<close>

lemma changeIsa_word_fields:
  assumes "changeIsa_word A info newCls old = (new, tr)" "class_ptr A newCls" "old \<noteq> 0"
  shows "ISA A new = newCls" "tr = (nonpointer A old \<and> \<not> nonpointer A new)" "nonpointer A new \<Longrightarrow> nonpointer A old"
    "nonpointer A new \<Longrightarrow> xrc A new = xrc A old"
    "nonpointer A new \<Longrightarrow> f \<noteq> F_has_cxx_dtor \<Longrightarrow> f \<noteq> F_shiftcls \<Longrightarrow> get_flag A f new = get_flag A f old" "new \<noteq> 0"
proof -
  show isa: "ISA A new = newCls" using assms class_ptr_raw[OF assms(2)]
    by (auto simp: changeIsa_word_def Let_def ISA_set_shiftcls split: if_splits)
  then show "new \<noteq> 0" using assms(2) by (auto simp: ISA_def class_ptr_def)
qed (use assms class_ptr_raw[OF assms(2)] in \<open>auto simp: changeIsa_word_def Let_def isa_fields xrc_set_field xrc_set_flag
  split: if_splits\<close>)

text \<open>
  a class change installs the new class and returns the old one. When the word stays packed, the inline
  count and all flags but the destructor flag are kept; it is transcribed to the side table exactly when a packed word
  is replaced by a raw class pointer, and a raw pointer never becomes packed again.
\<close>

theorem changeIsa_word_correct:
  assumes "changeIsa_word A info newCls old = (new, transcribe)" "class_ptr A newCls" "class_ptr A (ISA A old)"
    "nonpointer A old \<or> old = ISA A old"
  shows "ISA A new = newCls \<and> changeIsa_result A old = ISA A old \<and>
    transcribe = (nonpointer A old \<and> \<not> nonpointer A new) \<and> (nonpointer A new \<longrightarrow> nonpointer A old \<and>
      xrc A new = xrc A old \<and> deallocating A new = deallocating A old \<and>
      weakly_referenced A new = weakly_referenced A old \<and> has_sidetable_rc A new = has_sidetable_rc A old \<and>
      has_assoc A new = has_assoc A old \<and> has_cxx_dtor A new = cls_hasCxxDtor (info newCls))"
proof -
  have "old \<noteq> 0" using assms(3) by (auto simp: ISA_def class_ptr_def)
  note f = changeIsa_word_fields[OF assms(1,2) this]
  have "changeIsa_result A old = ISA A old" using assms(4) by (auto simp: changeIsa_result_def ISA_shiftcls)
  moreover have "has_cxx_dtor A new = cls_hasCxxDtor (info newCls)" if "nonpointer A new"
    using assms(1) that class_ptr_raw[OF assms(2)] by (auto simp: changeIsa_word_def Let_def isa_fields split: if_splits)
  ultimately show ?thesis using f by auto
qed

definition sample_class :: class_info where
  "sample_class = \<lparr>isFuture = False, canAllocNonpointer = True, cls_hasCxxDtor = True, instancesRequireRawIsa = False\<rparr>"

theorem changeIsa_word_correct_witness:
  "\<exists>new tr. changeIsa_word X86_64 (\<lambda>_. sample_class) 0x2000 (initIsa X86_64 0x1000 True False) = (new, tr) \<and>
     ISA X86_64 new = 0x2000 \<and> changeIsa_result X86_64 (initIsa X86_64 0x1000 True False) = 0x1000"
proof -
  have c: "class_ptr X86_64 0x1000" "class_ptr X86_64 0x2000" by (simp_all add: class_ptr_def)
  obtain new tr where w: "changeIsa_word X86_64 (\<lambda>_. sample_class) 0x2000 (initIsa X86_64 0x1000 True False) = (new, tr)"
    by (cases "changeIsa_word X86_64 (\<lambda>_. sample_class) 0x2000 (initIsa X86_64 0x1000 True False)")
  show ?thesis using changeIsa_word_correct[OF w c(2)] w initIsa_fields(1,2)[OF c(1), of True False] c(1) by auto
qed

end
