(* ===== verification/ObjC_SideTable.thy ===== *)
theory ObjC_SideTable
  imports ObjC_DenseMap ObjC_Isa
begin

text \<open>
  The side table of reference counts (the \<open>sidetable_\<close> functions of runtime/NSObject.mm). The map \<open>refcnts\<close> of a side
  table is the model of \<open>objc::DenseMap\<close> with purgeable zeros; each function is its access to the map, through the
  reference of \<open>operator[]\<close> or the iterator of \<open>find\<close>, around a function on the stored word. \<open>None\<close> is a failed
  assertion or the fatal error of the map. The spinlock is taken by the callers in the theory of the reference count.
\<close>

type_synonym RefcountMap = "(u64, u64) DenseMap"

section \<open>The stored word\<close>

definition SIDE_TABLE_WEAKLY_REFERENCED :: u64 where "SIDE_TABLE_WEAKLY_REFERENCED = 1"
definition SIDE_TABLE_DEALLOCATING :: u64 where "SIDE_TABLE_DEALLOCATING = 2"
definition SIDE_TABLE_RC_ONE :: u64 where "SIDE_TABLE_RC_ONE = 4"
definition SIDE_TABLE_RC_PINNED :: u64 where "SIDE_TABLE_RC_PINNED = push_bit 63 1"
definition SIDE_TABLE_FLAG_MASK :: u64 where "SIDE_TABLE_FLAG_MASK = SIDE_TABLE_RC_ONE - 1"

definition SIDE_TABLE_RC_SHIFT :: nat where "SIDE_TABLE_RC_SHIFT = 2"

definition has :: "u64 \<Rightarrow> u64 \<Rightarrow> bool" where
  "has v flag = (v AND flag \<noteq> 0)"

text \<open>Functions on the storage a reference or an iterator gives: the new word, if it is assigned, and the result.\<close>

definition moveExtraRC :: "u64 \<Rightarrow> bool \<Rightarrow> bool \<Rightarrow> u64 \<Rightarrow> (u64 \<times> unit) option" where
  "moveExtraRC extra isDeallocating weaklyReferenced oldRefcnt =
     (if has oldRefcnt SIDE_TABLE_DEALLOCATING \<or> has oldRefcnt SIDE_TABLE_WEAKLY_REFERENCED then None
      else
        let (refcnt, carry) = addc oldRefcnt (push_bit SIDE_TABLE_RC_SHIFT extra) 0;
            refcnt = (if carry then SIDE_TABLE_RC_PINNED else refcnt);
            refcnt = (if isDeallocating then refcnt OR SIDE_TABLE_DEALLOCATING else refcnt);
            refcnt = (if weaklyReferenced then refcnt OR SIDE_TABLE_WEAKLY_REFERENCED else refcnt)
        in Some (refcnt, ()))"

definition addExtraRC :: "u64 \<Rightarrow> u64 \<Rightarrow> (u64 \<times> bool) option" where
  "addExtraRC delta_rc oldRefcnt =
     (if has oldRefcnt SIDE_TABLE_DEALLOCATING \<or> has oldRefcnt SIDE_TABLE_WEAKLY_REFERENCED then None
      else if has oldRefcnt SIDE_TABLE_RC_PINNED then Some (oldRefcnt, True)
      else
        let (newRefcnt, carry) = addc oldRefcnt (push_bit SIDE_TABLE_RC_SHIFT delta_rc) 0
        in if carry then Some (SIDE_TABLE_RC_PINNED OR (oldRefcnt AND SIDE_TABLE_FLAG_MASK), True)
           else Some (newRefcnt, False))"

definition subExtraRC :: "u64 \<Rightarrow> u64 option \<Rightarrow> (u64 option \<times> u64) option" where
  "subExtraRC delta_rc it =
     (case it of
        None \<Rightarrow> Some (None, 0)
      | Some oldRefcnt \<Rightarrow>
          if oldRefcnt = 0 then Some (None, 0)
          else if has oldRefcnt SIDE_TABLE_DEALLOCATING \<or> has oldRefcnt SIDE_TABLE_WEAKLY_REFERENCED then None
          else
            let newRefcnt = oldRefcnt - push_bit SIDE_TABLE_RC_SHIFT delta_rc
            in if \<not> newRefcnt < oldRefcnt then None else Some (Some newRefcnt, delta_rc))"

definition getExtraRC :: "u64 option \<Rightarrow> (u64 option \<times> u64) option" where
  "getExtraRC it = Some (None, case it of None \<Rightarrow> 0 | Some v \<Rightarrow> drop_bit SIDE_TABLE_RC_SHIFT v)"

definition retain_word :: "u64 \<Rightarrow> (u64 \<times> unit) option" where
  "retain_word v = Some (if \<not> has v SIDE_TABLE_RC_PINNED then v + SIDE_TABLE_RC_ONE else v, ())"

definition tryRetain_word :: "u64 option \<Rightarrow> (u64 option \<times> bool) option" where
  "tryRetain_word it =
     (case it of
        None \<Rightarrow> Some (Some SIDE_TABLE_RC_ONE, True)
      | Some v \<Rightarrow>
          if has v SIDE_TABLE_DEALLOCATING then Some (None, False)
          else if \<not> has v SIDE_TABLE_RC_PINNED then Some (Some (v + SIDE_TABLE_RC_ONE), True)
          else Some (None, True))"

definition retainCount_word :: "u64 option \<Rightarrow> (u64 option \<times> u64) option" where
  "retainCount_word it = Some (None, case it of None \<Rightarrow> 1 | Some v \<Rightarrow> 1 + drop_bit SIDE_TABLE_RC_SHIFT v)"

definition isDeallocating_word :: "u64 option \<Rightarrow> (u64 option \<times> bool) option" where
  "isDeallocating_word it = Some (None, case it of None \<Rightarrow> False | Some v \<Rightarrow> has v SIDE_TABLE_DEALLOCATING)"

definition isWeaklyReferenced_word :: "u64 option \<Rightarrow> (u64 option \<times> bool) option" where
  "isWeaklyReferenced_word it = Some (None, case it of None \<Rightarrow> False | Some v \<Rightarrow> has v SIDE_TABLE_WEAKLY_REFERENCED)"

definition setWeaklyReferenced_word :: "u64 \<Rightarrow> (u64 \<times> unit) option" where
  "setWeaklyReferenced_word v = Some (v OR SIDE_TABLE_WEAKLY_REFERENCED, ())"

definition release_word :: "u64 option \<Rightarrow> (u64 option \<times> bool) option" where
  "release_word it =
     (case it of
        None \<Rightarrow> Some (Some SIDE_TABLE_DEALLOCATING, True)
      | Some v \<Rightarrow>
          if v < SIDE_TABLE_DEALLOCATING then Some (Some (v OR SIDE_TABLE_DEALLOCATING), True)
          else if \<not> has v SIDE_TABLE_RC_PINNED then Some (Some (v - SIDE_TABLE_RC_ONE), False)
          else Some (None, False))"

section \<open>Access to the map\<close>

text \<open>\<open>size_t\& refcntStorage = table.refcnts[this]\<close>, read and then assigned.\<close>

definition refcnts_ref :: "ptr \<Rightarrow> (u64 \<Rightarrow> (u64 \<times> 'r) option) \<Rightarrow> RefcountMap \<Rightarrow> (RefcountMap \<times> 'r) option" where
  "refcnts_ref this f m =
     do { (m, b) \<leftarrow> FindAndConstruct (DenseMap_grow DenseMapInfo_DisguisedPtr True) DenseMapInfo_DisguisedPtr True m
            (disguise this);
          (v, r) \<leftarrow> f (snd (Buckets m ! b));
          Some (m\<lparr>Buckets := (Buckets m)[b := (disguise this, v)]\<rparr>, r) }"

text \<open>\<open>it = table.refcnts.find(this)\<close>: an assignment goes through the iterator, or through \<open>operator[]\<close> at \<open>end()\<close>.\<close>

definition refcnts_it :: "ptr \<Rightarrow> (u64 option \<Rightarrow> (u64 option \<times> 'r) option) \<Rightarrow> RefcountMap \<Rightarrow> (RefcountMap \<times> 'r) option" where
  "refcnts_it this f m =
     do { it \<leftarrow> DenseMap_find DenseMapInfo_DisguisedPtr True m (disguise this);
          if it = getNumBuckets m then
            do { (w, r) \<leftarrow> f None;
                 case w of None \<Rightarrow> Some (m, r) | Some v \<Rightarrow> refcnts_ref this (\<lambda>_. Some (v, r)) m }
          else
            do { (w, r) \<leftarrow> f (Some (snd (Buckets m ! it)));
                 case w of None \<Rightarrow> Some (m, r)
                 | Some v \<Rightarrow> Some (m\<lparr>Buckets := (Buckets m)[it := (disguise this, v)]\<rparr>, r) } }"

section \<open>The functions of NSObject.mm\<close>

definition sidetable_moveExtraRC_nolock :: "ptr \<Rightarrow> u64 \<Rightarrow> bool \<Rightarrow> bool \<Rightarrow> RefcountMap \<Rightarrow> (RefcountMap \<times> unit) option" where
  "sidetable_moveExtraRC_nolock this extra isDeallocating weaklyReferenced =
     refcnts_ref this (moveExtraRC extra isDeallocating weaklyReferenced)"

definition sidetable_addExtraRC_nolock :: "ptr \<Rightarrow> u64 \<Rightarrow> RefcountMap \<Rightarrow> (RefcountMap \<times> bool) option" where
  "sidetable_addExtraRC_nolock this delta_rc = refcnts_ref this (addExtraRC delta_rc)"

definition sidetable_subExtraRC_nolock :: "ptr \<Rightarrow> u64 \<Rightarrow> RefcountMap \<Rightarrow> (RefcountMap \<times> u64) option" where
  "sidetable_subExtraRC_nolock this delta_rc = refcnts_it this (subExtraRC delta_rc)"

definition sidetable_getExtraRC_nolock :: "ptr \<Rightarrow> RefcountMap \<Rightarrow> (RefcountMap \<times> u64) option" where
  "sidetable_getExtraRC_nolock this = refcnts_it this getExtraRC"

definition sidetable_retain :: "ptr \<Rightarrow> RefcountMap \<Rightarrow> (RefcountMap \<times> unit) option" where
  "sidetable_retain this = refcnts_ref this retain_word"

definition sidetable_tryRetain :: "ptr \<Rightarrow> RefcountMap \<Rightarrow> (RefcountMap \<times> bool) option" where
  "sidetable_tryRetain this = refcnts_it this tryRetain_word"

definition sidetable_retainCount :: "ptr \<Rightarrow> RefcountMap \<Rightarrow> (RefcountMap \<times> u64) option" where
  "sidetable_retainCount this = refcnts_it this retainCount_word"

definition sidetable_isDeallocating :: "ptr \<Rightarrow> RefcountMap \<Rightarrow> (RefcountMap \<times> bool) option" where
  "sidetable_isDeallocating this = refcnts_it this isDeallocating_word"

definition sidetable_isWeaklyReferenced :: "ptr \<Rightarrow> RefcountMap \<Rightarrow> (RefcountMap \<times> bool) option" where
  "sidetable_isWeaklyReferenced this = refcnts_it this isWeaklyReferenced_word"

definition sidetable_setWeaklyReferenced_nolock :: "ptr \<Rightarrow> RefcountMap \<Rightarrow> (RefcountMap \<times> unit) option" where
  "sidetable_setWeaklyReferenced_nolock this = refcnts_ref this setWeaklyReferenced_word"

definition sidetable_release :: "ptr \<Rightarrow> RefcountMap \<Rightarrow> (RefcountMap \<times> bool) option" where
  "sidetable_release this = refcnts_it this release_word"

text \<open>The result says whether the weak references of the object are to be cleared.\<close>

definition sidetable_clearDeallocating :: "ptr \<Rightarrow> RefcountMap \<Rightarrow> (RefcountMap \<times> bool) option" where
  "sidetable_clearDeallocating this m =
     do { it \<leftarrow> DenseMap_find DenseMapInfo_DisguisedPtr True m (disguise this);
          if it = getNumBuckets m then Some (m, False)
          else
            let weak = has (snd (Buckets m ! it)) SIDE_TABLE_WEAKLY_REFERENCED
            in do { m \<leftarrow> DenseMap_erase_iterator (DenseMap_grow DenseMapInfo_DisguisedPtr True)
                      (DenseMap_shrink_and_clear DenseMapInfo_DisguisedPtr) DenseMapInfo_DisguisedPtr m it;
                    Some (m, weak) } }"

section \<open>The map as a function from objects to words\<close>

definition table_inv :: "RefcountMap \<Rightarrow> bool" where
  "table_inv m = (dm_inv DenseMapInfo_DisguisedPtr m \<and> getNumBuckets m \<le> 2 ^ 28)"

definition refcnt_of :: "RefcountMap \<Rightarrow> ptr \<Rightarrow> u64" where
  "refcnt_of m p = dm_val DenseMapInfo_DisguisedPtr m (disguise p)"

definition object_ptr :: "ptr \<Rightarrow> bool" where
  "object_ptr p = (p \<noteq> -1 \<and> p \<noteq> -2)"

lemma disguise_inj [simp]: "disguise p = disguise q \<longleftrightarrow> p = q"
  by (simp add: disguise_def)

lemma object_live: "object_ptr p \<Longrightarrow> live DenseMapInfo_DisguisedPtr (disguise p)"
  by (simp add: object_ptr_def live_def DenseMapInfo_DisguisedPtr_def)

lemma refcnts_ref_ok:
  assumes m: "table_inv m" and obj: "object_ptr this" and f: "f (refcnt_of m this) = Some (v, r)"
  shows "\<exists>m'. refcnts_ref this f m = Some (m', r) \<and> dm_inv DenseMapInfo_DisguisedPtr m' \<and>
    (\<forall>p. refcnt_of m' p = (if p = this then v else refcnt_of m p))"
proof -
  let ?k = "disguise this" and ?I = DenseMapInfo_DisguisedPtr
  have inv: "dm_inv ?I m" "getNumBuckets m \<le> 2 ^ 28" using m by (simp_all add: table_inv_def)
  obtain m1 b g where m1: "FindAndConstruct (DenseMap_grow ?I True) ?I True m ?k = Some (m1, b)" "dm_inv ?I m1"
    "b < getNumBuckets m1" "Buckets m1 ! b = (?k, refcnt_of m this)" "purged True (dm_map ?I m) g"
    "dm_map ?I m1 = g(?k \<mapsto> refcnt_of m this)"
    using RefcountMap.FindAndConstruct_ok[OF inv(1) object_live[OF obj] inv(2)] unfolding refcnt_of_def dm_val_def by blast
  note a = RefcountMap.assign_ok[OF m1(2-4) object_live[OF obj], of v]
  have "dm_val ?I (m1\<lparr>Buckets := (Buckets m1)[b := (?k, v)]\<rparr>) k = (if k = ?k then v else dm_val ?I m k)" for k
    using purged_val[OF m1(5), of k] unfolding dm_val_def a(2) m1(6) by simp
  then show ?thesis using m1(1,4) f a(1)
    by (intro exI[of _ "m1\<lparr>Buckets := (Buckets m1)[b := (?k, v)]\<rparr>"]) (simp add: refcnts_ref_def refcnt_of_def)
qed

text \<open>Access through an iterator depends on the word only, because the functions treat an absent entry like a zero.\<close>

definition zero_like_absent :: "(u64 option \<Rightarrow> (u64 option \<times> 'r) option) \<Rightarrow> bool" where
  "zero_like_absent f = (map_option (map_prod (\<lambda>w. case w of None \<Rightarrow> 0 | Some v \<Rightarrow> v) id) (f None) =
     map_option (map_prod (\<lambda>w. case w of None \<Rightarrow> 0 | Some v \<Rightarrow> v) id) (f (Some 0)))"

lemma refcnts_it_ok:
  assumes m: "table_inv m" and obj: "object_ptr this" and f: "f (Some (refcnt_of m this)) = Some (w, r)"
    and z: "zero_like_absent f"
  shows "\<exists>m'. refcnts_it this f m = Some (m', r) \<and> dm_inv DenseMapInfo_DisguisedPtr m' \<and>
    (\<forall>p. refcnt_of m' p = (if p = this then (case w of None \<Rightarrow> refcnt_of m this | Some v \<Rightarrow> v) else refcnt_of m p))"
proof -
  let ?k = "disguise this" and ?I = DenseMapInfo_DisguisedPtr
  have inv: "dm_inv ?I m" using m by (simp add: table_inv_def)
  obtain it where it: "DenseMap_find ?I True m ?k = Some it"
    "case dm_map ?I m ?k of None \<Rightarrow> it = getNumBuckets m | Some v \<Rightarrow> it < getNumBuckets m \<and> Buckets m ! it = (?k, v)"
    using RefcountMap.lookup_ok(3)[OF inv object_live[OF obj], of True] by blast
  show ?thesis
  proof (cases "dm_map ?I m ?k")
    case None
    then have 0: "refcnt_of m this = 0" and end_: "it = getNumBuckets m"
      using it(2) by (simp_all add: refcnt_of_def dm_val_def)
    obtain w' where w': "f None = Some (w', r)" "(case w' of None \<Rightarrow> 0 | Some v \<Rightarrow> v) = (case w of None \<Rightarrow> 0 | Some v \<Rightarrow> v)"
      using z f unfolding zero_like_absent_def 0 by (cases "f None") auto
    show ?thesis
    proof (cases w')
      case N: None
      then show ?thesis using it(1) end_ w' inv 0 by (intro exI[of _ m]) (auto simp: refcnts_it_def split: option.splits)
    next
      case (Some v)
      then show ?thesis using it(1) end_ w' 0 refcnts_ref_ok[OF m obj, of "\<lambda>_. Some (v, r)" v r]
        by (auto simp: refcnts_it_def split: option.splits)
    qed
  next
    case (Some u)
    then have u: "refcnt_of m this = u" and b: "it < getNumBuckets m" "Buckets m ! it = (?k, u)"
      using it(2) by (simp_all add: refcnt_of_def dm_val_def)
    show ?thesis
    proof (cases w)
      case N: None
      then show ?thesis using it(1) b f inv u by (intro exI[of _ m]) (simp add: refcnts_it_def)
    next
      case W: (Some v)
      note a = RefcountMap.assign_ok[OF inv b object_live[OF obj], of v]
      have "dm_val ?I (m\<lparr>Buckets := (Buckets m)[it := (?k, v)]\<rparr>) k = (if k = ?k then v else dm_val ?I m k)" for k
        unfolding dm_val_def a(2) by simp
      then show ?thesis using it(1) b f a(1) u W
        by (intro exI[of _ "m\<lparr>Buckets := (Buckets m)[it := (?k, v)]\<rparr>"]) (simp add: refcnts_it_def refcnt_of_def)
    qed
  qed
qed

lemmas side_flags = SIDE_TABLE_WEAKLY_REFERENCED_def SIDE_TABLE_DEALLOCATING_def SIDE_TABLE_RC_ONE_def
  SIDE_TABLE_RC_PINNED_def SIDE_TABLE_FLAG_MASK_def SIDE_TABLE_RC_SHIFT_def

lemmas word_functions = moveExtraRC_def addExtraRC_def subExtraRC_def getExtraRC_def retain_word_def tryRetain_word_def
  retainCount_word_def isDeallocating_word_def isWeaklyReferenced_word_def setWeaklyReferenced_word_def release_word_def

lemma iterators_zero_like_absent:
  "zero_like_absent (subExtraRC d)" "zero_like_absent getExtraRC" "zero_like_absent tryRetain_word"
  "zero_like_absent retainCount_word" "zero_like_absent isDeallocating_word" "zero_like_absent isWeaklyReferenced_word"
  "zero_like_absent release_word"
  by (simp_all add: zero_like_absent_def word_functions has_def side_flags)

lemma clearDeallocating_ok:
  assumes m: "table_inv m" and obj: "object_ptr this"
  shows "\<exists>m'. sidetable_clearDeallocating this m = Some (m', has (refcnt_of m this) SIDE_TABLE_WEAKLY_REFERENCED) \<and>
    dm_inv DenseMapInfo_DisguisedPtr m' \<and> (\<forall>p. refcnt_of m' p = (if p = this then 0 else refcnt_of m p))"
proof -
  let ?k = "disguise this" and ?I = DenseMapInfo_DisguisedPtr
  have inv: "dm_inv ?I m" "getNumBuckets m \<le> 2 ^ 28" using m by (simp_all add: table_inv_def)
  obtain it where it: "DenseMap_find ?I True m ?k = Some it"
    "case dm_map ?I m ?k of None \<Rightarrow> it = getNumBuckets m | Some v \<Rightarrow> it < getNumBuckets m \<and> Buckets m ! it = (?k, v)"
    using RefcountMap.lookup_ok(3)[OF inv(1) object_live[OF obj], of True] by blast
  show ?thesis
  proof (cases "dm_map ?I m ?k")
    case None
    then show ?thesis using it inv
      by (intro exI[of _ m]) (simp add: sidetable_clearDeallocating_def refcnt_of_def dm_val_def has_def)
  next
    case (Some u)
    then have b: "it < getNumBuckets m" "Buckets m ! it = (?k, u)" using it(2) by simp_all
    obtain m' where m': "DenseMap_erase_iterator (DenseMap_grow ?I True) (DenseMap_shrink_and_clear ?I) ?I m it = Some m'"
      "dm_inv ?I m'" "purged True ((dm_map ?I m)(?k := None)) (dm_map ?I m')"
      using RefcountMap.erase_iterator_ok[OF inv(1) b object_live[OF obj] inv(2)] by blast
    have "dm_val ?I m' k = (if k = ?k then 0 else dm_val ?I m k)" for k
      using m'(3) unfolding purged_def dm_val_def by (metis fun_upd_apply option.case(1,2))
    then show ?thesis using it(1) b m' Some
      by (intro exI[of _ m']) (simp add: sidetable_clearDeallocating_def Let_def refcnt_of_def dm_val_def)
  qed
qed



section \<open>Counting in the stored word\<close>

definition cnt :: "u64 \<Rightarrow> nat" where
  "cnt v = unat v div 4"

definition dflag :: "u64 \<Rightarrow> bool" where "dflag v = has v SIDE_TABLE_DEALLOCATING"
definition wflag :: "u64 \<Rightarrow> bool" where "wflag v = has v SIDE_TABLE_WEAKLY_REFERENCED"

lemma has_bits:
  "has v SIDE_TABLE_WEAKLY_REFERENCED = bit v 0" "has v SIDE_TABLE_DEALLOCATING = bit v 1"
  "has v SIDE_TABLE_RC_PINNED = bit v 63"
  using and_exp_eq_0_iff_not_bit[of v 0] and_exp_eq_0_iff_not_bit[of v 1] and_exp_eq_0_iff_not_bit[of v 63]
  by (simp_all add: has_def side_flags)

lemma flags_unat: "wflag v = odd (unat v)" "dflag v = odd (unat v div 2)" "has v SIDE_TABLE_RC_PINNED = odd (unat v div 2 ^ 63)"
proof -
  have b: "bit v i = odd (unat v div 2 ^ i)" if "i < 64" for i
    using that bit_iff_odd[of "unat v" i] by (simp add: bit_unsigned_iff)
  show "wflag v = odd (unat v)" "dflag v = odd (unat v div 2)" "has v SIDE_TABLE_RC_PINNED = odd (unat v div 2 ^ 63)"
    using b[of 0] b[of 1] b[of 63] by (simp_all add: wflag_def dflag_def has_bits)
qed

lemma unat_parts: "unat v = 4 * cnt v + 2 * of_bool (dflag v) + of_bool (wflag v)"
proof -
  define n where "n = unat v"
  have "n = 4 * (n div 4) + (if odd (n div 2) then 2 else 0) + (if odd n then 1 else 0)" by presburger
  then have "n = 4 * (n div 4) + 2 * of_bool (odd (n div 2)) + of_bool (odd n)" by (simp only: of_bool_def split: if_splits) simp_all
  then show ?thesis by (simp add: cnt_def flags_unat n_def)
qed

lemma parts_unique:
  assumes "unat v = 4 * c + 2 * of_bool d + of_bool w"
  shows "cnt v = c" "dflag v = d" "wflag v = w"
proof -
  have c: "(4 * c + 2 * of_bool d + of_bool w) div 4 = c" "(4 * c + 2 * of_bool d + of_bool w) div 2 = 2 * c + of_bool d"
    by (cases d; cases w; simp; presburger)+
  show "cnt v = c" "dflag v = d" "wflag v = w"
    unfolding cnt_def flags_unat assms c by (cases d; cases w; simp)+
qed

lemma not_pinned: "cnt v < 2 ^ 61 \<Longrightarrow> \<not> has v SIDE_TABLE_RC_PINNED"
proof -
  assume "cnt v < 2 ^ 61"
  then have "unat v div 2 ^ 63 = 0" by (simp add: cnt_def)
  then show ?thesis unfolding flags_unat by simp
qed

lemma add_count:
  assumes "unat d = 4 * k" "cnt v + k < 2 ^ 61"
  shows "cnt (v + d) = cnt v + k" "dflag (v + d) = dflag v" "wflag (v + d) = wflag v" "unat v + unat d < 2 ^ 64"
proof -
  have le: "unat v \<le> 4 * cnt v + 3" unfolding cnt_def by presburger
  then show less: "unat v + unat d < 2 ^ 64" using assms by simp
  then have "unat (v + d) = unat v + unat d" by (simp add: unat_add_lem[THEN iffD1])
  then have "unat (v + d) = 4 * (cnt v + k) + 2 * of_bool (dflag v) + of_bool (wflag v)"
    using unat_parts[of v] assms(1) by simp
  from parts_unique[OF this] show "cnt (v + d) = cnt v + k" "dflag (v + d) = dflag v" "wflag (v + d) = wflag v" .
qed

lemma sub_count:
  assumes "unat d = 4 * k" "k \<le> cnt v"
  shows "cnt (v - d) = cnt v - k" "dflag (v - d) = dflag v" "wflag (v - d) = wflag v" "0 < k \<Longrightarrow> v - d < v"
proof -
  have le: "unat d \<le> unat v" using assms unfolding cnt_def by simp
  then have u: "unat (v - d) = unat v - unat d" by (simp add: unat_sub word_le_nat_alt)
  then have "unat (v - d) = 4 * (cnt v - k) + 2 * of_bool (dflag v) + of_bool (wflag v)"
    using unat_parts[of v] assms by simp
  from parts_unique[OF this] show "cnt (v - d) = cnt v - k" "dflag (v - d) = dflag v" "wflag (v - d) = wflag v" .
  show "0 < k \<Longrightarrow> v - d < v" using u le assms(1) by (simp add: word_less_nat_alt)
qed

lemma shifted_count: "unat delta < 2 ^ 61 \<Longrightarrow> unat (push_bit 2 delta :: u64) = 4 * unat delta"
  by (simp add: push_bit_eq_mult unat_word_ariths)

lemma or_flags:
  "cnt (v OR SIDE_TABLE_DEALLOCATING) = cnt v" "dflag (v OR SIDE_TABLE_DEALLOCATING)"
  "wflag (v OR SIDE_TABLE_DEALLOCATING) = wflag v"
  "cnt (v OR SIDE_TABLE_WEAKLY_REFERENCED) = cnt v" "dflag (v OR SIDE_TABLE_WEAKLY_REFERENCED) = dflag v"
  "wflag (v OR SIDE_TABLE_WEAKLY_REFERENCED)"
proof -
  have c: "cnt x = unat (drop_bit 2 x)" for x
    by (simp add: cnt_def unsigned_drop_bit_eq drop_bit_eq_div[where ?'a = nat] unsigned_take_bit_eq[symmetric] take_bit_word_eq_self)
  have d: "bit (2 :: u64) i = (i = 1)" "bit (1 :: u64) i = (i = 0)" for i
    using bit_exp_iff[of 1 i, where ?'a = u64] by (auto simp: bit_1_iff)
  show "cnt (v OR SIDE_TABLE_DEALLOCATING) = cnt v" "cnt (v OR SIDE_TABLE_WEAKLY_REFERENCED) = cnt v"
    unfolding c side_flags
    by (rule arg_cong[of _ _ unat], rule bit_word_eqI, simp only: bit_drop_bit_eq comp_apply bit_or_iff d, simp)+
  show "dflag (v OR SIDE_TABLE_DEALLOCATING)" "wflag (v OR SIDE_TABLE_DEALLOCATING) = wflag v"
    "dflag (v OR SIDE_TABLE_WEAKLY_REFERENCED) = dflag v" "wflag (v OR SIDE_TABLE_WEAKLY_REFERENCED)"
    unfolding dflag_def wflag_def has_bits unfolding side_flags bit_or_iff d by simp_all
qed

lemma word_small: "v < SIDE_TABLE_DEALLOCATING \<longleftrightarrow> cnt v = 0 \<and> \<not> dflag v"
  using unat_parts[of v] by (auto simp: side_flags word_less_nat_alt)

lemma word_zero: "v = 0 \<longleftrightarrow> cnt v = 0 \<and> \<not> dflag v \<and> \<not> wflag v"
  using unat_parts[of v] by (auto simp: unat_eq_zero)

end
