(* ===== verification/ObjC_Refcount.thy ===== *)
theory ObjC_Refcount
  imports ObjC_SideTable
begin

text \<open>
  Reference counting of one object by concurrent threads (the retain, release, weak and dealloc paths of
  runtime/objc-object.h and runtime/NSObject.mm). Every access to shared memory, the isa word, the word of the object
  in the side table, the weak variables and the spinlock of the side table, is one step; a thread's program counter
  carries the local variables of the C++ function it executes, so all interleavings of the threads are sequences of
  steps. A store-exclusive fails when the isa word is no longer the one loaded, and may fail spuriously as the
  load-linked/store-conditional pairs of ARM do. The fast and slow variants of retain and release are one function
  here as in the source, told apart by \<open>handleOverflow\<close> and \<open>handleUnderflow\<close>.
  The word in the side table stands for its map entry, as the theory of the side table justifies.
\<close>

section \<open>State\<close>

text \<open>Program counters, one datatype per function. \<open>Lock p\<close> waits for the spinlock and goes on at \<open>p\<close>.\<close>

datatype retain_pc =
    RetainLoad bool bool bool            \<comment> \<open>tryRetain, handleOverflow, sideTableLocked\<close>
  | RetainStore bool bool u64 u64 bool bool  \<comment> \<open>oldisa, newisa, sideTableLocked, transcribeToSideTable\<close>
  | RetainTranscribe bool bool

datatype release_pc =
    ReleaseLoad bool bool                \<comment> \<open>handleUnderflow, sideTableLocked\<close>
  | ReleaseStore bool u64 u64 bool       \<comment> \<open>handleUnderflow, oldisa, newisa, sideTableLocked\<close>
  | ReleaseBorrow u64                    \<comment> \<open>oldisa\<close>
  | ReleaseStoreBorrow u64 u64 u64       \<comment> \<open>oldisa, newisa, borrowed\<close>
  | ReleaseLoad2 u64                     \<comment> \<open>borrowed\<close>
  | ReleaseStore2 u64 u64 u64            \<comment> \<open>oldisa2, newisa2, borrowed\<close>
  | ReleasePutBack u64                   \<comment> \<open>borrowed\<close>
  | ReleaseStoreDealloc bool u64 u64 bool

datatype side_pc = SideRetain | SideTryRetain | SideRelease | SideCount

datatype change_pc =
    ChangeIsaLoad ptr bool               \<comment> \<open>newCls, sideTableLocked\<close>
  | ChangeIsaStore ptr u64 u64 bool bool \<comment> \<open>newCls, oldisa, newisa, sideTableLocked, transcribeToSideTable\<close>
  | ChangeIsaMove u64                    \<comment> \<open>oldisa\<close>

datatype assoc_pc = SetAssocLoad | SetAssocStore u64 u64

datatype 'l weak_pc =
    LoadWeak 'l | LoadWeakCheck 'l | LoadWeakResult bool
  | StoreWeakRegister 'l | SetWeakLoad 'l | SetWeakStore 'l u64 u64 | SetWeakSide 'l | StoreWeakAssign 'l
  | DestroyWeak 'l

datatype count_pc = CountLoad | CountSide u64 | CountResult u64

datatype dealloc_pc = DeallocRoot | ClearDeallocating | ClearSlowWeak | ClearSlowRC | ClearRaw | FreeObject

datatype 'l pc = Idle | Lock "'l pc" | Unlock "'l pc" | Retain retain_pc | Release release_pc | Side side_pc
  | Change change_pc | Assoc assoc_pc | Weak "'l weak_pc" | Count count_pc | Dealloc dealloc_pc
  | Overrelease | AssertionFailure

text \<open>The life of the object: \<open>InDealloc t\<close> while thread \<open>t\<close> runs its \<open>-dealloc\<close> method, up to \<open>rootDealloc\<close>.\<close>

datatype 't life = Alive | InDealloc 't | Disposing 't | Freed

text \<open>
  \<open>weakvars\<close> are the weak variables registered for the object. \<open>owned\<close> is a ghost variable: the references each thread
  holds. It changes in the step that changes the count.
\<close>

record ('t, 'l) rstate =
  isa_bits :: u64
  refcnt :: u64
  slock :: "'t option"
  weakvars :: "'l set"
  pc :: "'t \<Rightarrow> 'l pc"
  life :: "'t life"
  owned :: "'t \<Rightarrow> nat"

definition goto :: "'t \<Rightarrow> 'l pc \<Rightarrow> ('t, 'l) rstate \<Rightarrow> ('t, 'l) rstate" where
  "goto t p s = s\<lparr>pc := (pc s)(t := p)\<rparr>"

definition gain :: "'t \<Rightarrow> ('t, 'l) rstate \<Rightarrow> ('t, 'l) rstate" where
  "gain t s = s\<lparr>owned := (owned s)(t := owned s t + 1)\<rparr>"

definition lose :: "'t \<Rightarrow> ('t, 'l) rstate \<Rightarrow> ('t, 'l) rstate" where
  "lose t s = s\<lparr>owned := (owned s)(t := owned s t - 1)\<rparr>"

definition StoreExclusive :: "bool \<Rightarrow> u64 \<Rightarrow> ('t, 'l) rstate \<Rightarrow> bool" where
  "StoreExclusive sc oldvalue s = (isa_bits s = oldvalue \<and> sc)"

section \<open>Retain (objc-object.h)\<close>

text \<open>Where \<open>rootRetain\<close> goes on success: back to the weak load for \<open>rootTryRetain\<close>, whose caller holds the lock.\<close>

definition retain_exit :: "bool \<Rightarrow> bool \<Rightarrow> 'l pc" where
  "retain_exit tryRetain locked =
     (if tryRetain then Weak (LoadWeakResult True) else if locked then Unlock Idle else Idle)"

fun rootRetain :: "arch \<Rightarrow> 't \<Rightarrow> bool \<Rightarrow> retain_pc \<Rightarrow> ('t, 'l) rstate \<Rightarrow> ('t, 'l) rstate" where
  "rootRetain A t sc (RetainLoad tryRetain handleOverflow locked) s =
     (let oldisa = isa_bits s in
      if \<not> nonpointer A oldisa then
        goto t (if tryRetain then Side SideTryRetain
                else if locked then Unlock (Lock (Side SideRetain)) else Lock (Side SideRetain)) s
      else if tryRetain \<and> deallocating A oldisa then goto t (Weak (LoadWeakResult False)) s
      else
        let (newisa, carry) = addc oldisa (RC_ONE A) 0 in
        if carry then
          if \<not> handleOverflow then goto t (Retain (RetainLoad tryRetain True False)) s
          else
            let newisa = set_flag A F_has_sidetable_rc True (set_field A F_extra_rc (RC_HALF A) newisa);
                next = Retain (RetainStore tryRetain handleOverflow oldisa newisa True True)
            in goto t (if \<not> tryRetain \<and> \<not> locked then Lock next else next) s
        else goto t (Retain (RetainStore tryRetain handleOverflow oldisa newisa locked False)) s)"
| "rootRetain A t sc (RetainStore tryRetain handleOverflow oldisa newisa locked transcribe) s =
     (if StoreExclusive sc oldisa s then
        goto t (if transcribe then Retain (RetainTranscribe tryRetain locked) else retain_exit tryRetain locked)
          (gain t (s\<lparr>isa_bits := newisa\<rparr>))
      else goto t (Retain (RetainLoad tryRetain handleOverflow locked)) s)"
| "rootRetain A t sc (RetainTranscribe tryRetain locked) s =
     (if \<not> nonpointer A (isa_bits s) then goto t AssertionFailure s
      else case addExtraRC (RC_HALF A) (refcnt s) of
        None \<Rightarrow> goto t AssertionFailure s
      | Some (v, _) \<Rightarrow> goto t (retain_exit tryRetain locked) (s\<lparr>refcnt := v\<rparr>))"

section \<open>Release (objc-object.h)\<close>

definition die :: "'t \<Rightarrow> ('t, 'l) rstate \<Rightarrow> ('t, 'l) rstate" where
  "die t s = s\<lparr>life := InDealloc t\<rparr>"

text \<open>The part of \<open>rootRelease\<close> headed \<open>Really deallocate\<close>, up to its store.\<close>

definition really_deallocate :: "arch \<Rightarrow> 't \<Rightarrow> bool \<Rightarrow> u64 \<Rightarrow> bool \<Rightarrow> ('t, 'l) rstate \<Rightarrow> ('t, 'l) rstate" where
  "really_deallocate A t handleUnderflow oldisa locked s =
     (if deallocating A oldisa then goto t (if locked then Unlock Overrelease else Overrelease) s
      else goto t (Release (ReleaseStoreDealloc handleUnderflow oldisa (set_flag A F_deallocating True oldisa) locked)) s)"

text \<open>When the function returns true the caller, or the function itself, sends \<open>-dealloc\<close>.\<close>

fun rootRelease :: "arch \<Rightarrow> 't \<Rightarrow> bool \<Rightarrow> release_pc \<Rightarrow> ('t, 'l) rstate \<Rightarrow> ('t, 'l) rstate" where
  "rootRelease A t sc (ReleaseLoad handleUnderflow locked) s =
     (let oldisa = isa_bits s in
      if \<not> nonpointer A oldisa then
        goto t (if locked then Unlock (Lock (Side SideRelease)) else Lock (Side SideRelease)) s
      else
        let (newisa, carry) = subc oldisa (RC_ONE A) 0 in
        if \<not> carry then goto t (Release (ReleaseStore handleUnderflow oldisa newisa locked)) s
        else if has_sidetable_rc A oldisa then
          if \<not> handleUnderflow then goto t (Release (ReleaseLoad True False)) s
          else if \<not> locked then goto t (Lock (Release (ReleaseLoad handleUnderflow True))) s
          else goto t (Release (ReleaseBorrow oldisa)) s
        else really_deallocate A t handleUnderflow oldisa locked s)"
| "rootRelease A t sc (ReleaseStore handleUnderflow oldisa newisa locked) s =
     (if StoreExclusive sc oldisa s then
        goto t (if locked then Unlock Idle else Idle) (lose t (s\<lparr>isa_bits := newisa\<rparr>))
      else goto t (Release (ReleaseLoad handleUnderflow locked)) s)"
| "rootRelease A t sc (ReleaseBorrow oldisa) s =
     (if \<not> nonpointer A (isa_bits s) then goto t AssertionFailure s
      else case subExtraRC (RC_HALF A) (Some (refcnt s)) of
        None \<Rightarrow> goto t AssertionFailure s
      | Some (w, borrowed) \<Rightarrow>
          let s = (case w of None \<Rightarrow> s | Some v \<Rightarrow> s\<lparr>refcnt := v\<rparr>)
          in if borrowed > 0
             then goto t (Release (ReleaseStoreBorrow oldisa (set_field A F_extra_rc (borrowed - 1) oldisa) borrowed)) s
             else really_deallocate A t True oldisa True s)"
| "rootRelease A t sc (ReleaseStoreBorrow oldisa newisa borrowed) s =
     (if StoreExclusive sc oldisa s then goto t (Unlock Idle) (lose t (s\<lparr>isa_bits := newisa\<rparr>))
      else goto t (Release (ReleaseLoad2 borrowed)) s)"
| "rootRelease A t sc (ReleaseLoad2 borrowed) s =
     (let oldisa2 = isa_bits s in
      if nonpointer A oldisa2 then
        let (newisa2, overflow) = addc oldisa2 (RC_ONE A * (borrowed - 1)) 0
        in if \<not> overflow then goto t (Release (ReleaseStore2 oldisa2 newisa2 borrowed)) s
           else goto t (Release (ReleasePutBack borrowed)) s
      else goto t (Release (ReleasePutBack borrowed)) s)"
| "rootRelease A t sc (ReleaseStore2 oldisa2 newisa2 borrowed) s =
     (if StoreExclusive sc oldisa2 s then goto t (Unlock Idle) (lose t (s\<lparr>isa_bits := newisa2\<rparr>))
      else goto t (Release (ReleasePutBack borrowed)) s)"
| "rootRelease A t sc (ReleasePutBack borrowed) s =
     (if \<not> nonpointer A (isa_bits s) then goto t AssertionFailure s
      else case addExtraRC borrowed (refcnt s) of
        None \<Rightarrow> goto t AssertionFailure s
      | Some (v, _) \<Rightarrow> goto t (Release (ReleaseLoad True True)) (s\<lparr>refcnt := v\<rparr>))"
| "rootRelease A t sc (ReleaseStoreDealloc handleUnderflow oldisa newisa locked) s =
     (if StoreExclusive sc oldisa s then
        goto t (if locked then Unlock Idle else Idle) (die t (lose t (s\<lparr>isa_bits := newisa\<rparr>)))
      else goto t (Release (ReleaseLoad handleUnderflow locked)) s)"

section \<open>Raw isa: the count in the side table (NSObject.mm)\<close>

text \<open>Each function between taking and dropping the spinlock; \<open>sidetable_tryRetain\<close> runs under its caller's lock.\<close>

fun side_step :: "arch \<Rightarrow> 't \<Rightarrow> side_pc \<Rightarrow> ('t, 'l) rstate \<Rightarrow> ('t, 'l) rstate" where
  "side_step A t SideRetain s =
     (if nonpointer A (isa_bits s) then goto t AssertionFailure s
      else case retain_word (refcnt s) of
        None \<Rightarrow> goto t AssertionFailure s
      | Some (v, _) \<Rightarrow> goto t (Unlock Idle) (gain t (s\<lparr>refcnt := v\<rparr>)))"
| "side_step A t SideTryRetain s =
     (if nonpointer A (isa_bits s) then goto t AssertionFailure s
      else case tryRetain_word (Some (refcnt s)) of
        None \<Rightarrow> goto t AssertionFailure s
      | Some (w, r) \<Rightarrow>
          let s = (case w of None \<Rightarrow> s | Some v \<Rightarrow> s\<lparr>refcnt := v\<rparr>)
          in goto t (Weak (LoadWeakResult r)) (if r then gain t s else s))"
| "side_step A t SideRelease s =
     (if nonpointer A (isa_bits s) then goto t AssertionFailure s
      else case release_word (Some (refcnt s)) of
        None \<Rightarrow> goto t AssertionFailure s
      | Some (w, do_dealloc) \<Rightarrow>
          let s = lose t (case w of None \<Rightarrow> s | Some v \<Rightarrow> s\<lparr>refcnt := v\<rparr>)
          in goto t (Unlock Idle) (if do_dealloc then die t s else s))"
| "side_step A t SideCount s =
     (case retainCount_word (Some (refcnt s)) of
        None \<Rightarrow> goto t AssertionFailure s
      | Some (_, n) \<Rightarrow> goto t (Unlock (Count (CountResult n))) s)"

section \<open>Changing the isa word (objc-object.h)\<close>

fun changeIsa :: "arch \<Rightarrow> (ptr \<Rightarrow> class_info) \<Rightarrow> 't \<Rightarrow> bool \<Rightarrow> change_pc \<Rightarrow> ('t, 'l) rstate \<Rightarrow> ('t, 'l) rstate" where
  "changeIsa A info t sc (ChangeIsaLoad newCls locked) s =
     (let oldisa = isa_bits s;
          (newisa, transcribe) = changeIsa_word A info newCls oldisa
      in if transcribe \<and> \<not> locked then goto t (Lock (Change (ChangeIsaStore newCls oldisa newisa True True))) s
         else goto t (Change (ChangeIsaStore newCls oldisa newisa locked transcribe)) s)"
| "changeIsa A info t sc (ChangeIsaStore newCls oldisa newisa locked transcribe) s =
     (if StoreExclusive sc oldisa s then
        goto t (if transcribe then Change (ChangeIsaMove oldisa) else if locked then Unlock Idle else Idle)
          (s\<lparr>isa_bits := newisa\<rparr>)
      else goto t (Change (ChangeIsaLoad newCls locked)) s)"
| "changeIsa A info t sc (ChangeIsaMove oldisa) s =
     (if nonpointer A (isa_bits s) then goto t AssertionFailure s
      else case moveExtraRC (extra_rc A oldisa) (deallocating A oldisa) (weakly_referenced A oldisa) (refcnt s) of
        None \<Rightarrow> goto t AssertionFailure s
      | Some (v, _) \<Rightarrow> goto t (Unlock Idle) (s\<lparr>refcnt := v\<rparr>))"

fun setHasAssociatedObjects :: "arch \<Rightarrow> 't \<Rightarrow> bool \<Rightarrow> assoc_pc \<Rightarrow> ('t, 'l) rstate \<Rightarrow> ('t, 'l) rstate" where
  "setHasAssociatedObjects A t sc SetAssocLoad s =
     (let oldisa = isa_bits s in
      if \<not> nonpointer A oldisa \<or> has_assoc A oldisa then goto t Idle s
      else goto t (Assoc (SetAssocStore oldisa (set_flag A F_has_assoc True oldisa))) s)"
| "setHasAssociatedObjects A t sc (SetAssocStore oldisa newisa) s =
     (if StoreExclusive sc oldisa s then goto t Idle (s\<lparr>isa_bits := newisa\<rparr>)
      else goto t (Assoc SetAssocLoad) s)"

section \<open>Weak variables (NSObject.mm, objc-object.h)\<close>

definition rootIsDeallocating :: "arch \<Rightarrow> ('t, 'l) rstate \<Rightarrow> bool" where
  "rootIsDeallocating A s =
     (if nonpointer A (isa_bits s) then deallocating A (isa_bits s) else has (refcnt s) SIDE_TABLE_DEALLOCATING)"

text \<open>
  \<open>objc_loadWeakRetained\<close> for a class without retain overrides, \<open>storeWeak\<close> of the object into a fresh variable
  (\<open>objc_initWeakOrNil\<close>, with \<open>setWeaklyReferenced_nolock\<close>), and \<open>objc_destroyWeak\<close>.
\<close>

fun weak_step :: "arch \<Rightarrow> 't \<Rightarrow> bool \<Rightarrow> 'l weak_pc \<Rightarrow> ('t, 'l) rstate \<Rightarrow> ('t, 'l) rstate" where
  "weak_step A t sc (LoadWeak l) s = goto t (if l \<notin> weakvars s then Idle else Lock (Weak (LoadWeakCheck l))) s"
| "weak_step A t sc (LoadWeakCheck l) s =
     goto t (if l \<notin> weakvars s then Unlock (Weak (LoadWeak l)) else Retain (RetainLoad True False False)) s"
| "weak_step A t sc (LoadWeakResult r) s = goto t (Unlock Idle) s"
| "weak_step A t sc (StoreWeakRegister l) s =
     goto t (if rootIsDeallocating A s then Unlock Idle else Weak (SetWeakLoad l)) s"
| "weak_step A t sc (SetWeakLoad l) s =
     (let oldisa = isa_bits s in
      if \<not> nonpointer A oldisa then goto t (Weak (SetWeakSide l)) s
      else if weakly_referenced A oldisa then goto t (Weak (StoreWeakAssign l)) s
      else goto t (Weak (SetWeakStore l oldisa (set_flag A F_weakly_referenced True oldisa))) s)"
| "weak_step A t sc (SetWeakStore l oldisa newisa) s =
     (if StoreExclusive sc oldisa s then goto t (Weak (StoreWeakAssign l)) (s\<lparr>isa_bits := newisa\<rparr>)
      else goto t (Weak (SetWeakLoad l)) s)"
| "weak_step A t sc (SetWeakSide l) s =
     (if nonpointer A (isa_bits s) then goto t AssertionFailure s
      else case setWeaklyReferenced_word (refcnt s) of
        None \<Rightarrow> goto t AssertionFailure s
      | Some (v, _) \<Rightarrow> goto t (Weak (StoreWeakAssign l)) (s\<lparr>refcnt := v\<rparr>))"
| "weak_step A t sc (StoreWeakAssign l) s = goto t (Unlock Idle) (s\<lparr>weakvars := insert l (weakvars s)\<rparr>)"
| "weak_step A t sc (DestroyWeak l) s = goto t (Unlock Idle) (s\<lparr>weakvars := weakvars s - {l}\<rparr>)"

section \<open>Counting and deallocating (objc-object.h, NSObject.mm)\<close>

fun rootRetainCount :: "arch \<Rightarrow> 't \<Rightarrow> count_pc \<Rightarrow> ('t, 'l) rstate \<Rightarrow> ('t, 'l) rstate" where
  "rootRetainCount A t CountLoad s =
     (let bits = isa_bits s in
      if nonpointer A bits then
        let rc = 1 + extra_rc A bits
        in goto t (if has_sidetable_rc A bits then Count (CountSide rc) else Unlock (Count (CountResult rc))) s
      else goto t (Unlock (Lock (Side SideCount))) s)"
| "rootRetainCount A t (CountSide rc) s =
     (if \<not> nonpointer A (isa_bits s) then goto t AssertionFailure s
      else case getExtraRC (Some (refcnt s)) of
        None \<Rightarrow> goto t AssertionFailure s
      | Some (_, n) \<Rightarrow> goto t (Unlock (Count (CountResult (rc + n)))) s)"
| "rootRetainCount A t (CountResult rc) s = goto t Idle s"

text \<open>
  \<open>rootDealloc\<close>, then through \<open>object_dispose\<close> \<open>clearDeallocating\<close>, \<open>clearDeallocating_slow\<close> and
  \<open>sidetable_clearDeallocating\<close>, then \<open>free\<close>.
\<close>

fun rootDealloc :: "arch \<Rightarrow> 't \<Rightarrow> dealloc_pc \<Rightarrow> ('t, 'l) rstate \<Rightarrow> ('t, 'l) rstate" where
  "rootDealloc A t DeallocRoot s =
     (let isa = isa_bits s in
      if nonpointer A isa \<and> \<not> weakly_referenced A isa \<and> \<not> has_assoc A isa \<and> \<not> has_cxx_dtor A isa \<and>
         \<not> has_sidetable_rc A isa
      then goto t (Dealloc FreeObject) s
      else goto t (Dealloc ClearDeallocating) s)"
| "rootDealloc A t ClearDeallocating s =
     (let isa = isa_bits s in
      if \<not> nonpointer A isa then goto t (Lock (Dealloc ClearRaw)) s
      else if weakly_referenced A isa \<or> has_sidetable_rc A isa then goto t (Lock (Dealloc ClearSlowWeak)) s
      else goto t (Dealloc FreeObject) s)"
| "rootDealloc A t ClearSlowWeak s =
     goto t (Dealloc ClearSlowRC) (if weakly_referenced A (isa_bits s) then s\<lparr>weakvars := {}\<rparr> else s)"
| "rootDealloc A t ClearSlowRC s =
     goto t (Unlock (Dealloc FreeObject)) (if has_sidetable_rc A (isa_bits s) then s\<lparr>refcnt := 0\<rparr> else s)"
| "rootDealloc A t ClearRaw s =
     goto t (Unlock (Dealloc FreeObject))
       (s\<lparr>weakvars := if has (refcnt s) SIDE_TABLE_WEAKLY_REFERENCED then {} else weakvars s, refcnt := 0\<rparr>)"
| "rootDealloc A t FreeObject s = goto t Idle (s\<lparr>life := Freed\<rparr>)"

section \<open>Steps\<close>

text \<open>One step of a thread; \<open>None\<close> when it waits for the spinlock or has nothing to do.\<close>

definition thread_step ::
  "arch \<Rightarrow> (ptr \<Rightarrow> class_info) \<Rightarrow> 't \<Rightarrow> bool \<Rightarrow> ('t, 'l) rstate \<Rightarrow> ('t, 'l) rstate option" where
  "thread_step A info t sc s =
     (case pc s t of
        Idle \<Rightarrow> None
      | Lock p \<Rightarrow> if slock s = None then Some (goto t p (s\<lparr>slock := Some t\<rparr>)) else None
      | Unlock p \<Rightarrow> Some (goto t p (s\<lparr>slock := None\<rparr>))
      | Retain p \<Rightarrow> Some (rootRetain A t sc p s)
      | Release p \<Rightarrow> Some (rootRelease A t sc p s)
      | Side p \<Rightarrow> Some (side_step A t p s)
      | Change p \<Rightarrow> Some (changeIsa A info t sc p s)
      | Assoc p \<Rightarrow> Some (setHasAssociatedObjects A t sc p s)
      | Weak p \<Rightarrow> Some (weak_step A t sc p s)
      | Count p \<Rightarrow> Some (rootRetainCount A t p s)
      | Dealloc p \<Rightarrow> Some (rootDealloc A t p s)
      | Overrelease \<Rightarrow> None
      | AssertionFailure \<Rightarrow> None)"

text \<open>
  What client code may start. A thread uses the object only through a reference it owns, or inside the object's
  \<open>-dealloc\<close>; it releases only references it owns; weak variables may be read by any thread at any time.
  \<open>-dealloc\<close> gives up the references it took before it calls \<open>rootDealloc\<close>.
\<close>

definition may_use :: "('t, 'l) rstate \<Rightarrow> 't \<Rightarrow> bool" where
  "may_use s t = (owned s t > 0 \<or> life s = InDealloc t)"

inductive step :: "arch \<Rightarrow> (ptr \<Rightarrow> class_info) \<Rightarrow> ('t, 'l) rstate \<Rightarrow> ('t, 'l) rstate \<Rightarrow> bool"
  for A :: arch and info :: "ptr \<Rightarrow> class_info" where
  run: "thread_step A info t sc s = Some s' \<Longrightarrow> step A info s s'"
| retain: "pc s t = Idle \<Longrightarrow> may_use s t \<Longrightarrow> step A info s (goto t (Retain (RetainLoad False False False)) s)"
| release: "pc s t = Idle \<Longrightarrow> owned s t > 0 \<Longrightarrow> step A info s (goto t (Release (ReleaseLoad False False)) s)"
| pass: "pc s t = Idle \<Longrightarrow> owned s t > 0 \<Longrightarrow> life s = Alive \<Longrightarrow> step A info s (gain t' (lose t s))"
| load_weak: "pc s t = Idle \<Longrightarrow> step A info s (goto t (Weak (LoadWeak l)) s)"
| store_weak: "pc s t = Idle \<Longrightarrow> may_use s t \<Longrightarrow> step A info s (goto t (Lock (Weak (StoreWeakRegister l))) s)"
| destroy_weak: "pc s t = Idle \<Longrightarrow> step A info s (goto t (Lock (Weak (DestroyWeak l))) s)"
| change_isa: "pc s t = Idle \<Longrightarrow> may_use s t \<Longrightarrow> class_ptr A newCls \<Longrightarrow>
    step A info s (goto t (Change (ChangeIsaLoad newCls False)) s)"
| set_assoc: "pc s t = Idle \<Longrightarrow> may_use s t \<Longrightarrow> step A info s (goto t (Assoc SetAssocLoad) s)"
| retain_count: "pc s t = Idle \<Longrightarrow> may_use s t \<Longrightarrow> step A info s (goto t (Lock (Count CountLoad)) s)"
| dealloc: "pc s t = Idle \<Longrightarrow> life s = InDealloc t \<Longrightarrow> owned s t = 0 \<Longrightarrow>
    step A info s (goto t (Dealloc DeallocRoot) (s\<lparr>life := Disposing t\<rparr>))"

text \<open>
  A new object belongs to the thread that allocated it. Executions are bounded only by \<open>2 ^ 59\<close> references
  outstanding at a time, far below the width of the side table's count.
\<close>

definition new_object :: "arch \<Rightarrow> ptr \<Rightarrow> bool \<Rightarrow> bool \<Rightarrow> 't \<Rightarrow> ('t, 'l) rstate" where
  "new_object A cls np dtor t =
     \<lparr>isa_bits = initIsa A cls np dtor, refcnt = 0, slock = None, weakvars = {}, pc = (\<lambda>_. Idle), life = Alive,
      owned = (\<lambda>u. if u = t then 1 else 0)\<rparr>"

definition references :: "('t::finite, 'l) rstate \<Rightarrow> nat" where
  "references s = (\<Sum>t\<in>UNIV. owned s t)"

inductive reachable :: "arch \<Rightarrow> (ptr \<Rightarrow> class_info) \<Rightarrow> ('t::finite, 'l) rstate \<Rightarrow> bool"
  for A :: arch and info :: "ptr \<Rightarrow> class_info" where
  new: "class_ptr A cls \<Longrightarrow> reachable A info (new_object A cls np dtor t)"
| step: "reachable A info s \<Longrightarrow> step A info s s' \<Longrightarrow> references s' \<le> 2 ^ 59 \<Longrightarrow> reachable A info s'"

end
