(* ===== verification/ObjC_Refcount_Inv.thy ===== *)
theory ObjC_Refcount_Inv
  imports ObjC_Refcount
begin

text \<open>
  The invariant of concurrent reference counting, and that every step keeps it. The invariant says who holds the
  spinlock, what each thread knows at its program counter, and that the counts in the isa word and in the side table,
  with those the lock holder is moving, add up to the references the threads own.
\<close>

section \<open>Invariant\<close>

text \<open>Whether a program counter stands inside the spinlock of the side table.\<close>

fun holds :: "'l pc \<Rightarrow> bool" where
  "holds Idle = False"
| "holds (Lock p) = False"
| "holds (Unlock p) = True"
| "holds (Retain (RetainLoad try h lk)) = (try \<or> lk)"
| "holds (Retain (RetainStore try h old new lk tr)) = (try \<or> lk)"
| "holds (Retain (RetainTranscribe try lk)) = True"
| "holds (Release (ReleaseLoad h lk)) = lk"
| "holds (Release (ReleaseStore h old new lk)) = lk"
| "holds (Release (ReleaseBorrow old)) = True"
| "holds (Release (ReleaseStoreBorrow old new b)) = True"
| "holds (Release (ReleaseLoad2 b)) = True"
| "holds (Release (ReleaseStore2 old new b)) = True"
| "holds (Release (ReleasePutBack b)) = True"
| "holds (Release (ReleaseStoreDealloc h old new lk)) = lk"
| "holds (Side p) = True"
| "holds (Change (ChangeIsaLoad cls lk)) = lk"
| "holds (Change (ChangeIsaStore cls old new lk tr)) = lk"
| "holds (Change (ChangeIsaMove old)) = True"
| "holds (Assoc p) = False"
| "holds (Weak (LoadWeak l)) = False"
| "holds (Weak (LoadWeakCheck l)) = True"
| "holds (Weak (LoadWeakResult r)) = True"
| "holds (Weak (StoreWeakRegister l)) = True"
| "holds (Weak (SetWeakLoad l)) = True"
| "holds (Weak (SetWeakStore l old new)) = True"
| "holds (Weak (SetWeakSide l)) = True"
| "holds (Weak (StoreWeakAssign l)) = True"
| "holds (Weak (DestroyWeak l)) = True"
| "holds (Count CountLoad) = True"
| "holds (Count (CountSide rc)) = True"
| "holds (Count (CountResult rc)) = False"
| "holds (Dealloc DeallocRoot) = False"
| "holds (Dealloc ClearDeallocating) = False"
| "holds (Dealloc ClearSlowWeak) = True"
| "holds (Dealloc ClearSlowRC) = True"
| "holds (Dealloc ClearRaw) = True"
| "holds (Dealloc FreeObject) = False"
| "holds Overrelease = False"
| "holds AssertionFailure = False"

text \<open>Counts the lock holder has taken out of the isa word or the side table and not yet put into the other.\<close>

fun pend_release :: "release_pc \<Rightarrow> nat" where
  "pend_release (ReleaseLoad h lk) = 0"
| "pend_release (ReleaseStore h old new lk) = 0"
| "pend_release (ReleaseBorrow old) = 0"
| "pend_release (ReleaseStoreBorrow old new b) = unat b"
| "pend_release (ReleaseLoad2 b) = unat b"
| "pend_release (ReleaseStore2 old new b) = unat b"
| "pend_release (ReleasePutBack b) = unat b"
| "pend_release (ReleaseStoreDealloc h old new lk) = 0"

fun pend_retain :: "arch \<Rightarrow> retain_pc \<Rightarrow> nat" where
  "pend_retain A (RetainLoad try h lk) = 0"
| "pend_retain A (RetainStore try h old new lk tr) = 0"
| "pend_retain A (RetainTranscribe try lk) = unat (RC_HALF A)"

fun moved :: "change_pc \<Rightarrow> u64 option" where
  "moved (ChangeIsaLoad cls lk) = None"
| "moved (ChangeIsaStore cls old new lk tr) = None"
| "moved (ChangeIsaMove old) = Some old"

definition moving :: "'l pc \<Rightarrow> u64 option" where
  "moving p = (case p of Change q \<Rightarrow> moved q | _ \<Rightarrow> None)"

definition pend :: "arch \<Rightarrow> 'l pc \<Rightarrow> nat" where
  "pend A p =
     (case p of
        Retain q \<Rightarrow> pend_retain A q
      | Release q \<Rightarrow> pend_release q
      | Change q \<Rightarrow> (case moved q of None \<Rightarrow> 0 | Some old \<Rightarrow> xrc A old)
      | _ \<Rightarrow> 0)"

definition hold :: "('t, 'l) rstate \<Rightarrow> 'l pc" where
  "hold s = (case slock s of None \<Rightarrow> Idle | Some t \<Rightarrow> pc s t)"

text \<open>The deallocating and weakly-referenced flags, wherever they are at the moment.\<close>

definition dealloc_flag :: "arch \<Rightarrow> ('t, 'l) rstate \<Rightarrow> 'l pc \<Rightarrow> bool" where
  "dealloc_flag A s h =
     (if nonpointer A (isa_bits s) then deallocating A (isa_bits s)
      else case moving h of Some old \<Rightarrow> deallocating A old | None \<Rightarrow> dflag (refcnt s))"

definition weak_flag :: "arch \<Rightarrow> ('t, 'l) rstate \<Rightarrow> 'l pc \<Rightarrow> bool" where
  "weak_flag A s h =
     (if nonpointer A (isa_bits s) then weakly_referenced A (isa_bits s)
      else case moving h of Some old \<Rightarrow> weakly_referenced A old | None \<Rightarrow> wflag (refcnt s))"

text \<open>What holds of the shared state while the lock holder stands at \<open>h\<close>.\<close>

definition ginv :: "arch \<Rightarrow> ('t::finite, 'l) rstate \<Rightarrow> 'l pc \<Rightarrow> bool" where
  "ginv A s h =
     (1 + (if nonpointer A (isa_bits s) then xrc A (isa_bits s) else 0) + cnt (refcnt s) + pend A h =
        references s + (if life s = Alive then 0 else 1) \<and>
      (nonpointer A (isa_bits s) \<longrightarrow> moving h = None \<and> \<not> dflag (refcnt s) \<and> \<not> wflag (refcnt s) \<and>
         unat (RC_HALF A) dvd cnt (refcnt s) \<and> (has_sidetable_rc A (isa_bits s) \<or> refcnt s = 0 \<and> pend A h = 0)) \<and>
      (\<forall>old. moving h = Some old \<longrightarrow> \<not> dflag (refcnt s) \<and> \<not> wflag (refcnt s)) \<and>
      isa_bits s \<noteq> 0 \<and>
      (life s = Alive \<longrightarrow> \<not> dealloc_flag A s h) \<and>
      (life s \<noteq> Alive \<and> ((\<exists>t. life s = InDealloc t) \<or> weakvars s \<noteq> {}) \<longrightarrow> dealloc_flag A s h) \<and>
      (weakvars s \<noteq> {} \<longrightarrow> weak_flag A s h) \<and>
      (\<forall>d. life s = InDealloc d \<longrightarrow> (\<forall>t. t \<noteq> d \<longrightarrow> owned s t = 0)) \<and>
      ((\<exists>d. life s = Disposing d) \<or> life s = Freed \<longrightarrow> (\<forall>t. owned s t = 0)) \<and>
      (life s = Freed \<longrightarrow> weakvars s = {}))"

text \<open>What a thread knows at its program counter.\<close>

definition same_flags :: "arch \<Rightarrow> u64 \<Rightarrow> u64 \<Rightarrow> bool" where
  "same_flags A old new =
     (nonpointer A old \<and> nonpointer A new \<and> deallocating A new = deallocating A old \<and>
      weakly_referenced A new = weakly_referenced A old \<and> has_sidetable_rc A new = has_sidetable_rc A old)"

fun knows_retain :: "arch \<Rightarrow> 't \<Rightarrow> ('t, 'l) rstate \<Rightarrow> retain_pc \<Rightarrow> bool" where
  "knows_retain A t s (RetainLoad try h lk) = ((if try then weakvars s \<noteq> {} else may_use s t) \<and> (lk \<longrightarrow> h))"
| "knows_retain A t s (RetainStore try h old new lk tr) =
     ((if try then weakvars s \<noteq> {} \<and> \<not> deallocating A old else may_use s t) \<and> (lk \<longrightarrow> h) \<and>
      (if tr then (try \<or> lk) \<and> nonpointer A old \<and> nonpointer A new \<and> deallocating A new = deallocating A old \<and>
         weakly_referenced A new = weakly_referenced A old \<and> has_sidetable_rc A new \<and>
         xrc A old + 1 = xmax A \<and> xrc A new = unat (RC_HALF A)
       else same_flags A old new \<and> xrc A new = xrc A old + 1))"
| "knows_retain A t s (RetainTranscribe try lk) =
     ((try \<or> lk) \<and> owned s t > 0 \<and> nonpointer A (isa_bits s) \<and> has_sidetable_rc A (isa_bits s))"

fun knows_release :: "arch \<Rightarrow> 't \<Rightarrow> ('t, 'l) rstate \<Rightarrow> release_pc \<Rightarrow> bool" where
  "knows_release A t s (ReleaseLoad h lk) = (owned s t > 0 \<and> (lk \<longrightarrow> h))"
| "knows_release A t s (ReleaseStore h old new lk) =
     (owned s t > 0 \<and> (lk \<longrightarrow> h) \<and> same_flags A old new \<and> xrc A new + 1 = xrc A old)"
| "knows_release A t s (ReleaseBorrow old) =
     (owned s t > 0 \<and> nonpointer A old \<and> has_sidetable_rc A old \<and> xrc A old = 0 \<and> nonpointer A (isa_bits s) \<and>
      has_sidetable_rc A (isa_bits s) \<and> (deallocating A old \<longrightarrow> refcnt s \<noteq> 0))"
| "knows_release A t s (ReleaseStoreBorrow old new b) =
     (owned s t > 0 \<and> b = RC_HALF A \<and> same_flags A old new \<and> has_sidetable_rc A old \<and> xrc A old = 0 \<and>
      xrc A new + 1 = unat b \<and> nonpointer A (isa_bits s) \<and> has_sidetable_rc A (isa_bits s))"
| "knows_release A t s (ReleaseLoad2 b) =
     (owned s t > 0 \<and> b = RC_HALF A \<and> nonpointer A (isa_bits s) \<and> has_sidetable_rc A (isa_bits s))"
| "knows_release A t s (ReleaseStore2 old new b) =
     (owned s t > 0 \<and> b = RC_HALF A \<and> same_flags A old new \<and> xrc A new + 1 = xrc A old + unat b \<and>
      nonpointer A (isa_bits s) \<and> has_sidetable_rc A (isa_bits s))"
| "knows_release A t s (ReleasePutBack b) =
     (owned s t > 0 \<and> b = RC_HALF A \<and> nonpointer A (isa_bits s) \<and> has_sidetable_rc A (isa_bits s))"
| "knows_release A t s (ReleaseStoreDealloc h old new lk) =
     (owned s t > 0 \<and> (lk \<longrightarrow> h) \<and> nonpointer A old \<and> \<not> deallocating A old \<and> xrc A old = 0 \<and>
      new = set_flag A F_deallocating True old \<and> (has_sidetable_rc A old \<longrightarrow> lk \<and> refcnt s = 0))"

fun knows_side :: "arch \<Rightarrow> 't \<Rightarrow> ('t, 'l) rstate \<Rightarrow> side_pc \<Rightarrow> bool" where
  "knows_side A t s SideRetain = (may_use s t \<and> \<not> nonpointer A (isa_bits s))"
| "knows_side A t s SideTryRetain = (weakvars s \<noteq> {} \<and> \<not> nonpointer A (isa_bits s))"
| "knows_side A t s SideRelease = (owned s t > 0 \<and> \<not> nonpointer A (isa_bits s))"
| "knows_side A t s SideCount = (may_use s t \<and> \<not> nonpointer A (isa_bits s))"

fun knows_change :: "arch \<Rightarrow> (ptr \<Rightarrow> class_info) \<Rightarrow> 't \<Rightarrow> ('t, 'l) rstate \<Rightarrow> change_pc \<Rightarrow> bool" where
  "knows_change A info t s (ChangeIsaLoad cls lk) = (may_use s t \<and> class_ptr A cls)"
| "knows_change A info t s (ChangeIsaStore cls old new lk tr) =
     (may_use s t \<and> class_ptr A cls \<and> old \<noteq> 0 \<and> changeIsa_word A info cls old = (new, tr) \<and> (tr \<longrightarrow> lk))"
| "knows_change A info t s (ChangeIsaMove old) = (may_use s t \<and> nonpointer A old \<and> \<not> nonpointer A (isa_bits s))"

fun knows_assoc :: "arch \<Rightarrow> 't \<Rightarrow> ('t, 'l) rstate \<Rightarrow> assoc_pc \<Rightarrow> bool" where
  "knows_assoc A t s SetAssocLoad = may_use s t"
| "knows_assoc A t s (SetAssocStore old new) = (may_use s t \<and> same_flags A old new \<and> xrc A new = xrc A old)"

fun knows_weak :: "arch \<Rightarrow> 't \<Rightarrow> ('t, 'l) rstate \<Rightarrow> 'l weak_pc \<Rightarrow> bool" where
  "knows_weak A t s (LoadWeak l) = True"
| "knows_weak A t s (LoadWeakCheck l) = True"
| "knows_weak A t s (LoadWeakResult r) = True"
| "knows_weak A t s (StoreWeakRegister l) = may_use s t"
| "knows_weak A t s (SetWeakLoad l) = may_use s t"
| "knows_weak A t s (SetWeakStore l old new) =
     (may_use s t \<and> nonpointer A old \<and> new = set_flag A F_weakly_referenced True old)"
| "knows_weak A t s (SetWeakSide l) = (may_use s t \<and> \<not> nonpointer A (isa_bits s))"
| "knows_weak A t s (StoreWeakAssign l) =
     (may_use s t \<and> (if nonpointer A (isa_bits s) then weakly_referenced A (isa_bits s) else wflag (refcnt s)))"
| "knows_weak A t s (DestroyWeak l) = True"

fun knows_count :: "arch \<Rightarrow> 't \<Rightarrow> ('t, 'l) rstate \<Rightarrow> count_pc \<Rightarrow> bool" where
  "knows_count A t s CountLoad = may_use s t"
| "knows_count A t s (CountSide rc) = (may_use s t \<and> nonpointer A (isa_bits s))"
| "knows_count A t s (CountResult rc) = True"

fun knows_dealloc :: "arch \<Rightarrow> 't \<Rightarrow> ('t, 'l) rstate \<Rightarrow> dealloc_pc \<Rightarrow> bool" where
  "knows_dealloc A t s DeallocRoot = (life s = Disposing t)"
| "knows_dealloc A t s ClearDeallocating = (life s = Disposing t)"
| "knows_dealloc A t s ClearSlowWeak = (life s = Disposing t \<and> nonpointer A (isa_bits s))"
| "knows_dealloc A t s ClearSlowRC = (life s = Disposing t \<and> nonpointer A (isa_bits s) \<and> weakvars s = {})"
| "knows_dealloc A t s ClearRaw = (life s = Disposing t \<and> \<not> nonpointer A (isa_bits s))"
| "knows_dealloc A t s FreeObject = (life s = Disposing t \<and> weakvars s = {})"

text \<open>Program counters a thread may wait to enter: what it knows there does not depend on the lock.\<close>

fun lockable :: "'l pc \<Rightarrow> bool" where
  "lockable (Retain (RetainStore try h old new lk tr)) = (\<not> try)"
| "lockable (Release (ReleaseLoad h lk)) = True"
| "lockable (Side p) = (p \<noteq> SideTryRetain)"
| "lockable (Change (ChangeIsaStore cls old new lk tr)) = True"
| "lockable (Weak (LoadWeakCheck l)) = True"
| "lockable (Weak (StoreWeakRegister l)) = True"
| "lockable (Weak (DestroyWeak l)) = True"
| "lockable (Count CountLoad) = True"
| "lockable (Dealloc ClearSlowWeak) = True"
| "lockable (Dealloc ClearRaw) = True"
| "lockable _ = False"

fun knows :: "arch \<Rightarrow> (ptr \<Rightarrow> class_info) \<Rightarrow> 't \<Rightarrow> ('t, 'l) rstate \<Rightarrow> 'l pc \<Rightarrow> bool" where
  "knows A info t s Idle = True"
| "knows A info t s (Lock p) = (holds p \<and> lockable p \<and> knows A info t s p)"
| "knows A info t s (Unlock p) = (\<not> holds p \<and> knows A info t s p)"
| "knows A info t s (Retain p) = knows_retain A t s p"
| "knows A info t s (Release p) = knows_release A t s p"
| "knows A info t s (Side p) = knows_side A t s p"
| "knows A info t s (Change p) = knows_change A info t s p"
| "knows A info t s (Assoc p) = knows_assoc A t s p"
| "knows A info t s (Weak p) = knows_weak A t s p"
| "knows A info t s (Count p) = knows_count A t s p"
| "knows A info t s (Dealloc p) = knows_dealloc A t s p"
| "knows A info t s Overrelease = False"
| "knows A info t s AssertionFailure = False"

definition rc_inv :: "arch \<Rightarrow> (ptr \<Rightarrow> class_info) \<Rightarrow> ('t::finite, 'l) rstate \<Rightarrow> bool" where
  "rc_inv A info s =
     ((\<forall>t. slock s = Some t \<longleftrightarrow> holds (pc s t)) \<and> (\<forall>t. knows A info t s (pc s t)) \<and> ginv A s (hold s) \<and>
      references s \<le> 2 ^ 59)"

section \<open>What the invariant does not depend on\<close>

lemma goto_sel [simp]:
  "isa_bits (goto t p s) = isa_bits s" "refcnt (goto t p s) = refcnt s" "slock (goto t p s) = slock s"
  "weakvars (goto t p s) = weakvars s" "life (goto t p s) = life s" "owned (goto t p s) = owned s"
  "pc (goto t p s) = (pc s)(t := p)"
  by (simp_all add: goto_def)

lemma gain_sel [simp]:
  "isa_bits (gain t s) = isa_bits s" "refcnt (gain t s) = refcnt s" "slock (gain t s) = slock s"
  "weakvars (gain t s) = weakvars s" "life (gain t s) = life s" "pc (gain t s) = pc s"
  "owned (gain t s) = (owned s)(t := owned s t + 1)"
  by (simp_all add: gain_def)

lemma lose_sel [simp]:
  "isa_bits (lose t s) = isa_bits s" "refcnt (lose t s) = refcnt s" "slock (lose t s) = slock s"
  "weakvars (lose t s) = weakvars s" "life (lose t s) = life s" "pc (lose t s) = pc s"
  "owned (lose t s) = (owned s)(t := owned s t - 1)"
  by (simp_all add: lose_def)

lemma die_sel [simp]:
  "isa_bits (die t s) = isa_bits s" "refcnt (die t s) = refcnt s" "slock (die t s) = slock s"
  "weakvars (die t s) = weakvars s" "life (die t s) = InDealloc t" "pc (die t s) = pc s" "owned (die t s) = owned s"
  by (simp_all add: die_def)

lemma may_use_goto [simp]: "may_use (goto u q s) t = may_use s t"
  by (simp add: may_use_def)

lemma references_goto [simp]: "references (goto u q s) = references s"
  by (simp add: references_def)

lemma references_fields [simp]:
  "references (s\<lparr>isa_bits := w\<rparr>) = references s" "references (s\<lparr>refcnt := v\<rparr>) = references s"
  "references (s\<lparr>slock := l\<rparr>) = references s" "references (s\<lparr>weakvars := ws\<rparr>) = references s"
  "references (s\<lparr>life := f\<rparr>) = references s" "references (die t s) = references s"
  by (simp_all add: references_def)

lemma references_gain [simp]: "references (gain t s) = references s + 1" for t :: "'t::finite"
proof -
  have "(\<Sum>u\<in>UNIV. ((owned s)(t := owned s t + 1)) u) = (\<Sum>u\<in>UNIV. owned s u + (if u = t then 1 else 0))"
    by (rule sum.cong) auto
  then show ?thesis by (simp add: references_def sum.distrib)
qed

lemma references_lose: "0 < owned s t \<Longrightarrow> references (lose t s) + 1 = references s" for t :: "'t::finite"
proof -
  assume o: "0 < owned s t"
  have "(\<Sum>u\<in>UNIV. owned s u) = (\<Sum>u\<in>UNIV. ((owned s)(t := owned s t - 1)) u + (if u = t then 1 else 0))"
    using o by (intro sum.cong) auto
  then show ?thesis by (simp add: references_def sum.distrib)
qed

lemma owned_le_references: "owned s t \<le> references s" for t :: "'t::finite"
  unfolding references_def by (rule member_le_sum) auto

lemma references_0: "references s = 0 \<longleftrightarrow> (\<forall>t. owned s t = 0)" for s :: "('t::finite, 'l) rstate"
  by (simp add: references_def)

lemma dealloc_flag_goto [simp]: "dealloc_flag A (goto t p s) = dealloc_flag A s"
  and weak_flag_goto [simp]: "weak_flag A (goto t p s) = weak_flag A s"
  by (auto simp: dealloc_flag_def weak_flag_def fun_eq_iff split: option.split)

lemma ginv_goto [simp]: "ginv A (goto t p s) h = ginv A s h"
  by (simp add: ginv_def)

lemma ginv_at: "pend A q = pend A h \<Longrightarrow> moving q = moving h \<Longrightarrow> ginv A s q = ginv A s h"
  by (simp only: ginv_def dealloc_flag_def weak_flag_def)

lemma knows_goto [simp]: "knows A info t (goto u q s) p = knows A info t s p"
proof (induction p)
  case (Retain p) then show ?case by (cases p) simp_all
next
  case (Release p) then show ?case by (cases p) simp_all
next
  case (Side p) then show ?case by (cases p) simp_all
next
  case (Change p) then show ?case by (cases p) simp_all
next
  case (Assoc p) then show ?case by (cases p) simp_all
next
  case (Weak p) then show ?case by (cases p) simp_all
next
  case (Count p) then show ?case by (cases p) simp_all
next
  case (Dealloc p) then show ?case by (cases p) simp_all
qed simp_all

section \<open>What the steps of other threads leave alone\<close>

definition effects :: "arch \<Rightarrow> 't \<Rightarrow> ('t, 'l) rstate \<Rightarrow> ('t, 'l) rstate \<Rightarrow> bool" where
  "effects A t s s' =
     (owned s t \<le> owned s' t \<and>
      (life s = InDealloc t \<longrightarrow> life s' = InDealloc t) \<and>
      (life s = Disposing t \<longrightarrow> life s' = Disposing t \<and> weakvars s' \<subseteq> weakvars s \<and>
         nonpointer A (isa_bits s') = nonpointer A (isa_bits s)) \<and>
      (\<not> nonpointer A (isa_bits s) \<longrightarrow> \<not> nonpointer A (isa_bits s')) \<and>
      (slock s = Some t \<longrightarrow> refcnt s' = refcnt s \<and> weakvars s' = weakvars s \<and>
         nonpointer A (isa_bits s') = nonpointer A (isa_bits s) \<and>
         (nonpointer A (isa_bits s) \<and> has_sidetable_rc A (isa_bits s) \<longrightarrow> has_sidetable_rc A (isa_bits s')) \<and>
         (nonpointer A (isa_bits s) \<and> weakly_referenced A (isa_bits s) \<longrightarrow> weakly_referenced A (isa_bits s'))))"

lemma may_use_stable: "may_use s t \<Longrightarrow> effects A t s s' \<Longrightarrow> may_use s' t"
  by (auto simp: may_use_def effects_def)

lemma knows_stable:
  assumes "knows A info t s p" "effects A t s s'" "holds p \<and> \<not> lockable p \<longrightarrow> slock s = Some t"
  shows "knows A info t s' p"
  using assms
proof (induction p)
  case (Lock p) then show ?case by simp
next
  case (Unlock p) then show ?case by simp
next
  case (Retain p) then show ?case using may_use_stable[of s t A s'] by (cases p) (auto simp: effects_def)
next
  case (Release p) then show ?case by (cases p) (auto simp: effects_def)
next
  case (Side p) then show ?case using may_use_stable[of s t A s'] by (cases p) (auto simp: effects_def)
next
  case (Change p) then show ?case using may_use_stable[of s t A s'] by (cases p) (auto simp: effects_def)
next
  case (Assoc p) then show ?case using may_use_stable[of s t A s'] by (cases p) (auto simp: effects_def)
next
  case (Weak p) then show ?case using may_use_stable[of s t A s'] by (cases p) (auto simp: effects_def)
next
  case (Count p) then show ?case using may_use_stable[of s t A s'] by (cases p) (auto simp: effects_def)
next
  case (Dealloc p) then show ?case by (cases p) (auto simp: effects_def)
qed simp_all

section \<open>Every step keeps the invariant\<close>

text \<open>A step of thread \<open>t\<close> that neither takes nor drops the lock, while the lock holder stands at \<open>h\<close>.\<close>

definition keeps :: "arch \<Rightarrow> (ptr \<Rightarrow> class_info) \<Rightarrow> 't::finite \<Rightarrow> ('t, 'l) rstate \<Rightarrow> 'l pc \<Rightarrow> ('t, 'l) rstate \<Rightarrow> bool" where
  "keeps A info t s h s' =
     (slock s' = slock s \<and> holds (pc s' t) = holds (pc s t) \<and> (\<forall>u. u \<noteq> t \<longrightarrow> pc s' u = pc s u) \<and>
      knows A info t s' (pc s' t) \<and> ginv A s' (if holds (pc s' t) then pc s' t else h) \<and>
      (\<forall>u. u \<noteq> t \<longrightarrow> effects A u s s'))"

definition stands :: "arch \<Rightarrow> (ptr \<Rightarrow> class_info) \<Rightarrow> 't::finite \<Rightarrow> ('t, 'l) rstate \<Rightarrow> 'l pc \<Rightarrow> bool" where
  "stands A info t s h =
     ((slock s = Some t \<longleftrightarrow> holds (pc s t)) \<and> (holds (pc s t) \<longrightarrow> h = pc s t) \<and> knows A info t s (pc s t) \<and>
      ginv A s h \<and> references s \<le> 2 ^ 59)"

lemma effects_goto [simp]: "effects A u s (goto t q s)"
  by (simp add: effects_def)

lemma keeps_goto:
  assumes "stands A info t s h" "holds q = holds (pc s t)" "knows A info t s q"
    "holds q \<Longrightarrow> pend A q = pend A h \<and> moving q = moving h"
  shows "keeps A info t s h (goto t q s)"
  using assms ginv_at[of A q h s] by (auto simp: keeps_def stands_def)

text \<open>A change of the shared state, then a jump to \<open>q\<close>.\<close>

lemma keeps_change:
  assumes "slock s1 = slock s" "pc s1 = pc s" "holds q = holds (pc s t)" "knows A info t s1 q"
    "ginv A s1 (if holds q then q else h)" "\<And>u. u \<noteq> t \<Longrightarrow> effects A u s s1"
  shows "keeps A info t s h (goto t q s1)"
proof -
  have "effects A u s (goto t q s1)" if "u \<noteq> t" for u using assms(6)[OF that] by (simp add: effects_def)
  then show ?thesis using assms(1-5) by (auto simp: keeps_def split: if_splits)
qed

lemma pend_simps [simp]:
  "pend A Idle = 0" "pend A (Lock p) = 0" "pend A (Unlock p) = 0" "pend A (Retain r) = pend_retain A r"
  "pend A (Release q) = pend_release q" "pend A (Side d) = 0"
  "pend A (Change c) = (case moved c of None \<Rightarrow> 0 | Some old \<Rightarrow> xrc A old)" "pend A (Assoc a) = 0" "pend A (Weak w) = 0"
  "pend A (Count n) = 0" "pend A (Dealloc e) = 0"
  by (simp_all add: pend_def)

lemma moving_simps [simp]:
  "moving Idle = None" "moving (Lock p) = None" "moving (Unlock p) = None" "moving (Retain r) = None"
  "moving (Release q) = None" "moving (Side d) = None" "moving (Change c) = moved c" "moving (Assoc a) = None"
  "moving (Weak w) = None" "moving (Count n) = None" "moving (Dealloc e) = None"
  by (simp_all add: moving_def)

text \<open>Facts about the shared state, one by one.\<close>

lemma ginvD:
  assumes "ginv A s h"
  shows "1 + (if nonpointer A (isa_bits s) then xrc A (isa_bits s) else 0) + cnt (refcnt s) + pend A h =
      references s + (if life s = Alive then 0 else 1)"
    "nonpointer A (isa_bits s) \<Longrightarrow> \<not> dflag (refcnt s)" "nonpointer A (isa_bits s) \<Longrightarrow> \<not> wflag (refcnt s)"
    "nonpointer A (isa_bits s) \<Longrightarrow> unat (RC_HALF A) dvd cnt (refcnt s)"
    "nonpointer A (isa_bits s) \<Longrightarrow> \<not> has_sidetable_rc A (isa_bits s) \<Longrightarrow> refcnt s = 0 \<and> pend A h = 0"
    "moving h = Some old \<Longrightarrow> \<not> dflag (refcnt s) \<and> \<not> wflag (refcnt s)"
    "isa_bits s \<noteq> 0" "life s = Alive \<Longrightarrow> \<not> dealloc_flag A s h"
    "life s = InDealloc d \<Longrightarrow> dealloc_flag A s h" "life s \<noteq> Alive \<Longrightarrow> weakvars s \<noteq> {} \<Longrightarrow> dealloc_flag A s h"
    "weakvars s \<noteq> {} \<Longrightarrow> weak_flag A s h" "life s = InDealloc d \<Longrightarrow> u \<noteq> d \<Longrightarrow> owned s u = 0"
    "life s = Disposing d \<Longrightarrow> owned s u = 0" "life s = Freed \<Longrightarrow> owned s u = 0" "life s = Freed \<Longrightarrow> weakvars s = {}"
    "nonpointer A (isa_bits s) \<Longrightarrow> moving h = None"
  by (use assms in \<open>simp add: ginv_def\<close>; fail)+

lemma ginvI:
  assumes "1 + (if nonpointer A (isa_bits s) then xrc A (isa_bits s) else 0) + cnt (refcnt s) + pend A h =
      references s + (if life s = Alive then 0 else 1)"
    "nonpointer A (isa_bits s) \<Longrightarrow> moving h = None"
    "nonpointer A (isa_bits s) \<Longrightarrow> \<not> dflag (refcnt s)" "nonpointer A (isa_bits s) \<Longrightarrow> \<not> wflag (refcnt s)"
    "nonpointer A (isa_bits s) \<Longrightarrow> unat (RC_HALF A) dvd cnt (refcnt s)"
    "nonpointer A (isa_bits s) \<Longrightarrow> \<not> has_sidetable_rc A (isa_bits s) \<Longrightarrow> refcnt s = 0 \<and> pend A h = 0"
    "\<And>old. moving h = Some old \<Longrightarrow> \<not> dflag (refcnt s) \<and> \<not> wflag (refcnt s)"
    "isa_bits s \<noteq> 0" "life s = Alive \<Longrightarrow> \<not> dealloc_flag A s h"
    "\<And>d. life s = InDealloc d \<Longrightarrow> dealloc_flag A s h" "life s \<noteq> Alive \<Longrightarrow> weakvars s \<noteq> {} \<Longrightarrow> dealloc_flag A s h"
    "weakvars s \<noteq> {} \<Longrightarrow> weak_flag A s h" "\<And>u d. life s = InDealloc d \<Longrightarrow> u \<noteq> d \<Longrightarrow> owned s u = 0"
    "\<And>u d. life s = Disposing d \<Longrightarrow> owned s u = 0" "\<And>u. life s = Freed \<Longrightarrow> owned s u = 0"
    "life s = Freed \<Longrightarrow> weakvars s = {}"
  shows "ginv A s h"
  unfolding ginv_def
  by (intro conjI allI impI; (elim disjE exE conjE)?) (use assms in \<open>simp; fail | blast\<close>)+

lemma using_alive: "ginv A s h \<Longrightarrow> owned s t > 0 \<Longrightarrow> life s = Alive \<or> life s = InDealloc t"
  using ginvD(12)[of A s h _ t] ginvD(13)[of A s h _ t] ginvD(14)[of A s h t] by (cases "life s") fastforce+

lemma may_use_alive: "ginv A s h \<Longrightarrow> may_use s t \<Longrightarrow> life s = Alive \<or> life s = InDealloc t"
  using using_alive[of A s h t] by (auto simp: may_use_def)

text \<open>Storing a new isa word, while the lock holder moves from \<open>h\<close> to \<open>h'\<close>.\<close>

lemma ginv_store:
  assumes g: "ginv A s h" and np: "nonpointer A (isa_bits s)" "nonpointer A (isa_bits s1)"
    and flags: "deallocating A (isa_bits s1) = deallocating A (isa_bits s)"
      "weakly_referenced A (isa_bits s) \<Longrightarrow> weakly_referenced A (isa_bits s1)"
      "has_sidetable_rc A (isa_bits s) \<Longrightarrow> has_sidetable_rc A (isa_bits s1)"
    and h': "has_sidetable_rc A (isa_bits s1) \<or> pend A h' = 0" "moving h' = None"
    and refs: "xrc A (isa_bits s1) + pend A h' + references s = xrc A (isa_bits s) + pend A h + references s1"
    and s1: "refcnt s1 = refcnt s" "weakvars s1 = weakvars s" "life s1 = life s"
    and owned: "\<And>u. life s \<noteq> Alive \<Longrightarrow> life s \<noteq> InDealloc u \<Longrightarrow> owned s u = 0 \<Longrightarrow> owned s1 u = 0"
  shows "ginv A s1 h'"
proof -
  have d: "dealloc_flag A s1 h' = dealloc_flag A s h" using np flags(1) by (simp add: dealloc_flag_def)
  have w: "weak_flag A s1 h'" if "weak_flag A s h" using np flags(2) that by (simp add: weak_flag_def)
  have nz: "isa_bits s1 \<noteq> 0" using np by (auto simp: get_flag_def get_field_def)
  show ?thesis
  proof (rule ginvI, unfold d s1)
    show "1 + (if nonpointer A (isa_bits s1) then xrc A (isa_bits s1) else 0) + cnt (refcnt s) + pend A h' =
        references s1 + (if life s = Alive then 0 else 1)"
      using ginvD(1)[OF g] np refs by simp
    show "\<not> has_sidetable_rc A (isa_bits s1) \<Longrightarrow> refcnt s = 0 \<and> pend A h' = 0"
      using ginvD(5)[OF g np(1)] flags(3) h' by auto
    show "weakvars s \<noteq> {} \<Longrightarrow> weak_flag A s1 h'" using ginvD(11)[OF g] w by blast
    show "\<And>u d. life s = InDealloc d \<Longrightarrow> u \<noteq> d \<Longrightarrow> owned s1 u = 0"
      using ginvD(12)[OF g] owned by (metis life.distinct(1) life.inject(1))
    show "\<And>u d. life s = Disposing d \<Longrightarrow> owned s1 u = 0" "\<And>u. life s = Freed \<Longrightarrow> owned s1 u = 0"
      using ginvD(13,14)[OF g] owned by simp_all
  qed (use ginvD(2-4,7-10,15)[OF g] np nz h' in \<open>simp_all\<close>)
qed

text \<open>What a store of an isa word means to the other threads.\<close>

lemma effects_store:
  assumes "nonpointer A (isa_bits s1) = nonpointer A (isa_bits s)"
    "weakly_referenced A (isa_bits s) \<Longrightarrow> weakly_referenced A (isa_bits s1)"
    "has_sidetable_rc A (isa_bits s) \<Longrightarrow> has_sidetable_rc A (isa_bits s1)"
    "refcnt s1 = refcnt s" "weakvars s1 = weakvars s" "life s1 = life s" "owned s u \<le> owned s1 u"
  shows "effects A u s s1"
  using assms by (auto simp: effects_def)

lemma effects_locked:
  assumes "slock s = Some t" "u \<noteq> t" "isa_bits s1 = isa_bits s" "weakvars s1 \<subseteq> weakvars s" "life s1 = life s"
    "owned s u \<le> owned s1 u"
  shows "effects A u s s1"
  using assms by (auto simp: effects_def)

text \<open>Retain.\<close>

lemma retained_word:
  assumes "nonpointer A old"
  shows "\<not> snd (addc old (RC_ONE A) 0) \<Longrightarrow> same_flags A old (fst (addc old (RC_ONE A) 0)) \<and>
      xrc A (fst (addc old (RC_ONE A) 0)) = xrc A old + 1"
    "snd (addc old (RC_ONE A) 0) \<Longrightarrow> new = set_flag A F_has_sidetable_rc True (set_field A F_extra_rc (RC_HALF A)
        (fst (addc old (RC_ONE A) 0))) \<Longrightarrow>
      nonpointer A new \<and> deallocating A new = deallocating A old \<and> weakly_referenced A new = weakly_referenced A old \<and>
      has_sidetable_rc A new \<and> xrc A old + 1 = xmax A \<and> xrc A new = unat (RC_HALF A)"
proof -
  have f: "get_flag A f (fst (addc old (RC_ONE A) 0)) = get_flag A f old" if "f \<noteq> F_extra_rc" for f
    using addc_one(3)[OF that] by (simp add: get_flag_def)
  show "\<not> snd (addc old (RC_ONE A) 0) \<Longrightarrow> same_flags A old (fst (addc old (RC_ONE A) 0)) \<and>
      xrc A (fst (addc old (RC_ONE A) 0)) = xrc A old + 1"
    using assms addc_one(1,2)[where w = old and A = A] by (simp add: same_flags_def f)
  have "unat (RC_HALF A) < xmax A" using RC_HALF_xmax[of A] RC_HALF_pos[of A] by simp
  then show "snd (addc old (RC_ONE A) 0) \<Longrightarrow> new = set_flag A F_has_sidetable_rc True (set_field A F_extra_rc (RC_HALF A)
        (fst (addc old (RC_ONE A) 0))) \<Longrightarrow>
      nonpointer A new \<and> deallocating A new = deallocating A old \<and> weakly_referenced A new = weakly_referenced A old \<and>
      has_sidetable_rc A new \<and> xrc A old + 1 = xmax A \<and> xrc A new = unat (RC_HALF A)"
    using assms addc_one(1)[where w = old and A = A] by (simp add: isa_fields f xrc_set_flag xrc_set_field)
qed

lemma retain_load_ok:
  assumes st: "stands A info t s h" and p: "pc s t = Retain (RetainLoad try ho lk)"
  shows "keeps A info t s h (rootRetain A t sc (RetainLoad try ho lk) s)"
proof -
  let ?old = "isa_bits s"
  have k: "if try then weakvars s \<noteq> {} else may_use s t" "lk \<Longrightarrow> ho" and h: "try \<or> lk \<Longrightarrow> pend A h = 0 \<and> moving h = None"
    using st p by (auto simp: stands_def)
  obtain new carry where a: "addc ?old (RC_ONE A) 0 = (new, carry)" by force
  note w = retained_word[of A ?old, unfolded a fst_conv snd_conv]
  show ?thesis
  proof (cases "nonpointer A ?old")
    case False
    then show ?thesis using k h p by (auto simp: Let_def intro!: keeps_goto[OF st])
  next
    case True
    show ?thesis
    proof (cases "try \<and> deallocating A ?old")
      case d: True
      then show ?thesis using True k h p by (auto simp: Let_def intro!: keeps_goto[OF st])
    next
      case d: False
      then show ?thesis using True k h p w[OF True] a by (auto simp: Let_def intro!: keeps_goto[OF st])
    qed
  qed
qed

lemma may_retain:
  assumes "ginv A s h" "if try then weakvars s \<noteq> {} \<and> \<not> dealloc_flag A s h else may_use s t"
  shows "life s = Alive \<or> life s = InDealloc t"
  using assms(2) may_use_alive[OF assms(1), of t] ginvD(10)[OF assms(1)] by (auto split: if_splits)

lemma gain_owned:
  assumes "life s = Alive \<or> life s = InDealloc t" "life s \<noteq> Alive" "life s \<noteq> InDealloc u" "owned s u = 0"
  shows "((owned s)(t := n)) u = 0"
  using assms by auto

lemma retain_store_ok:
  assumes st: "stands A info t s h" and p: "pc s t = Retain (RetainStore try ho old new lk tr)"
  shows "keeps A info t s h (rootRetain A t sc (RetainStore try ho old new lk tr) s)"
proof (cases "StoreExclusive sc old s")
  case False
  have "try \<or> lk \<Longrightarrow> pend A h = 0 \<and> moving h = None"
    "(if try then weakvars s \<noteq> {} else may_use s t) \<and> (lk \<longrightarrow> ho)" using st p by (auto simp: stands_def)
  then show ?thesis using p False by (auto intro!: keeps_goto[OF st])
next
  case True
  then have isa: "isa_bits s = old" by (simp add: StoreExclusive_def)
  let ?s1 = "gain t (s\<lparr>isa_bits := new\<rparr>)"
    and ?q = "if tr then Retain (RetainTranscribe try lk) else retain_exit try lk :: 'b pc"
  have g: "ginv A s h" and k: "knows_retain A t s (RetainStore try ho old new lk tr)"
    and h: "try \<or> lk \<Longrightarrow> pend A h = 0" using st p by (auto simp: stands_def)
  have np: "nonpointer A old" "nonpointer A new" "deallocating A new = deallocating A old"
    "weakly_referenced A new = weakly_referenced A old" "has_sidetable_rc A old \<Longrightarrow> has_sidetable_rc A new"
    using k by (auto simp: same_flags_def split: if_splits)
  have life: "life s = Alive \<or> life s = InDealloc t"
    by (rule may_retain[OF g, of "try"]) (use k np isa in \<open>auto simp: dealloc_flag_def split: if_splits\<close>)
  have q: "holds ?q = (try \<or> lk)" "moving ?q = None" "knows A info t ?s1 ?q"
    using k np by (auto simp: retain_exit_def split: if_splits)
  have "keeps A info t s h (goto t ?q ?s1)"
  proof (rule keeps_change)
    show "holds ?q = holds (pc s t)" using q p by simp
    show "ginv A ?s1 (if holds ?q then ?q else h)"
    proof (rule ginv_store[OF g])
      show "xrc A (isa_bits ?s1) + pend A (if holds ?q then ?q else h) + references s =
          xrc A (isa_bits s) + pend A h + references ?s1"
        using k h q(1) isa RC_HALF_xmax[of A] by (auto simp: retain_exit_def split: if_splits)
      show "has_sidetable_rc A (isa_bits ?s1) \<or> pend A (if holds ?q then ?q else h) = 0"
        using k isa q(1) ginvD(5)[OF g] by (auto simp: retain_exit_def same_flags_def split: if_splits)
      show "moving (if holds ?q then ?q else h) = None" using q(2) ginvD(16)[OF g] np isa by simp
      show "owned ?s1 u = 0" if "life s \<noteq> Alive" "life s \<noteq> InDealloc u" "owned s u = 0" for u
        using gain_owned[OF life that] by simp
    qed (use np isa in simp_all)
    show "effects A u s ?s1" if "u \<noteq> t" for u
      by (rule effects_store) (use np isa that in simp_all)
  qed (use q in simp_all)
  then show ?thesis using True by simp
qed

lemma refcnt_bound:
  assumes "ginv A s h" "references s \<le> 2 ^ 59"
  shows "cnt (refcnt s) + pend A h + (if nonpointer A (isa_bits s) then xrc A (isa_bits s) else 0) \<le> 2 ^ 59"
  using ginvD(1)[OF assms(1)] assms(2) by (simp split: if_splits)

lemma addExtraRC_ok:
  assumes "\<not> dflag v" "\<not> wflag v" "unat d = n" "cnt v + n < 2 ^ 61"
  shows "\<exists>v'. addExtraRC d v = Some (v', False) \<and> cnt v' = cnt v + n \<and> \<not> dflag v' \<and> \<not> wflag v'"
proof -
  have d: "unat (push_bit SIDE_TABLE_RC_SHIFT d :: u64) = 4 * n"
    using shifted_count[of d] assms(3,4) by (simp add: SIDE_TABLE_RC_SHIFT_def)
  note a = add_count[OF d assms(4)]
  have "\<not> has v SIDE_TABLE_RC_PINNED" using assms(4) by (intro not_pinned) simp
  then show ?thesis using assms(1,2) a by (simp add: addExtraRC_def addc_def flip: dflag_def wflag_def)
qed

lemma retain_transcribe_ok:
  assumes st: "stands A info t s h" and p: "pc s t = Retain (RetainTranscribe try lk)"
  shows "keeps A info t s h (rootRetain A t sc (RetainTranscribe try lk) s)"
proof -
  have g: "ginv A s h" and b: "references s \<le> 2 ^ 59" and k: "knows_retain A t s (RetainTranscribe try lk)"
    and h: "h = Retain (RetainTranscribe try lk)" and l: "slock s = Some t" using st p by (auto simp: stands_def)
  then have np: "nonpointer A (isa_bits s)" "has_sidetable_rc A (isa_bits s)" by auto
  obtain v where v: "addExtraRC (RC_HALF A) (refcnt s) = Some (v, False)"
    "cnt v = cnt (refcnt s) + unat (RC_HALF A)" "\<not> dflag v" "\<not> wflag v"
    using addExtraRC_ok[OF ginvD(2,3)[OF g np(1)] refl, of "RC_HALF A"] refcnt_bound[OF g b] h by fastforce
  let ?s1 = "s\<lparr>refcnt := v\<rparr>" and ?q = "retain_exit try lk :: 'b pc"
  have q: "holds ?q" "moving ?q = None" "pend A ?q = 0" "knows A info t ?s1 ?q"
    using k by (auto simp: retain_exit_def)
  have "keeps A info t s h (goto t ?q ?s1)"
  proof (rule keeps_change)
    have d: "dealloc_flag A ?s1 ?q = dealloc_flag A s h" "weak_flag A ?s1 ?q = weak_flag A s h"
      using np by (simp_all add: dealloc_flag_def weak_flag_def)
    have "ginv A ?s1 ?q"
      by (rule ginvI, unfold d) (use ginvD[OF g] v np q h in \<open>simp_all add: dvd_add\<close>)
    then show "ginv A ?s1 (if holds ?q then ?q else h)" using q by simp
    show "effects A u s ?s1" if "u \<noteq> t" for u by (rule effects_locked[OF l that]) simp_all
  qed (use q p in simp_all)
  then show ?thesis using v np by simp
qed

lemma retain_ok: "stands A info t s h \<Longrightarrow> pc s t = Retain p \<Longrightarrow> keeps A info t s h (rootRetain A t sc p s)"
  by (cases p) (simp_all only: retain_load_ok retain_store_ok retain_transcribe_ok)

text \<open>Release.\<close>

lemma released_word:
  assumes "nonpointer A old" "\<not> snd (subc old (RC_ONE A) 0)"
  shows "same_flags A old (fst (subc old (RC_ONE A) 0)) \<and> xrc A (fst (subc old (RC_ONE A) 0)) + 1 = xrc A old"
proof -
  have x: "0 < xrc A old" using assms(2) subc_RC(1)[of old A] by simp
  have "get_flag A f (fst (subc old (RC_ONE A) 0)) = get_flag A f old" if "f \<noteq> F_extra_rc" for f
    using subc_RC(3)[OF x that] by (simp add: get_flag_def)
  then show ?thesis using assms(1) subc_RC(2)[OF x] x by (simp add: same_flags_def)
qed

lemma last_reference:
  assumes g: "ginv A s h" and o: "0 < owned s t"
    and 0: "(if nonpointer A (isa_bits s) then xrc A (isa_bits s) else 0) = 0" "cnt (refcnt s) = 0" "pend A h = 0"
  shows "life s = Alive" "references s = 1" "\<not> dealloc_flag A s h"
proof -
  have "references s + (if life s = Alive then 0 else 1) = 1" using ginvD(1)[OF g] 0 by simp
  moreover have "0 < references s" using o owned_le_references[of s t] by simp
  ultimately show "life s = Alive" "references s = 1" by (auto split: if_splits)
  then show "\<not> dealloc_flag A s h" using ginvD(8)[OF g] by simp
qed

lemma release_load_ok:
  assumes st: "stands A info t s h" and p: "pc s t = Release (ReleaseLoad hu lk)"
  shows "keeps A info t s h (rootRelease A t sc (ReleaseLoad hu lk) s)"
proof -
  let ?old = "isa_bits s"
  have k: "0 < owned s t" "lk \<Longrightarrow> hu" and h: "lk \<Longrightarrow> pend A h = 0 \<and> moving h = None" and g: "ginv A s h"
    using st p by (auto simp: stands_def)
  obtain new carry where a: "subc ?old (RC_ONE A) 0 = (new, carry)" by force
  show ?thesis
  proof (cases "nonpointer A ?old \<and> carry")
    case False
    then show ?thesis
      using k h p a released_word[of A ?old, unfolded a fst_conv snd_conv] by (auto simp: Let_def intro!: keeps_goto[OF st])
  next
    case True
    then have np: "nonpointer A ?old" and x: "xrc A ?old = 0" using a subc_RC(1)[of ?old A] by auto
    show ?thesis
    proof (cases "has_sidetable_rc A ?old")
      case hsrc: True
      have "refcnt s \<noteq> 0" if "deallocating A ?old" lk
      proof
        assume "refcnt s = 0"
        then have "\<not> dealloc_flag A s h" using last_reference(3)[OF g k(1)] x h that by (simp add: cnt_def)
        then show False using np that by (simp add: dealloc_flag_def)
      qed
      then show ?thesis using k h p a True hsrc x by (auto simp: Let_def intro!: keeps_goto[OF st])
    next
      case hsrc: False
      then have z: "refcnt s = 0" "pend A h = 0" using ginvD(5)[OF g np] by auto
      then have "\<not> deallocating A ?old" using last_reference(3)[OF g k(1)] x np by (simp add: cnt_def dealloc_flag_def)
      then show ?thesis using k h p a True hsrc x z
        by (auto simp: Let_def really_deallocate_def intro!: keeps_goto[OF st])
    qed
  qed
qed

text \<open>The three stores that give up one reference.\<close>

lemma release_store_keeps:
  assumes st: "stands A info t s h" and isa: "isa_bits s = old" and f: "same_flags A old new" and o: "0 < owned s t"
    and q: "holds q = holds (pc s t)" "pend A q = 0" "moving q = None" "\<And>s1. knows A info t s1 q"
    and x: "xrc A new + 1 = xrc A old + (if holds q then pend A h else 0)"
  shows "keeps A info t s h (goto t q (lose t (s\<lparr>isa_bits := new\<rparr>)))"
proof (rule keeps_change)
  let ?s1 = "lose t (s\<lparr>isa_bits := new\<rparr>)"
  have g: "ginv A s h" using st by (simp add: stands_def)
  have r: "references ?s1 + 1 = references s" using references_lose[of "s\<lparr>isa_bits := new\<rparr>" t] o by simp
  show "ginv A ?s1 (if holds q then q else h)"
  proof (rule ginv_store[OF g])
    show "xrc A (isa_bits ?s1) + pend A (if holds q then q else h) + references s =
        xrc A (isa_bits s) + pend A h + references ?s1"
      using x q r isa by (auto split: if_splits)
    show "has_sidetable_rc A (isa_bits ?s1) \<or> pend A (if holds q then q else h) = 0"
      using ginvD(5)[OF g] f isa q by (auto simp: same_flags_def)
    show "moving (if holds q then q else h) = None" using ginvD(16)[OF g] f isa q by (auto simp: same_flags_def)
  qed (use f isa in \<open>auto simp: same_flags_def\<close>)
  show "effects A u s ?s1" if "u \<noteq> t" for u by (rule effects_store) (use f isa that in \<open>simp_all add: same_flags_def\<close>)
qed (use q in simp_all)

lemma release_store_ok:
  assumes st: "stands A info t s h" and p: "pc s t = Release (ReleaseStore hu old new lk)"
  shows "keeps A info t s h (rootRelease A t sc (ReleaseStore hu old new lk) s)"
proof -
  have k: "0 < owned s t" "lk \<Longrightarrow> hu" "same_flags A old new" "xrc A new + 1 = xrc A old"
    and h: "lk \<Longrightarrow> pend A h = 0 \<and> moving h = None" using st p by (auto simp: stands_def)
  show ?thesis
  proof (cases "StoreExclusive sc old s")
    case True
    then have isa: "isa_bits s = old" by (simp add: StoreExclusive_def)
    show ?thesis using release_store_keeps[OF st isa k(3,1), of "if lk then Unlock Idle else Idle"] k h p True by auto
  next
    case False
    then show ?thesis using k h p by (auto intro!: keeps_goto[OF st])
  qed
qed

lemma subExtraRC_ok:
  assumes "\<not> dflag v" "\<not> wflag v" "unat d = n" "0 < n" "n dvd cnt v" "n < 2 ^ 61" "v \<noteq> 0"
  shows "\<exists>v'. subExtraRC d (Some v) = Some (Some v', d) \<and> cnt v' + n = cnt v \<and> \<not> dflag v' \<and> \<not> wflag v'"
proof -
  have d: "unat (push_bit SIDE_TABLE_RC_SHIFT d :: u64) = 4 * n"
    using shifted_count[of d] assms(3,6) by (simp add: SIDE_TABLE_RC_SHIFT_def)
  have "cnt v \<noteq> 0" using assms(1,2,7) word_zero[of v] by simp
  then have "n \<le> cnt v" using assms(5) by (simp add: dvd_imp_le)
  then show ?thesis using assms(1,2,4,7) sub_count[OF d] by (simp add: subExtraRC_def Let_def flip: dflag_def wflag_def)
qed

lemma borrowed_word:
  assumes "nonpointer A old" "xrc A old = 0"
  shows "same_flags A old (set_field A F_extra_rc (RC_HALF A - 1) old) \<and>
    xrc A (set_field A F_extra_rc (RC_HALF A - 1) old) + 1 = unat (RC_HALF A)"
proof -
  have "unat (RC_HALF A - 1) = unat (RC_HALF A) - 1" using RC_HALF_pos[of A] by (cases A) (simp_all add: RC_HALF_def)
  then show ?thesis using assms RC_HALF_xmax[of A] RC_HALF_pos[of A] by (simp add: same_flags_def isa_fields xrc_set_field)
qed

lemma release_borrow_ok:
  assumes st: "stands A info t s h" and p: "pc s t = Release (ReleaseBorrow old)"
  shows "keeps A info t s h (rootRelease A t sc (ReleaseBorrow old) s)"
proof -
  have g: "ginv A s h" and b: "references s \<le> 2 ^ 59" and h: "h = Release (ReleaseBorrow old)" and l: "slock s = Some t"
    and k: "0 < owned s t" "nonpointer A old" "has_sidetable_rc A old" "xrc A old = 0" "nonpointer A (isa_bits s)"
      "has_sidetable_rc A (isa_bits s)" "deallocating A old \<Longrightarrow> refcnt s \<noteq> 0"
    using st p by (auto simp: stands_def)
  note np = k(5)
  show ?thesis
  proof (cases "refcnt s = 0")
    case True
    then have "\<not> deallocating A old" using k(7) by blast
    then have "keeps A info t s h (really_deallocate A t True old True s)"
      unfolding really_deallocate_def using k(1-6) p True by (auto simp: h intro!: keeps_goto[OF st, unfolded h])
    then show ?thesis using np True by (simp add: subExtraRC_def)
  next
    case False
    obtain v where v: "subExtraRC (RC_HALF A) (Some (refcnt s)) = Some (Some v, RC_HALF A)"
      "cnt v + unat (RC_HALF A) = cnt (refcnt s)" "\<not> dflag v" "\<not> wflag v"
      using subExtraRC_ok[OF ginvD(2,3)[OF g np] refl RC_HALF_pos ginvD(4)[OF g np]] False RC_HALF_less[of A] by fastforce
    let ?s1 = "s\<lparr>refcnt := v\<rparr>"
      and ?q = "Release (ReleaseStoreBorrow old (set_field A F_extra_rc (RC_HALF A - 1) old) (RC_HALF A)) :: 'b pc"
    have "keeps A info t s h (goto t ?q ?s1)"
    proof (rule keeps_change)
      have d: "dealloc_flag A ?s1 ?q = dealloc_flag A s h" "weak_flag A ?s1 ?q = weak_flag A s h"
        using np by (simp_all add: dealloc_flag_def weak_flag_def)
      have dvd: "unat (RC_HALF A) dvd cnt v" using ginvD(4)[OF g np] v(2) by (metis dvd_add_left_iff dvd_refl)
      have "ginv A ?s1 ?q"
        by (rule ginvI, unfold d) (use ginvD[OF g] v np h k(6) dvd in \<open>simp_all\<close>)
      then show "ginv A ?s1 (if holds ?q then ?q else h)" by simp
      show "effects A u s ?s1" if "u \<noteq> t" for u by (rule effects_locked[OF l that]) simp_all
    qed (use k p borrowed_word[OF k(2,4)] in simp_all)
    moreover have "RC_HALF A > 0" using RC_HALF_pos[of A] by (metis unat_0 word_neq_0_conv less_irrefl)
    ultimately show ?thesis using np v(1) by simp
  qed
qed

lemma release_store_borrow_ok:
  assumes st: "stands A info t s h" and p: "pc s t = Release (ReleaseStoreBorrow old new b)"
  shows "keeps A info t s h (rootRelease A t sc (ReleaseStoreBorrow old new b) s)"
proof -
  have h: "h = Release (ReleaseStoreBorrow old new b)"
    and k: "0 < owned s t" "b = RC_HALF A" "same_flags A old new" "xrc A old = 0" "xrc A new + 1 = unat b"
      "nonpointer A (isa_bits s)" "has_sidetable_rc A (isa_bits s)"
    using st p by (auto simp: stands_def)
  show ?thesis
  proof (cases "StoreExclusive sc old s")
    case True
    then have isa: "isa_bits s = old" by (simp add: StoreExclusive_def)
    show ?thesis using release_store_keeps[OF st isa k(3,1), of "Unlock Idle"] k h p True by simp
  next
    case False
    have "pend A h = unat b" "moving h = None" using h by simp_all
    then show ?thesis using k p False by (auto intro!: keeps_goto[OF st])
  qed
qed

lemma release_load2_ok:
  assumes st: "stands A info t s h" and p: "pc s t = Release (ReleaseLoad2 b)"
  shows "keeps A info t s h (rootRelease A t sc (ReleaseLoad2 b) s)"
proof -
  let ?old = "isa_bits s"
  have h: "pend A h = unat b" "moving h = None"
    and k: "0 < owned s t" "b = RC_HALF A" "nonpointer A (isa_bits s)" "has_sidetable_rc A (isa_bits s)"
    using st p by (auto simp: stands_def)
  have b: "unat (b - 1) + 1 = unat b" unfolding k(2) using RC_HALF_pos[of A] by (cases A) (simp_all add: RC_HALF_def)
  have lt: "unat (b - 1) < xmax A" using b k(2) RC_HALF_xmax[of A] by simp
  obtain new ov where a: "addc ?old (RC_ONE A * (b - 1)) 0 = (new, ov)" by force
  note w = addc_RC[OF lt, of ?old, unfolded a fst_conv snd_conv]
  have "same_flags A ?old new \<and> xrc A new + 1 = xrc A ?old + unat b" if "\<not> ov"
  proof -
    have "xrc A ?old + unat (b - 1) < xmax A" using w(1) that by simp
    then show ?thesis using w(2,3) k(3) b by (simp add: same_flags_def get_flag_def)
  qed
  then show ?thesis using k h p a by (auto simp: Let_def intro!: keeps_goto[OF st])
qed

lemma release_store2_ok:
  assumes st: "stands A info t s h" and p: "pc s t = Release (ReleaseStore2 old new b)"
  shows "keeps A info t s h (rootRelease A t sc (ReleaseStore2 old new b) s)"
proof -
  have h: "pend A h = unat b" "moving h = None"
    and k: "0 < owned s t" "b = RC_HALF A" "same_flags A old new" "xrc A new + 1 = xrc A old + unat b"
      "nonpointer A (isa_bits s)" "has_sidetable_rc A (isa_bits s)"
    using st p by (auto simp: stands_def)
  show ?thesis
  proof (cases "StoreExclusive sc old s")
    case True
    then have isa: "isa_bits s = old" by (simp add: StoreExclusive_def)
    show ?thesis using release_store_keeps[OF st isa k(3,1), of "Unlock Idle"] k h p True by simp
  next
    case False
    then show ?thesis using k h p by (auto intro!: keeps_goto[OF st])
  qed
qed

lemma release_put_back_ok:
  assumes st: "stands A info t s h" and p: "pc s t = Release (ReleasePutBack b)"
  shows "keeps A info t s h (rootRelease A t sc (ReleasePutBack b) s)"
proof -
  have g: "ginv A s h" and b: "references s \<le> 2 ^ 59" and h: "pend A h = unat b" "moving h = None" and l: "slock s = Some t"
    and k: "0 < owned s t" "b = RC_HALF A" "nonpointer A (isa_bits s)" "has_sidetable_rc A (isa_bits s)"
    using st p by (auto simp: stands_def)
  note np = k(3)
  obtain v where v: "addExtraRC b (refcnt s) = Some (v, False)"
    "cnt v = cnt (refcnt s) + unat b" "\<not> dflag v" "\<not> wflag v"
    using addExtraRC_ok[OF ginvD(2,3)[OF g np] refl, of b] refcnt_bound[OF g b] h by fastforce
  let ?s1 = "s\<lparr>refcnt := v\<rparr>" and ?q = "Release (ReleaseLoad True True) :: 'b pc"
  have "keeps A info t s h (goto t ?q ?s1)"
  proof (rule keeps_change)
    have d: "dealloc_flag A ?s1 ?q = dealloc_flag A s h" "weak_flag A ?s1 ?q = weak_flag A s h"
      using np by (simp_all add: dealloc_flag_def weak_flag_def)
    have "ginv A ?s1 ?q"
      by (rule ginvI, unfold d) (use ginvD[OF g] v np h k in \<open>simp_all add: dvd_add\<close>)
    then show "ginv A ?s1 (if holds ?q then ?q else h)" by simp
    show "effects A u s ?s1" if "u \<noteq> t" for u by (rule effects_locked[OF l that]) simp_all
  qed (use k p in simp_all)
  then show ?thesis using v np by simp
qed

lemma release_store_dealloc_ok:
  assumes st: "stands A info t s h" and p: "pc s t = Release (ReleaseStoreDealloc hu old new lk)"
  shows "keeps A info t s h (rootRelease A t sc (ReleaseStoreDealloc hu old new lk) s)"
proof -
  have g: "ginv A s h" and h: "lk \<Longrightarrow> pend A h = 0 \<and> moving h = None"
    and k: "0 < owned s t" "lk \<Longrightarrow> hu" "nonpointer A old" "\<not> deallocating A old" "xrc A old = 0"
      "new = set_flag A F_deallocating True old" "has_sidetable_rc A old \<Longrightarrow> lk \<and> refcnt s = 0"
    using st p by (auto simp: stands_def)
  show ?thesis
  proof (cases "StoreExclusive sc old s")
    case False
    then show ?thesis using k h p by (auto intro!: keeps_goto[OF st])
  next
    case True
    then have isa: "isa_bits s = old" by (simp add: StoreExclusive_def)
    let ?s1 = "die t (lose t (s\<lparr>isa_bits := new\<rparr>))" and ?q = "if lk then Unlock Idle else Idle :: 'b pc"
    have z: "refcnt s = 0" "pend A h = 0" using ginvD(5)[OF g] isa k(3,7) h by (cases "has_sidetable_rc A old"; auto)+
    note last = last_reference[OF g k(1), unfolded isa]
    have life: "life s = Alive" "references s = 1" using last z k(3,5) by (simp_all add: cnt_def)
    have r: "references ?s1 = 0" using references_lose[of "s\<lparr>isa_bits := new\<rparr>" t] k(1) life by simp
    have new: "nonpointer A new" "deallocating A new" "weakly_referenced A new = weakly_referenced A old"
      "has_sidetable_rc A new = has_sidetable_rc A old" "xrc A new = 0"
      using k(3,5) unfolding k(6) by (simp_all add: isa_fields xrc_set_flag)
    have "keeps A info t s h (goto t ?q ?s1)"
    proof (rule keeps_change)
      let ?h = "if holds ?q then ?q else h"
      have h': "pend A ?h = 0" "moving ?h = None" using z ginvD(16)[OF g] isa k(3) by simp_all
      have o: "owned ?s1 u = 0" for u using r references_0[of ?s1] by simp
      have o': "owned s u = 0" if "u \<noteq> t" for u using o[of u] that by simp
      have "isa_bits ?s1 \<noteq> 0" using new(1) by (auto simp: get_flag_def get_field_def)
      then show "ginv A ?s1 ?h"
        using new z r h' o' ginvD(11)[OF g] isa k(3)
        by (intro ginvI) (auto simp: cnt_def word_zero[THEN iffD1] dealloc_flag_def weak_flag_def)
      show "effects A u s ?s1" if "u \<noteq> t" for u using new isa k(3) that life by (auto simp: effects_def)
    qed (use p in simp_all)
    then show ?thesis using True by simp
  qed
qed

lemma release_ok: "stands A info t s h \<Longrightarrow> pc s t = Release p \<Longrightarrow> keeps A info t s h (rootRelease A t sc p s)"
  by (cases p) (simp_all only: release_load_ok release_store_ok release_borrow_ok release_store_borrow_ok
      release_load2_ok release_store2_ok release_put_back_ok release_store_dealloc_ok)

text \<open>The side table holds the whole count of an object with a raw isa.\<close>

lemma ginv_raw:
  assumes g: "ginv A s h" and raw: "\<not> nonpointer A (isa_bits s)" "isa_bits s1 = isa_bits s"
    and h: "moving h = None" "pend A h = 0" "moving q = None" "pend A q = 0"
    and refs: "cnt (refcnt s1) + references s = cnt (refcnt s) + references s1"
    and flags: "dflag (refcnt s1) = dflag (refcnt s)" "wflag (refcnt s) \<Longrightarrow> wflag (refcnt s1)"
    and s1: "weakvars s1 = weakvars s" "life s1 = life s"
    and owned: "\<And>u. life s \<noteq> Alive \<Longrightarrow> life s \<noteq> InDealloc u \<Longrightarrow> owned s u = 0 \<Longrightarrow> owned s1 u = 0"
  shows "ginv A s1 q"
proof -
  have d: "dealloc_flag A s1 q = dealloc_flag A s h" using raw h flags(1) by (simp add: dealloc_flag_def)
  have w: "weak_flag A s1 q" if "weak_flag A s h" using raw h flags(2) that by (simp add: weak_flag_def)
  show ?thesis
  proof (rule ginvI, unfold d s1)
    show "1 + (if nonpointer A (isa_bits s1) then xrc A (isa_bits s1) else 0) + cnt (refcnt s1) + pend A q =
        references s1 + (if life s = Alive then 0 else 1)"
      using ginvD(1)[OF g] raw refs h by simp
    show "weakvars s \<noteq> {} \<Longrightarrow> weak_flag A s1 q" using ginvD(11)[OF g] w by blast
    show "\<And>u d. life s = InDealloc d \<Longrightarrow> u \<noteq> d \<Longrightarrow> owned s1 u = 0"
      using ginvD(12)[OF g] owned by (metis life.distinct(1) life.inject(1))
    show "\<And>u d. life s = Disposing d \<Longrightarrow> owned s1 u = 0" "\<And>u. life s = Freed \<Longrightarrow> owned s1 u = 0"
      using ginvD(13,14)[OF g] owned by simp_all
  qed (use ginvD(7-10,15)[OF g] raw h in \<open>simp_all\<close>)
qed

lemma retained_side_word:
  assumes "cnt v < 2 ^ 60"
  shows "\<not> has v SIDE_TABLE_RC_PINNED" "cnt (v + SIDE_TABLE_RC_ONE) = cnt v + 1"
    "dflag (v + SIDE_TABLE_RC_ONE) = dflag v" "wflag (v + SIDE_TABLE_RC_ONE) = wflag v"
  using not_pinned[of v] add_count[of SIDE_TABLE_RC_ONE 1 v] assms by (simp_all add: SIDE_TABLE_RC_ONE_def)

lemma side_retain_ok:
  assumes st: "stands A info t s h" and p: "pc s t = Side SideRetain"
  shows "keeps A info t s h (side_step A t SideRetain s)"
proof -
  have g: "ginv A s h" and b: "references s \<le> 2 ^ 59" and h: "moving h = None" "pend A h = 0" and l: "slock s = Some t"
    and k: "may_use s t" "\<not> nonpointer A (isa_bits s)"
    using st p by (auto simp: stands_def)
  have c: "cnt (refcnt s) < 2 ^ 60" using refcnt_bound[OF g b] by simp
  note v = retained_side_word[OF c]
  let ?s1 = "gain t (s\<lparr>refcnt := refcnt s + SIDE_TABLE_RC_ONE\<rparr>)"
  have "keeps A info t s h (goto t (Unlock Idle) ?s1)"
  proof (rule keeps_change)
    have "ginv A ?s1 (Unlock Idle :: 'b pc)"
      by (rule ginv_raw[OF g k(2) _ h]) (use v gain_owned[OF may_use_alive[OF g k(1)]] in simp_all)
    then show "ginv A ?s1 (if holds (Unlock Idle :: 'b pc) then Unlock Idle else h)" by simp
    show "effects A u s ?s1" if "u \<noteq> t" for u by (rule effects_locked[OF l that]) (use that in simp_all)
  qed (use p in simp_all)
  then show ?thesis using k v(1) by (simp add: retain_word_def)
qed

lemma side_try_retain_ok:
  assumes st: "stands A info t s h" and p: "pc s t = Side SideTryRetain"
  shows "keeps A info t s h (side_step A t SideTryRetain s)"
proof -
  have g: "ginv A s h" and b: "references s \<le> 2 ^ 59" and h: "moving h = None" "pend A h = 0" and l: "slock s = Some t"
    and k: "weakvars s \<noteq> {}" "\<not> nonpointer A (isa_bits s)"
    using st p by (auto simp: stands_def)
  have c: "cnt (refcnt s) < 2 ^ 60" using refcnt_bound[OF g b] by simp
  note v = retained_side_word[OF c]
  show ?thesis
  proof (cases "dflag (refcnt s)")
    case True
    then have "has (refcnt s) SIDE_TABLE_DEALLOCATING" by (simp add: dflag_def)
    then show ?thesis using k h p by (auto simp: tryRetain_word_def Let_def intro!: keeps_goto[OF st])
  next
    case False
    have life: "life s = Alive \<or> life s = InDealloc t"
      using may_retain[OF g, of True t] k h False by (simp add: dealloc_flag_def)
    let ?s1 = "gain t (s\<lparr>refcnt := refcnt s + SIDE_TABLE_RC_ONE\<rparr>)"
    have "keeps A info t s h (goto t (Weak (LoadWeakResult True)) ?s1)"
    proof (rule keeps_change)
      have "ginv A ?s1 (Weak (LoadWeakResult True) :: 'b pc)"
        by (rule ginv_raw[OF g k(2) _ h]) (use v gain_owned[OF life] in simp_all)
      then show "ginv A ?s1 (if holds (Weak (LoadWeakResult True) :: 'b pc) then Weak (LoadWeakResult True) else h)" by simp
      show "effects A u s ?s1" if "u \<noteq> t" for u by (rule effects_locked[OF l that]) (use that in simp_all)
    qed (use p in simp_all)
    then show ?thesis using k v(1) False by (simp add: tryRetain_word_def dflag_def)
  qed
qed

lemma side_release_ok:
  assumes st: "stands A info t s h" and p: "pc s t = Side SideRelease"
  shows "keeps A info t s h (side_step A t SideRelease s)"
proof -
  have g: "ginv A s h" and b: "references s \<le> 2 ^ 59" and h: "moving h = None" "pend A h = 0" and l: "slock s = Some t"
    and k: "0 < owned s t" "\<not> nonpointer A (isa_bits s)"
    using st p by (auto simp: stands_def)
  have c: "cnt (refcnt s) < 2 ^ 60" using refcnt_bound[OF g b] by simp
  let ?v = "refcnt s"
  show ?thesis
  proof (cases "?v < SIDE_TABLE_DEALLOCATING")
    case True
    let ?s1 = "die t (lose t (s\<lparr>refcnt := ?v OR SIDE_TABLE_DEALLOCATING\<rparr>))"
    have z: "cnt ?v = 0" "\<not> dflag ?v" using True by (simp_all add: word_small)
    note last = last_reference[OF g k(1)]
    have life: "life s = Alive" "references s = 1" using last z k(2) h by simp_all
    have r: "references ?s1 = 0" using references_lose[of "s\<lparr>refcnt := ?v OR SIDE_TABLE_DEALLOCATING\<rparr>" t] k(1) life by simp
    have o: "owned s u = 0" if "u \<noteq> t" for u using r[unfolded references_0, rule_format, of u] that by simp
    have "keeps A info t s h (goto t (Unlock Idle) ?s1)"
    proof (rule keeps_change)
      have "ginv A ?s1 (Unlock Idle :: 'b pc)"
        using k r z o ginvD(7,11)[OF g] h by (intro ginvI) (auto simp: or_flags dealloc_flag_def weak_flag_def)
      then show "ginv A ?s1 (if holds (Unlock Idle :: 'b pc) then Unlock Idle else h)" by simp
      show "effects A u s ?s1" if "u \<noteq> t" for u using l that life by (auto simp: effects_def)
    qed (use p in simp_all)
    then show ?thesis using k(2) True by (simp add: release_word_def Let_def)
  next
    case False
    have c1: "cnt ?v \<noteq> 0"
    proof
      assume "cnt ?v = 0"
      then have "\<not> dealloc_flag A s h" using last_reference(3)[OF g k(1)] k(2) h by simp
      then show False using False \<open>cnt ?v = 0\<close> k(2) h by (simp add: dealloc_flag_def word_small)
    qed
    have v: "cnt (?v - SIDE_TABLE_RC_ONE) = cnt ?v - 1" "dflag (?v - SIDE_TABLE_RC_ONE) = dflag ?v"
      "wflag (?v - SIDE_TABLE_RC_ONE) = wflag ?v" "\<not> has ?v SIDE_TABLE_RC_PINNED"
      using sub_count[of SIDE_TABLE_RC_ONE 1 ?v] c1 not_pinned[of ?v] c by (simp_all add: SIDE_TABLE_RC_ONE_def)
    let ?s1 = "lose t (s\<lparr>refcnt := ?v - SIDE_TABLE_RC_ONE\<rparr>)"
    have r: "references ?s1 + 1 = references s" using references_lose[of "s\<lparr>refcnt := ?v - SIDE_TABLE_RC_ONE\<rparr>" t] k(1) by simp
    have "keeps A info t s h (goto t (Unlock Idle) ?s1)"
    proof (rule keeps_change)
      have "ginv A ?s1 (Unlock Idle :: 'b pc)"
        by (rule ginv_raw[OF g k(2) _ h]) (use v r c1 in auto)
      then show "ginv A ?s1 (if holds (Unlock Idle :: 'b pc) then Unlock Idle else h)" by simp
      show "effects A u s ?s1" if "u \<noteq> t" for u by (rule effects_locked[OF l that]) (use that in simp_all)
    qed (use p in simp_all)
    then show ?thesis using k(2) False v(4) by (simp add: release_word_def Let_def)
  qed
qed

lemma side_ok: "stands A info t s h \<Longrightarrow> pc s t = Side p \<Longrightarrow> keeps A info t s h (side_step A t p s)"
proof (cases p)
  case SideCount
  assume st: "stands A info t s h" "pc s t = Side p"
  then have "pend A h = 0" "moving h = None" by (auto simp: stands_def SideCount)
  then show ?thesis using st SideCount by (auto simp: retainCount_word_def intro!: keeps_goto)
qed (simp_all only: side_retain_ok side_try_retain_ok side_release_ok)

text \<open>Changing the class.\<close>

lemma change_store_ok:
  assumes st: "stands A info t s h" and p: "pc s t = Change (ChangeIsaStore cls old new lk tr)"
  shows "keeps A info t s h (changeIsa A info t sc (ChangeIsaStore cls old new lk tr) s)"
proof -
  have g: "ginv A s h" and h: "lk \<Longrightarrow> pend A h = 0 \<and> moving h = None" and l: "lk \<Longrightarrow> slock s = Some t"
    and k: "may_use s t" "class_ptr A cls" "old \<noteq> 0" "changeIsa_word A info cls old = (new, tr)" "tr \<Longrightarrow> lk"
    using st p by (auto simp: stands_def)
  note f = changeIsa_word_fields[OF k(4,2,3)]
  have life: "life s = Alive \<or> life s = InDealloc t" by (rule may_use_alive[OF g k(1)])
  show ?thesis
  proof (cases "StoreExclusive sc old s")
    case False
    then show ?thesis using k h p by (auto intro!: keeps_goto[OF st])
  next
    case True
    then have isa: "isa_bits s = old" by (simp add: StoreExclusive_def)
    let ?s1 = "s\<lparr>isa_bits := new\<rparr>"
      and ?q = "if tr then Change (ChangeIsaMove old) else if lk then Unlock Idle else Idle :: 'b pc"
    have mu: "may_use ?s1 t" using k(1) by (simp add: may_use_def)
    consider (packed) "nonpointer A old" "nonpointer A new" "\<not> tr" | (raw) "\<not> nonpointer A old" "\<not> nonpointer A new" "\<not> tr"
      | (out) "nonpointer A old" "\<not> nonpointer A new" tr lk using f(2,3) k(5) by blast
    then have "keeps A info t s h (goto t ?q ?s1)"
    proof cases
      case packed
      have fl: "deallocating A new = deallocating A old" "weakly_referenced A new = weakly_referenced A old"
        "has_sidetable_rc A new = has_sidetable_rc A old" "xrc A new = xrc A old"
        using f(4,5) packed by simp_all
      have hs: "has_sidetable_rc A old \<or> pend A h = 0" 
        by (cases "has_sidetable_rc A old") (use ginvD(5)[OF g, unfolded isa, OF packed(1)] in simp_all)
      have mv: "moving h = None" by (rule ginvD(16)[OF g, unfolded isa, OF packed(1)])
      show ?thesis
      proof (rule keeps_change)
        show "ginv A ?s1 (if holds ?q then ?q else h)"
          by (rule ginv_store[OF g]) (use packed(1,2,3) fl hs mv isa h in \<open>auto split: if_splits\<close>)
        show "effects A u s ?s1" if "u \<noteq> t" for u by (rule effects_store) (use packed(1,2) fl isa in simp_all)
      qed (use packed p in simp_all)
    next
      case raw
      show ?thesis
      proof (rule keeps_change)
        let ?h = "if holds ?q then ?q else h"
        have h': "pend A ?h = pend A h" "moving ?h = moving h" using raw h by auto
        have d: "dealloc_flag A ?s1 ?h = dealloc_flag A s h" "weak_flag A ?s1 ?h = weak_flag A s h"
          unfolding dealloc_flag_def weak_flag_def h' using raw isa by (simp_all split: option.split)
        show "ginv A ?s1 ?h"
          by (rule ginvI, unfold d h') (use ginvD[OF g] raw isa f(6) in \<open>simp_all add: references_def\<close>)
        show "effects A u s ?s1" if "u \<noteq> t" for u using raw isa by (simp add: effects_def)
      qed (use raw p in simp_all)
    next
      case out
      show ?thesis
      proof (rule keeps_change)
        have d: "dealloc_flag A ?s1 ?q = dealloc_flag A s h" "weak_flag A ?s1 ?q = weak_flag A s h"
          unfolding dealloc_flag_def weak_flag_def using out isa by simp_all
        have "ginv A ?s1 ?q"
          by (rule ginvI, unfold d) (use ginvD[OF g] out isa h f(6) in \<open>simp_all\<close>)
        then show "ginv A ?s1 (if holds ?q then ?q else h)" using out by simp
        show "effects A u s ?s1" if "u \<noteq> t" for u using out isa l life that by (auto simp: effects_def)
      qed (use out p mu in simp_all)
    qed
    then show ?thesis using True by simp
  qed
qed

lemma moveExtraRC_ok:
  assumes "\<not> dflag v" "\<not> wflag v" "unat x = n" "cnt v + n < 2 ^ 61"
  shows "\<exists>v'. moveExtraRC x d w v = Some (v', ()) \<and> cnt v' = cnt v + n \<and> dflag v' = d \<and> wflag v' = w"
proof -
  have x: "unat (push_bit SIDE_TABLE_RC_SHIFT x :: u64) = 4 * n"
    using shifted_count[of x] assms(3,4) by (simp add: SIDE_TABLE_RC_SHIFT_def)
  note a = add_count[OF x assms(4)]
  show ?thesis using assms(1,2) a
    by (cases d; cases w) (simp_all add: moveExtraRC_def addc_def or_flags flip: dflag_def wflag_def)
qed

lemma change_move_ok:
  assumes st: "stands A info t s h" and p: "pc s t = Change (ChangeIsaMove old)"
  shows "keeps A info t s h (changeIsa A info t sc (ChangeIsaMove old) s)"
proof -
  have g: "ginv A s h" and b: "references s \<le> 2 ^ 59" and h: "moving h = Some old" "pend A h = xrc A old"
    and l: "slock s = Some t" and k: "may_use s t" "nonpointer A old" "\<not> nonpointer A (isa_bits s)"
    using st p by (auto simp: stands_def)
  obtain v where v: "moveExtraRC (extra_rc A old) (deallocating A old) (weakly_referenced A old) (refcnt s) = Some (v, ())"
    "cnt v = cnt (refcnt s) + xrc A old" "dflag v = deallocating A old" "wflag v = weakly_referenced A old"
    using moveExtraRC_ok[of "refcnt s" "extra_rc A old" "xrc A old" "deallocating A old" "weakly_referenced A old"]
      ginvD(6)[OF g h(1)] refcnt_bound[OF g b] h by (fastforce simp: xrc_def)
  let ?s1 = "s\<lparr>refcnt := v\<rparr>"
  have "keeps A info t s h (goto t (Unlock Idle) ?s1)"
  proof (rule keeps_change)
    have d: "dealloc_flag A ?s1 (Unlock Idle :: 'b pc) = dealloc_flag A s h"
      "weak_flag A ?s1 (Unlock Idle :: 'b pc) = weak_flag A s h"
      unfolding dealloc_flag_def weak_flag_def using k h v by simp_all
    have "ginv A ?s1 (Unlock Idle :: 'b pc)"
      by (rule ginvI, unfold d) (use ginvD[OF g] k v h in \<open>simp_all\<close>)
    then show "ginv A ?s1 (if holds (Unlock Idle :: 'b pc) then Unlock Idle else h)" by simp
    show "effects A u s ?s1" if "u \<noteq> t" for u by (rule effects_locked[OF l that]) simp_all
  qed (use p in simp_all)
  then show ?thesis using v k by simp
qed

lemma change_load_ok:
  assumes st: "stands A info t s h" and p: "pc s t = Change (ChangeIsaLoad cls lk)"
  shows "keeps A info t s h (changeIsa A info t sc (ChangeIsaLoad cls lk) s)"
proof -
  have h: "lk \<Longrightarrow> pend A h = 0 \<and> moving h = None" and nz: "isa_bits s \<noteq> 0"
    and k: "may_use s t" "class_ptr A cls"
    using st p ginvD(7)[of A s h] by (auto simp: stands_def)
  obtain new tr where a: "changeIsa_word A info cls (isa_bits s) = (new, tr)" by force
  show ?thesis using k h nz p a by (auto simp: Let_def intro!: keeps_goto[OF st])
qed

lemma change_ok: "stands A info t s h \<Longrightarrow> pc s t = Change p \<Longrightarrow> keeps A info t s h (changeIsa A info t sc p s)"
  by (cases p) (simp_all only: change_load_ok change_store_ok change_move_ok)

lemma assoc_ok:
  assumes st: "stands A info t s h" and p: "pc s t = Assoc q"
  shows "keeps A info t s h (setHasAssociatedObjects A t sc q s)"
proof (cases q)
  case SetAssocLoad
  then have "may_use s t" using st p by (auto simp: stands_def)
  then show ?thesis using p SetAssocLoad
    by (auto simp: Let_def same_flags_def isa_fields xrc_set_flag intro!: keeps_goto[OF st])
next
  case (SetAssocStore old new)
  have g: "ginv A s h" and k: "may_use s t" "same_flags A old new" "xrc A new = xrc A old"
    using st p SetAssocStore by (auto simp: stands_def)
  show ?thesis
  proof (cases "StoreExclusive sc old s")
    case False
    then show ?thesis using k p SetAssocStore by (auto intro!: keeps_goto[OF st])
  next
    case True
    then have isa: "isa_bits s = old" by (simp add: StoreExclusive_def)
    have "keeps A info t s h (goto t Idle (s\<lparr>isa_bits := new\<rparr>))"
    proof (rule keeps_change)
      have "ginv A (s\<lparr>isa_bits := new\<rparr>) h"
        by (rule ginv_store[OF g]) (use k isa ginvD(5,16)[OF g] in \<open>auto simp: same_flags_def\<close>)
      then show "ginv A (s\<lparr>isa_bits := new\<rparr>) (if holds (Idle :: 'b pc) then Idle else h)" by simp
      show "effects A u s (s\<lparr>isa_bits := new\<rparr>)" if "u \<noteq> t" for u
        by (rule effects_store) (use k isa in \<open>simp_all add: same_flags_def\<close>)
    qed (use p SetAssocStore in simp_all)
    then show ?thesis using True SetAssocStore by simp
  qed
qed

text \<open>Weak variables.\<close>

lemma weak_goto_ok:
  assumes st: "stands A info t s h" and p: "pc s t = Weak q"
    and q: "q = LoadWeak l \<or> q = LoadWeakCheck l \<or> q = LoadWeakResult r \<or> q = StoreWeakRegister l \<or> q = SetWeakLoad l"
  shows "keeps A info t s h (weak_step A t sc q s)"
proof -
  have h: "holds (Weak q) \<Longrightarrow> pend A h = 0 \<and> moving h = None" and k: "knows_weak A t s q"
    using st p by (auto simp: stands_def)
  show ?thesis using q k h p by (elim disjE) (auto simp: Let_def intro!: keeps_goto[OF st])
qed

lemma weak_store_ok:
  assumes st: "stands A info t s h" and p: "pc s t = Weak (SetWeakStore l old new)"
  shows "keeps A info t s h (weak_step A t sc (SetWeakStore l old new) s)"
proof -
  have g: "ginv A s h" and h: "pend A h = 0" "moving h = None"
    and k: "may_use s t" "nonpointer A old" "new = set_flag A F_weakly_referenced True old"
    using st p by (auto simp: stands_def)
  show ?thesis
  proof (cases "StoreExclusive sc old s")
    case False
    then show ?thesis using k h p by (auto intro!: keeps_goto[OF st])
  next
    case True
    then have isa: "isa_bits s = old" by (simp add: StoreExclusive_def)
    let ?s1 = "s\<lparr>isa_bits := new\<rparr>" and ?q = "Weak (StoreWeakAssign l)"
    have new: "nonpointer A new" "weakly_referenced A new" "deallocating A new = deallocating A old"
      "has_sidetable_rc A new = has_sidetable_rc A old" "xrc A new = xrc A old"
      using k(2) unfolding k(3) by (simp_all add: isa_fields xrc_set_flag)
    have "keeps A info t s h (goto t ?q ?s1)"
    proof (rule keeps_change)
      have "ginv A ?s1 ?q"
        by (rule ginv_store[OF g]) (use new k(2) isa h in \<open>simp_all\<close>)
      then show "ginv A ?s1 (if holds ?q then ?q else h)" by simp
      show "effects A u s ?s1" if "u \<noteq> t" for u by (rule effects_store) (use new k(2) isa in simp_all)
    qed (use p k(1) new in \<open>simp_all add: may_use_def\<close>)
    then show ?thesis using True by simp
  qed
qed

lemma weak_side_ok:
  assumes st: "stands A info t s h" and p: "pc s t = Weak (SetWeakSide l)"
  shows "keeps A info t s h (weak_step A t sc (SetWeakSide l) s)"
proof -
  have g: "ginv A s h" and h: "moving h = None" "pend A h = 0" and lk: "slock s = Some t"
    and k: "may_use s t" "\<not> nonpointer A (isa_bits s)"
    using st p by (auto simp: stands_def)
  let ?s1 = "s\<lparr>refcnt := refcnt s OR SIDE_TABLE_WEAKLY_REFERENCED\<rparr>" and ?q = "Weak (StoreWeakAssign l)"
  have "keeps A info t s h (goto t ?q ?s1)"
  proof (rule keeps_change)
    have "ginv A ?s1 ?q" by (rule ginv_raw[OF g k(2) _ h]) (simp_all add: or_flags)
    then show "ginv A ?s1 (if holds ?q then ?q else h)" by simp
    show "effects A u s ?s1" if "u \<noteq> t" for u by (rule effects_locked[OF lk that]) simp_all
  qed (use p k in \<open>simp_all add: may_use_def or_flags\<close>)
  then show ?thesis using k by (simp add: setWeaklyReferenced_word_def)
qed

lemma weak_assign_ok:
  assumes st: "stands A info t s h" and p: "pc s t = Weak (StoreWeakAssign l)"
  shows "keeps A info t s h (weak_step A t sc (StoreWeakAssign l) s)"
proof -
  have g: "ginv A s h" and h: "moving h = None" "pend A h = 0" and lk: "slock s = Some t"
    and k: "may_use s t" "if nonpointer A (isa_bits s) then weakly_referenced A (isa_bits s) else wflag (refcnt s)"
    using st p by (auto simp: stands_def)
  have life: "life s = Alive \<or> life s = InDealloc t" by (rule may_use_alive[OF g k(1)])
  let ?s1 = "s\<lparr>weakvars := insert l (weakvars s)\<rparr>" and ?q = "Unlock Idle :: 'b pc"
  have d: "dealloc_flag A ?s1 ?q = dealloc_flag A s h" "weak_flag A ?s1 ?q"
    unfolding dealloc_flag_def weak_flag_def using k(2) h by simp_all
  have "keeps A info t s h (goto t ?q ?s1)"
  proof (rule keeps_change)
    have "ginv A ?s1 ?q"
      by (rule ginvI, unfold d) (use ginvD[OF g] h life d in \<open>auto\<close>)
    then show "ginv A ?s1 (if holds ?q then ?q else h)" by simp
    show "effects A u s ?s1" if "u \<noteq> t" for u using lk life that by (auto simp: effects_def)
  qed (use p in \<open>simp_all\<close>)
  then show ?thesis by simp
qed

lemma weak_destroy_ok:
  assumes st: "stands A info t s h" and p: "pc s t = Weak (DestroyWeak l)"
  shows "keeps A info t s h (weak_step A t sc (DestroyWeak l) s)"
proof -
  have g: "ginv A s h" and h: "moving h = None" "pend A h = 0" and lk: "slock s = Some t"
    using st p by (auto simp: stands_def)
  let ?s1 = "s\<lparr>weakvars := weakvars s - {l}\<rparr>" and ?q = "Unlock Idle :: 'b pc"
  have d: "dealloc_flag A ?s1 ?q = dealloc_flag A s h" "weak_flag A ?s1 ?q = weak_flag A s h"
    unfolding dealloc_flag_def weak_flag_def using h by simp_all
  have "keeps A info t s h (goto t ?q ?s1)"
  proof (rule keeps_change)
    have "ginv A ?s1 ?q"
      by (rule ginvI, unfold d) (use ginvD[OF g] h in \<open>auto\<close>)
    then show "ginv A ?s1 (if holds ?q then ?q else h)" by simp
    show "effects A u s ?s1" if "u \<noteq> t" for u by (rule effects_locked[OF lk that]) auto
  qed (use p in \<open>simp_all\<close>)
  then show ?thesis by simp
qed

lemma weak_ok: "stands A info t s h \<Longrightarrow> pc s t = Weak p \<Longrightarrow> keeps A info t s h (weak_step A t sc p s)"
  by (cases p) (auto simp del: weak_step.simps intro: weak_goto_ok weak_store_ok weak_side_ok weak_assign_ok weak_destroy_ok)

text \<open>Counting and deallocating.\<close>

lemma count_ok:
  assumes st: "stands A info t s h" and p: "pc s t = Count q"
  shows "keeps A info t s h (rootRetainCount A t q s)"
proof -
  have h: "holds (Count q :: 'b pc) \<Longrightarrow> pend A h = 0 \<and> moving h = None" and k: "knows_count A t s q"
    using st p by (auto simp: stands_def)
  show ?thesis using k h p by (cases q) (auto simp: Let_def getExtraRC_def intro!: keeps_goto[OF st])
qed

lemma not_weakly_referenced:
  "ginv A s h \<Longrightarrow> nonpointer A (isa_bits s) \<Longrightarrow> \<not> weakly_referenced A (isa_bits s) \<Longrightarrow> weakvars s = {}"
  using ginvD(11)[of A s h] by (auto simp: weak_flag_def)

lemma disposing_counts:
  assumes "ginv A s h" "life s = Disposing d"
  shows "cnt (refcnt s) = 0" "pend A h = 0" "references s = 0"
proof -
  show r: "references s = 0" using ginvD(13)[OF assms] by (simp add: references_0)
  show "cnt (refcnt s) = 0" "pend A h = 0" using ginvD(1)[OF assms(1)] r assms(2) by simp_all
qed

lemma ginv_disposed:
  assumes g: "ginv A s h" and life: "life s = Disposing d" and h: "moving h = None" "moving q = None" "pend A q = 0"
    and s1: "isa_bits s1 = isa_bits s" "life s1 = life s" "owned s1 = owned s" "weakvars s1 = {}"
      "refcnt s1 = refcnt s \<or> refcnt s1 = 0"
  shows "ginv A s1 q"
proof -
  note z = disposing_counts[OF g life]
  have f0: "cnt 0 = 0" "\<not> dflag 0" "\<not> wflag 0" using word_zero[of 0] by simp_all
  have r: "references s1 = 0" using z(3) s1(3) by (simp add: references_def)
  have c: "cnt (refcnt s1) = 0" using s1(5) z f0 by auto
  have x: "nonpointer A (isa_bits s) \<Longrightarrow> xrc A (isa_bits s) = 0" using ginvD(1)[OF g] z life by simp
  have flags: "nonpointer A (isa_bits s) \<Longrightarrow> \<not> dflag (refcnt s1) \<and> \<not> wflag (refcnt s1)"
    using s1(5) ginvD(2,3)[OF g] f0 by metis
  have rc: "nonpointer A (isa_bits s) \<Longrightarrow> \<not> has_sidetable_rc A (isa_bits s) \<Longrightarrow> refcnt s1 = 0"
    using ginvD(5)[OF g] s1(5) by metis
  show ?thesis
    by (rule ginvI, unfold s1 r c) (use ginvD(7,13)[OF g] life h x flags rc in simp_all)
qed

lemma dealloc_ok:
  assumes st: "stands A info t s h" and p: "pc s t = Dealloc q"
  shows "keeps A info t s h (rootDealloc A t q s)"
proof -
  have g: "ginv A s h" and h: "holds (Dealloc q :: 'b pc) \<Longrightarrow> pend A h = 0 \<and> moving h = None \<and> slock s = Some t"
    and k: "knows_dealloc A t s q"
    using st p by (auto simp: stands_def)
  have life: "life s = Disposing t" using k by (cases q) auto
  note w = not_weakly_referenced[OF g]
  show ?thesis
  proof (cases q)
    case DeallocRoot
    then show ?thesis using k p w by (auto simp: Let_def intro!: keeps_goto[OF st])
  next
    case ClearDeallocating
    then show ?thesis using k p w by (auto simp: Let_def intro!: keeps_goto[OF st])
  next
    case ClearSlowWeak
    let ?s1 = "if weakly_referenced A (isa_bits s) then s\<lparr>weakvars := {}\<rparr> else s" and ?q = "Dealloc ClearSlowRC :: 'b pc"
    have np: "nonpointer A (isa_bits s)" and hh: "pend A h = 0" "moving h = None" "slock s = Some t"
      using k h ClearSlowWeak by auto
    have "keeps A info t s h (goto t ?q ?s1)"
    proof (rule keeps_change)
      have "ginv A ?s1 ?q"
        by (rule ginv_disposed[OF g life hh(2)]) (use w np in simp_all)
      then show "ginv A ?s1 (if holds ?q then ?q else h)" by simp
      show "effects A u s ?s1" if "u \<noteq> t" for u by (rule effects_locked[OF hh(3) that]) auto
    qed (use p np life w ClearSlowWeak in auto)
    then show ?thesis using ClearSlowWeak by simp
  next
    case ClearSlowRC
    let ?s1 = "if has_sidetable_rc A (isa_bits s) then s\<lparr>refcnt := 0\<rparr> else s" and ?q = "Unlock (Dealloc FreeObject) :: 'b pc"
    have np: "nonpointer A (isa_bits s)" and ws: "weakvars s = {}" and hh: "pend A h = 0" "moving h = None" "slock s = Some t"
      using k h ClearSlowRC by auto
    have "keeps A info t s h (goto t ?q ?s1)"
    proof (rule keeps_change)
      have "ginv A ?s1 ?q"
        by (rule ginv_disposed[OF g life hh(2)]) (use ws in simp_all)
      then show "ginv A ?s1 (if holds ?q then ?q else h)" by simp
      show "effects A u s ?s1" if "u \<noteq> t" for u by (rule effects_locked[OF hh(3) that]) auto
    qed (use p life ws ClearSlowRC in auto)
    then show ?thesis using ClearSlowRC by simp
  next
    case ClearRaw
    let ?s1 = "s\<lparr>weakvars := if has (refcnt s) SIDE_TABLE_WEAKLY_REFERENCED then {} else weakvars s, refcnt := 0\<rparr>"
      and ?q = "Unlock (Dealloc FreeObject) :: 'b pc"
    have raw: "\<not> nonpointer A (isa_bits s)" and hh: "pend A h = 0" "moving h = None" "slock s = Some t"
      using k h ClearRaw by auto
    have ws: "weakvars ?s1 = {}" using ginvD(11)[OF g] raw hh by (auto simp: weak_flag_def wflag_def)
    have "keeps A info t s h (goto t ?q ?s1)"
    proof (rule keeps_change)
      have "ginv A ?s1 ?q"
        by (rule ginv_disposed[OF g life hh(2)]) (use ws in simp_all)
      then show "ginv A ?s1 (if holds ?q then ?q else h)" by simp
      show "effects A u s ?s1" if "u \<noteq> t" for u by (rule effects_locked[OF hh(3) that]) auto
      show "knows A info t ?s1 ?q" unfolding knows.simps knows_dealloc.simps ws using life by simp
    qed (use p ClearRaw in auto)
    then show ?thesis using ClearRaw by simp
  next
    case FreeObject
    let ?s1 = "s\<lparr>life := Freed\<rparr>"
    have ws: "weakvars s = {}" using k FreeObject by auto
    have "keeps A info t s h (goto t Idle ?s1)"
    proof (rule keeps_change)
      have d: "dealloc_flag A ?s1 h = dealloc_flag A s h" by (simp add: dealloc_flag_def split: option.split)
      have "ginv A ?s1 h" by (rule ginvI, unfold d) (use ginvD[OF g] life ws in \<open>simp_all split: if_splits\<close>)
      then show "ginv A ?s1 (if holds (Idle :: 'b pc) then Idle else h)" by simp
      show "effects A u s ?s1" if "u \<noteq> t" for u using life that by (simp add: effects_def)
    qed (use p FreeObject in auto)
    then show ?thesis using FreeObject by simp
  qed
qed

section \<open>The invariant of all executions\<close>

lemma inv_stands: "rc_inv A info s \<Longrightarrow> stands A info t s (hold s)"
proof -
  assume i: "rc_inv A info s"
  then have l: "slock s = Some t \<longleftrightarrow> holds (pc s t)" by (simp add: rc_inv_def)
  then have "holds (pc s t) \<Longrightarrow> hold s = pc s t" by (simp add: hold_def)
  then show ?thesis using i l by (simp add: rc_inv_def stands_def)
qed

lemma keeps_inv:
  assumes i: "rc_inv A info s" and k: "keeps A info t s (hold s) s'" and b: "references s' \<le> 2 ^ 59"
  shows "rc_inv A info s'"
proof -
  have pcs: "pc s' u = pc s u" if "u \<noteq> t" for u using k that by (simp add: keeps_def)
  have locks: "slock s' = Some u \<longleftrightarrow> holds (pc s' u)" for u
    using i k pcs[of u] by (cases "u = t") (auto simp: rc_inv_def keeps_def)
  have "knows A info u s' (pc s' u)" for u
  proof (cases "u = t")
    case True then show ?thesis using k by (simp add: keeps_def)
  next
    case False
    have "knows A info u s' (pc s u)"
      by (rule knows_stable[of A info u s]) (use i k False in \<open>auto simp: rc_inv_def keeps_def\<close>)
    then show ?thesis using pcs[OF False] by simp
  qed
  moreover have hold: "hold s' = (if holds (pc s' t) then pc s' t else hold s)"
  proof (cases "slock s' = Some t")
    case True then show ?thesis using locks[of t] by (simp add: hold_def)
  next
    case False then show ?thesis using locks[of t] k pcs by (auto simp: hold_def keeps_def split: option.splits)
  qed
  moreover have "ginv A s' (hold s')" using k unfolding keeps_def hold by blast
  ultimately show ?thesis using locks b by (simp add: rc_inv_def)
qed

text \<open>Taking and dropping the lock.\<close>

lemma knows_slock [simp]: "knows A info t (s\<lparr>slock := l\<rparr>) p = knows A info t s p"
proof (induction p)
  case (Retain p) then show ?case by (cases p) (simp_all add: may_use_def)
next
  case (Release p) then show ?case by (cases p) simp_all
next
  case (Side p) then show ?case by (cases p) (simp_all add: may_use_def)
next
  case (Change p) then show ?case by (cases p) (simp_all add: may_use_def)
next
  case (Assoc p) then show ?case by (cases p) (simp_all add: may_use_def)
next
  case (Weak p) then show ?case by (cases p) (simp_all add: may_use_def)
next
  case (Count p) then show ?case by (cases p) (simp_all add: may_use_def)
next
  case (Dealloc p) then show ?case by (cases p) simp_all
qed simp_all

lemma ginv_slock [simp]: "ginv A (s\<lparr>slock := l\<rparr>) h = ginv A s h"
  by (simp add: ginv_def dealloc_flag_def[abs_def] weak_flag_def[abs_def] cong: option.case_cong)

lemma lockable_pend: "lockable p \<Longrightarrow> pend A p = 0 \<and> moving p = None"
proof (cases p)
  case (Retain q) assume "lockable p" then show ?thesis using Retain by (cases q) simp_all
next
  case (Release q) assume "lockable p" then show ?thesis using Release by (cases q) simp_all
next
  case (Change q) assume "lockable p" then show ?thesis using Change by (cases q) simp_all
qed simp_all

lemma lock_inv:
  assumes i: "rc_inv A info s" and p: "pc s t = Lock p" and l: "slock s = None"
  shows "rc_inv A info (goto t p (s\<lparr>slock := Some t\<rparr>))"
proof -
  let ?s' = "goto t p (s\<lparr>slock := Some t\<rparr>)"
  have locks: "\<not> holds (pc s u)" and k: "knows A info u s (pc s u)" for u using i l by (auto simp: rc_inv_def)
  have kp: "holds p" "lockable p" "knows A info t s p" using k[of t] p by simp_all
  have "ginv A s Idle" using i l by (simp add: rc_inv_def hold_def)
  then have "ginv A s p" using ginv_at[of A p Idle s] lockable_pend[OF kp(2), of A] by simp
  moreover have "references ?s' \<le> 2 ^ 59" using i by (simp add: rc_inv_def)
  ultimately show ?thesis using locks k kp unfolding rc_inv_def by (auto simp: hold_def)
qed

lemma unlock_inv:
  assumes i: "rc_inv A info s" and p: "pc s t = Unlock p"
  shows "rc_inv A info (goto t p (s\<lparr>slock := None\<rparr>))"
proof -
  let ?s' = "goto t p (s\<lparr>slock := None\<rparr>)"
  have locks: "slock s = Some u \<longleftrightarrow> holds (pc s u)" and k: "knows A info u s (pc s u)" for u using i by (auto simp: rc_inv_def)
  have l: "slock s = Some t" using locks[of t] p by simp
  have others: "\<not> holds (pc s u)" if "u \<noteq> t" for u using locks[of u] l that by simp
  have "ginv A s (Unlock p)" using i l p by (simp add: rc_inv_def hold_def)
  then have "ginv A s Idle" using ginv_at[of A Idle "Unlock p" s] by simp
  moreover have "references ?s' \<le> 2 ^ 59" using i by (simp add: rc_inv_def)
  moreover have "knows A info t s p" "\<not> holds p" using k[of t] p by simp_all
  ultimately show ?thesis using others k unfolding rc_inv_def by (auto simp: hold_def)
qed

lemma thread_step_inv:
  assumes i: "rc_inv A info s" and s': "thread_step A info t sc s = Some s'" and b: "references s' \<le> 2 ^ 59"
  shows "rc_inv A info s'"
proof -
  note st = inv_stands[OF i, of t]
  have k: "rc_inv A info s'" if "keeps A info t s (hold s) s'" by (rule keeps_inv[OF i that b])
  show ?thesis
  proof (cases "pc s t")
    case (Lock p)
    then have "slock s = None" "s' = goto t p (s\<lparr>slock := Some t\<rparr>)" using s' by (auto simp: thread_step_def split: if_splits)
    then show ?thesis using lock_inv[OF i Lock] by simp
  next
    case (Unlock p)
    then show ?thesis using s' unlock_inv[OF i Unlock] by (simp add: thread_step_def)
  qed (use s' k retain_ok[OF st] release_ok[OF st] side_ok[OF st] change_ok[OF st] assoc_ok[OF st] weak_ok[OF st]
      count_ok[OF st] dealloc_ok[OF st] in \<open>auto simp: thread_step_def\<close>)
qed

text \<open>What clients start.\<close>

lemma start_inv:
  assumes i: "rc_inv A info s" and p: "pc s t = Idle" and q: "knows A info t s q" "\<not> holds q"
  shows "rc_inv A info (goto t q s)"
proof (rule keeps_inv[OF i])
  show "keeps A info t s (hold s) (goto t q s)"
    by (rule keeps_goto[OF inv_stands[OF i]]) (use p q in simp_all)
  show "references (goto t q s) \<le> 2 ^ 59" using i by (simp add: rc_inv_def)
qed

lemma pass_inv:
  assumes i: "rc_inv A info s" and p: "pc s t = Idle" "0 < owned s t" "life s = Alive"
  shows "rc_inv A info (gain t' (lose t s))"
proof -
  let ?s1 = "gain t' (lose t s)"
  have r: "references ?s1 = references s" using references_lose[of s t] p(2) by simp
  have d: "dealloc_flag A ?s1 = dealloc_flag A s" "weak_flag A ?s1 = weak_flag A s"
    by (simp_all add: dealloc_flag_def[abs_def] weak_flag_def[abs_def] cong: option.case_cong)
  have hold: "hold ?s1 = hold s" by (simp add: hold_def split: option.split)
  have g: "ginv A s (hold s)" using i by (simp add: rc_inv_def)
  have "ginv A ?s1 (hold s)"
    by (rule ginvI, unfold d r) (use ginvD[OF g] p(3) in \<open>simp_all split: if_splits\<close>)
  moreover have "knows A info u ?s1 (pc s u)" for u
  proof (cases "u = t")
    case True then show ?thesis using p by simp
  next
    case False
    show ?thesis
      by (rule knows_stable[of A info u s]) (use i False p(3) in \<open>auto simp: rc_inv_def effects_def\<close>)
  qed
  ultimately show ?thesis using i r hold by (simp add: rc_inv_def)
qed

lemma dispose_inv:
  assumes i: "rc_inv A info s" and p: "pc s t = Idle" "life s = InDealloc t" "owned s t = 0"
  shows "rc_inv A info (goto t (Dealloc DeallocRoot) (s\<lparr>life := Disposing t\<rparr>))"
proof (rule keeps_inv[OF i])
  let ?s1 = "s\<lparr>life := Disposing t\<rparr>"
  have g: "ginv A s (hold s)" using i by (simp add: rc_inv_def)
  have o: "owned s u = 0" for u using ginvD(12)[OF g p(2), of u] p(3) by (cases "u = t") simp_all
  have d: "dealloc_flag A ?s1 = dealloc_flag A s" "weak_flag A ?s1 = weak_flag A s"
    by (simp_all add: dealloc_flag_def[abs_def] weak_flag_def[abs_def] cong: option.case_cong)
  have "ginv A ?s1 (hold s)"
    by (rule ginvI, unfold d) (use ginvD[OF g] p o in \<open>simp_all split: if_splits\<close>)
  then show "keeps A info t s (hold s) (goto t (Dealloc DeallocRoot) ?s1)"
    by (intro keeps_change) (use p in \<open>simp_all add: effects_def\<close>)
  show "references (goto t (Dealloc DeallocRoot) ?s1) \<le> 2 ^ 59" using i by (simp add: rc_inv_def)
qed

lemma step_inv: "step A info s s' \<Longrightarrow> rc_inv A info s \<Longrightarrow> references s' \<le> 2 ^ 59 \<Longrightarrow> rc_inv A info s'"
proof (induction rule: step.induct)
  case (run t sc s s') then show ?case using thread_step_inv by blast
next
  case (pass s t t') then show ?case using pass_inv by blast
next
  case (dealloc s t) then show ?case using dispose_inv by blast
qed (auto intro!: start_inv)

lemma new_object_inv:
  fixes s :: "('t::finite, 'l) rstate"
  assumes "class_ptr A cls" and s: "s = new_object A cls np dtor t"
  shows "rc_inv A info s"
proof -
  have f: "isa_bits s = initIsa A cls np dtor" "refcnt s = 0" "slock s = None" "weakvars s = {}" "pc s = (\<lambda>_. Idle)"
    "life s = Alive" "references s = 1"
    by (simp_all add: s new_object_def references_def)
  have nz: "initIsa A cls np dtor \<noteq> 0"
    using initIsa_fields(1)[OF assms(1), of np dtor] assms(1) by (auto simp: ISA_def class_ptr_def)
  have f0: "cnt 0 = 0" "\<not> dflag 0" "\<not> wflag 0" using word_zero[of 0] by simp_all
  have "ginv A s Idle"
    by (rule ginvI) (use initIsa_fields[OF assms(1), of np dtor] f nz f0 in \<open>simp_all add: dealloc_flag_def\<close>)
  then show ?thesis using f by (simp add: rc_inv_def hold_def)
qed

lemma reachable_inv: "reachable A info s \<Longrightarrow> rc_inv A info s"
  by (induction rule: reachable.induct) (auto intro: new_object_inv[OF _ refl] step_inv)

end
