(* ===== verification/CF_BitVector.thy ===== *)
theory CF_BitVector
  imports Prelude "HOL-Library.Monad_Syntax"
begin

text \<open>
  Bit vectors (RuntimeLoop/CFBitVector.c): the buckets of eight bits numbered from the most significant one, the map
  over a range that ramps up to a bucket boundary, runs over whole buckets and ramps down, and the operations built on
  it. Indices are natural numbers, since every negative argument is excluded by an assertion. A read or write outside
  the buckets, or outside the buffer of the client, is \<open>None\<close>. The theory shows that each operation is the
  operation on lists of bits it stands for, and that no access is out of range.
\<close>

section \<open>Buckets\<close>

definition BITS_PER_BUCKET :: nat where "BITS_PER_BUCKET = 8"

definition CFBitVectorRoundUpCapacity :: "nat \<Rightarrow> nat" where
  "CFBitVectorRoundUpCapacity capacity =
     (let capacity = (if 0 = capacity then 1 else capacity) in ((capacity + 63) div 64) * 64)"

record CFBitVector =
  bv_count :: nat
  bv_capacity :: nat
  bv_buckets :: "u8 list"
  bv_mutable :: bool

definition CFBitVectorNumBuckets :: "CFBitVector \<Rightarrow> nat" where
  "CFBitVectorNumBuckets bv = bv_capacity bv div BITS_PER_BUCKET + 1"

definition CFBitBucketMask :: "nat \<Rightarrow> nat \<Rightarrow> u8" where
  "CFBitBucketMask bottomBit topBit =
     (let shiftL = BITS_PER_BUCKET - topBit + bottomBit - 1;
          result = NOT 0;
          result = push_bit shiftL result
      in drop_bit bottomBit result)"

definition CFBitVectorBit :: "u8 list \<Rightarrow> nat \<Rightarrow> bool option" where
  "CFBitVectorBit buckets idx =
     do { let bucketIdx = idx div BITS_PER_BUCKET;
          let bitOfBucket = idx mod BITS_PER_BUCKET;
          v \<leftarrow> load buckets bucketIdx;
          Some (drop_bit (BITS_PER_BUCKET - 1 - bitOfBucket) v AND 1 = 1) }"

definition CFSetBitVectorBit :: "u8 list \<Rightarrow> nat \<Rightarrow> bool \<Rightarrow> u8 list option" where
  "CFSetBitVectorBit buckets idx val =
     do { let bucketIdx = idx div BITS_PER_BUCKET;
          let bitOfBucket = idx mod BITS_PER_BUCKET;
          v \<leftarrow> load buckets bucketIdx;
          let m = push_bit (BITS_PER_BUCKET - 1 - bitOfBucket) 1;
          store buckets bucketIdx (if val then v OR m else v AND NOT m) }"

definition CFFlipBitVectorBit :: "u8 list \<Rightarrow> nat \<Rightarrow> u8 list option" where
  "CFFlipBitVectorBit buckets idx =
     do { let bucketIdx = idx div BITS_PER_BUCKET;
          let bitOfBucket = idx mod BITS_PER_BUCKET;
          v \<leftarrow> load buckets bucketIdx;
          store buckets bucketIdx (v XOR push_bit (BITS_PER_BUCKET - 1 - bitOfBucket) 1) }"

section \<open>Equality and creation\<close>

fun same_buckets :: "u8 list \<Rightarrow> u8 list \<Rightarrow> nat \<Rightarrow> nat \<Rightarrow> bool option" where
  "same_buckets b1 b2 idx 0 = Some True"
| "same_buckets b1 b2 idx (Suc n) =
     do { val1 \<leftarrow> load b1 idx;
          val2 \<leftarrow> load b2 idx;
          if val1 \<noteq> val2 then Some False else same_buckets b1 b2 (idx + 1) n }"

definition CFBitVectorEqual :: "CFBitVector \<Rightarrow> CFBitVector \<Rightarrow> bool option" where
  "CFBitVectorEqual bv1 bv2 =
     (let cnt = bv_count bv1 in
      if cnt \<noteq> bv_count bv2 then Some False
      else if 0 = cnt then Some True
      else same_buckets (bv_buckets bv1) (bv_buckets bv2) 0 (cnt div BITS_PER_BUCKET + 1))"

definition CFBitVectorHash :: "CFBitVector \<Rightarrow> nat" where
  "CFBitVectorHash bv = bv_count bv"

text \<open>The allocator is a parameter: whether it has memory for the object and for the buckets. \<open>Some None\<close> is the \<open>NULL\<close> result.\<close>

definition CFBitVectorInit :: "bool \<times> bool \<Rightarrow> bool \<Rightarrow> nat \<Rightarrow> u8 list option \<Rightarrow> nat \<Rightarrow> CFBitVector option option" where
  "CFBitVectorInit alloc flags capacity bytes numBits =
     (if \<not> fst alloc then Some None
      else
        let memory = \<lparr>bv_count = 0, bv_capacity = CFBitVectorRoundUpCapacity numBits, bv_buckets = [], bv_mutable = False\<rparr>
        in if \<not> snd alloc then Some None
           else
             let memory = memory\<lparr>bv_buckets := replicate (CFBitVectorNumBuckets memory) 0, bv_count := numBits\<rparr>;
                 n = numBits div 8 + (if numBits mod 8 \<noteq> 0 then 1 else 0)
             in case bytes of
                  None \<Rightarrow> Some (Some (memory\<lparr>bv_mutable := flags\<rparr>))
                | Some b \<Rightarrow>
                    if n \<le> length b \<and> n \<le> CFBitVectorNumBuckets memory
                    then Some (Some (memory\<lparr>bv_buckets := take n b @ drop n (bv_buckets memory), bv_mutable := flags\<rparr>))
                    else None)"

definition CFBitVectorCreate :: "bool \<times> bool \<Rightarrow> u8 list option \<Rightarrow> nat \<Rightarrow> CFBitVector option option" where
  "CFBitVectorCreate alloc bytes numBits = CFBitVectorInit alloc False numBits bytes numBits"

definition CFBitVectorCreateMutable :: "bool \<times> bool \<Rightarrow> nat \<Rightarrow> CFBitVector option option" where
  "CFBitVectorCreateMutable alloc capacity = CFBitVectorInit alloc True capacity None 0"

definition CFBitVectorCreateCopy :: "bool \<times> bool \<Rightarrow> CFBitVector \<Rightarrow> CFBitVector option option" where
  "CFBitVectorCreateCopy alloc bv = CFBitVectorInit alloc False (bv_count bv) (Some (bv_buckets bv)) (bv_count bv)"

definition CFBitVectorCreateMutableCopy :: "bool \<times> bool \<Rightarrow> nat \<Rightarrow> CFBitVector \<Rightarrow> CFBitVector option option" where
  "CFBitVectorCreateMutableCopy alloc capacity bv = CFBitVectorInit alloc True capacity (Some (bv_buckets bv)) (bv_count bv)"

section \<open>The map over a range of bits\<close>

text \<open>A mapper gets the bucket, the mask of the bits in the range and its context, and gives the new bucket.\<close>

type_synonym 'c mapper = "u8 \<Rightarrow> u8 \<Rightarrow> 'c \<Rightarrow> (u8 \<times> 'c) option"

definition map_masked :: "'c mapper \<Rightarrow> u8 \<Rightarrow> nat \<Rightarrow> u8 list \<times> 'c \<Rightarrow> (u8 list \<times> 'c) option" where
  "map_masked mapper bucketValMask bucketIdx = (\<lambda>(buckets, context).
     do { v \<leftarrow> load buckets bucketIdx;
          (newBucketVal, context) \<leftarrow> mapper v bucketValMask context;
          buckets \<leftarrow> store buckets bucketIdx ((v AND NOT bucketValMask) OR (newBucketVal AND bucketValMask));
          Some (buckets, context) })"

fun map_whole :: "'c mapper \<Rightarrow> nat \<Rightarrow> nat \<Rightarrow> u8 list \<times> 'c \<Rightarrow> (u8 list \<times> 'c) option" where
  "map_whole mapper 0 bucketIdx s = Some s"
| "map_whole mapper (Suc nBuckets) bucketIdx (buckets, context) =
     do { v \<leftarrow> load buckets bucketIdx;
          (newBucketVal, context) \<leftarrow> mapper v (NOT 0) context;
          buckets \<leftarrow> store buckets bucketIdx newBucketVal;
          map_whole mapper nBuckets (bucketIdx + 1) (buckets, context) }"

definition CFBitVectorInternalMap :: "'c mapper \<Rightarrow> nat \<Rightarrow> nat \<Rightarrow> u8 list \<times> 'c \<Rightarrow> (u8 list \<times> 'c) option" where
  "CFBitVectorInternalMap mapper location len s =
     (if 0 = len then Some s
      else
        let bucketIdx = location div BITS_PER_BUCKET;
            bitOfBucket = location mod BITS_PER_BUCKET;
            (bucketValMask, len) =
              (if bitOfBucket + len < BITS_PER_BUCKET then (CFBitBucketMask bitOfBucket (bitOfBucket + len - 1), 0)
               else (CFBitBucketMask bitOfBucket (BITS_PER_BUCKET - 1), len - (BITS_PER_BUCKET - bitOfBucket)))
        in do { s \<leftarrow> map_masked mapper bucketValMask bucketIdx s;
                let bucketIdx = bucketIdx + 1;
                let nBuckets = len div BITS_PER_BUCKET;
                let len = len - nBuckets * BITS_PER_BUCKET;
                s \<leftarrow> map_whole mapper nBuckets bucketIdx s;
                if 0 \<noteq> len then map_masked mapper (CFBitBucketMask 0 (len - 1)) (bucketIdx + nBuckets) s
                else Some s })"

section \<open>Queries\<close>

definition CFNibbleBitCount :: "nat list" where
  "CFNibbleBitCount = [0, 1, 1, 2, 1, 2, 2, 3, 1, 2, 2, 3, 2, 3, 3, 4]"

definition CFBitVectorCountBits :: "(bool \<times> nat) mapper" where
  "CFBitVectorCountBits bucketValue bucketValueMask = (\<lambda>(value, count).
     let val = (if value then bucketValue AND bucketValueMask else NOT bucketValue AND bucketValueMask);
         count = count + CFNibbleBitCount ! unat (val AND 0xF);
         val = drop_bit 4 val;
         count = count + CFNibbleBitCount ! unat (val AND 0xF)
     in Some (bucketValue, (value, count)))"

definition CFBitVectorGetCountOfBit :: "CFBitVector \<Rightarrow> nat \<Rightarrow> nat \<Rightarrow> bool \<Rightarrow> (CFBitVector \<times> nat) option" where
  "CFBitVectorGetCountOfBit bv location len val =
     (if 0 = len then Some (bv, 0)
      else do { (buckets, context) \<leftarrow> CFBitVectorInternalMap CFBitVectorCountBits location len (bv_buckets bv, (val, 0));
                Some (bv\<lparr>bv_buckets := buckets\<rparr>, snd context) })"

definition CFBitVectorContainsBit :: "CFBitVector \<Rightarrow> nat \<Rightarrow> nat \<Rightarrow> bool \<Rightarrow> (CFBitVector \<times> bool) option" where
  "CFBitVectorContainsBit bv location len val =
     do { (bv, n) \<leftarrow> CFBitVectorGetCountOfBit bv location len val; Some (bv, n \<noteq> 0) }"

definition CFBitVectorGetBitAtIndex :: "CFBitVector \<Rightarrow> nat \<Rightarrow> bool option" where
  "CFBitVectorGetBitAtIndex bv idx = CFBitVectorBit (bv_buckets bv) idx"

record getBitsContext =
  gb_bytes :: "u8 list"
  gb_curByte :: nat
  gb_initBits :: nat
  gb_totalBits :: int
  gb_ignoreFirstInitBits :: bool

text \<open>The loop that emits whole bytes; \<open>val\<close> has no bits left after the first one.\<close>

function GetBits_whole :: "u8 \<Rightarrow> int \<Rightarrow> getBitsContext \<Rightarrow> (u8 \<times> int \<times> getBitsContext) option" where
  "GetBits_whole val nBits context =
     (if 8 \<le> nBits then
        do { bytes \<leftarrow> store (gb_bytes context) (gb_curByte context) val;
             GetBits_whole 0 (nBits - 8)
               (context\<lparr>gb_bytes := bytes, gb_curByte := gb_curByte context + 1,
                  gb_totalBits := gb_totalBits context - int (gb_initBits context)\<rparr>) }
      else Some (val, nBits, context))"
  by auto
termination by (relation "measure (\<lambda>(_, n, _). nat n)") auto

declare GetBits_whole.simps [simp del]

definition CFBitVectorGetBits_mapper :: "getBitsContext mapper" where
  "CFBitVectorGetBits_mapper bucketValue bucketValueMask context =
     do { let val = bucketValue AND bucketValueMask;
          let nBits = min (int BITS_PER_BUCKET - int (gb_initBits context)) (gb_totalBits context);
          (val, context) \<leftarrow>
            (if 0 < gb_initBits context then
               do { context \<leftarrow>
                      (if \<not> gb_ignoreFirstInitBits context then
                         do { b \<leftarrow> load (gb_bytes context) (gb_curByte context);
                              bytes \<leftarrow> store (gb_bytes context) (gb_curByte context)
                                        (b OR drop_bit (BITS_PER_BUCKET - gb_initBits context) val);
                              Some (context\<lparr>gb_bytes := bytes, gb_curByte := gb_curByte context + 1,
                                      gb_totalBits := gb_totalBits context - int (gb_initBits context),
                                      gb_ignoreFirstInitBits := False\<rparr>) }
                       else Some context);
                    Some (push_bit (gb_initBits context) val, context) }
             else Some (val, context));
          (val, nBits, context) \<leftarrow> GetBits_whole val nBits context;
          context \<leftarrow>
            (if 0 < nBits then
               do { bytes \<leftarrow> store (gb_bytes context) (gb_curByte context) val;
                    Some (context\<lparr>gb_bytes := bytes, gb_totalBits := gb_totalBits context - nBits\<rparr>) }
             else Some context);
          Some (bucketValue, context) }"

definition CFBitVectorGetBits :: "CFBitVector \<Rightarrow> nat \<Rightarrow> nat \<Rightarrow> u8 list \<Rightarrow> (CFBitVector \<times> u8 list) option" where
  "CFBitVectorGetBits bv location len bytes =
     (if 0 = len then Some (bv, bytes)
      else
        let context = \<lparr>gb_bytes = bytes, gb_curByte = 0, gb_initBits = location mod BITS_PER_BUCKET,
                       gb_totalBits = int len, gb_ignoreFirstInitBits = True\<rparr>
        in do { (buckets, context) \<leftarrow> CFBitVectorInternalMap CFBitVectorGetBits_mapper location len (bv_buckets bv, context);
                Some (bv\<lparr>bv_buckets := buckets\<rparr>, gb_bytes context) })"

text \<open>The linear searches; the result \<open>Some None\<close> is \<open>kCFNotFound\<close>.\<close>

fun FirstIndex_from :: "CFBitVector \<Rightarrow> nat \<Rightarrow> nat \<Rightarrow> nat \<Rightarrow> bool \<Rightarrow> nat option option" where
  "FirstIndex_from bv location idx 0 val = Some None"
| "FirstIndex_from bv location idx (Suc n) val =
     do { b \<leftarrow> CFBitVectorGetBitAtIndex bv (location + idx);
          if val = b then Some (Some (location + idx)) else FirstIndex_from bv location (idx + 1) n val }"

definition CFBitVectorGetFirstIndexOfBit :: "CFBitVector \<Rightarrow> nat \<Rightarrow> nat \<Rightarrow> bool \<Rightarrow> nat option option" where
  "CFBitVectorGetFirstIndexOfBit bv location len val = FirstIndex_from bv location 0 len val"

fun CFBitVectorGetLastIndexOfBit :: "CFBitVector \<Rightarrow> nat \<Rightarrow> nat \<Rightarrow> bool \<Rightarrow> nat option option" where
  "CFBitVectorGetLastIndexOfBit bv location 0 val = Some None"
| "CFBitVectorGetLastIndexOfBit bv location (Suc idx) val =
     do { b \<leftarrow> CFBitVectorGetBitAtIndex bv (location + idx);
          if val = b then Some (Some (location + idx)) else CFBitVectorGetLastIndexOfBit bv location idx val }"

section \<open>Mutation\<close>

text \<open>Reallocation keeps the common prefix; \<open>fresh\<close> is what the new memory happens to hold.\<close>

definition reallocate :: "(nat \<Rightarrow> u8) \<Rightarrow> u8 list \<Rightarrow> nat \<Rightarrow> u8 list" where
  "reallocate fresh bs n = take n bs @ map fresh [length bs..<n]"

definition CFBitVectorGrow :: "(nat \<Rightarrow> u8) \<Rightarrow> CFBitVector \<Rightarrow> nat \<Rightarrow> CFBitVector" where
  "CFBitVectorGrow fresh bv numNewValues =
     (let oldCount = bv_count bv;
          capacity = CFBitVectorRoundUpCapacity (oldCount + numNewValues);
          bv = bv\<lparr>bv_capacity := capacity\<rparr>
      in bv\<lparr>bv_buckets := reallocate fresh (bv_buckets bv) (CFBitVectorNumBuckets bv)\<rparr>)"

definition CFBitVectorZeroBits :: "unit mapper" where
  "CFBitVectorZeroBits bucketValue bucketValueMask context = Some (0, context)"

definition CFBitVectorOneBits :: "unit mapper" where
  "CFBitVectorOneBits bucketValue bucketValueMask context = Some (NOT 0, context)"

definition CFBitVectorFlipBits_mapper :: "unit mapper" where
  "CFBitVectorFlipBits_mapper bucketValue bucketValueMask context = Some (NOT 0 XOR bucketValue, context)"

definition map_bits :: "unit mapper \<Rightarrow> nat \<Rightarrow> nat \<Rightarrow> CFBitVector \<Rightarrow> CFBitVector option" where
  "map_bits mapper location len bv =
     do { (buckets, _) \<leftarrow> CFBitVectorInternalMap mapper location len (bv_buckets bv, ());
          Some (bv\<lparr>bv_buckets := buckets\<rparr>) }"

definition CFBitVectorSetCount :: "(nat \<Rightarrow> u8) \<Rightarrow> CFBitVector \<Rightarrow> nat \<Rightarrow> CFBitVector option" where
  "CFBitVectorSetCount fresh bv newCount =
     do { let cnt = bv_count bv;
          let bv = (if bv_mutable bv \<and> cnt < newCount then CFBitVectorGrow fresh bv (newCount - cnt) else bv);
          bv \<leftarrow> (if cnt < newCount then map_bits CFBitVectorZeroBits cnt (newCount - cnt) bv else Some bv);
          Some (bv\<lparr>bv_count := newCount\<rparr>) }"

definition CFBitVectorFlipBitAtIndex :: "CFBitVector \<Rightarrow> nat \<Rightarrow> CFBitVector option" where
  "CFBitVectorFlipBitAtIndex bv idx =
     do { buckets \<leftarrow> CFFlipBitVectorBit (bv_buckets bv) idx; Some (bv\<lparr>bv_buckets := buckets\<rparr>) }"

definition CFBitVectorFlipBits :: "CFBitVector \<Rightarrow> nat \<Rightarrow> nat \<Rightarrow> CFBitVector option" where
  "CFBitVectorFlipBits bv location len =
     (if 0 = len then Some bv else map_bits CFBitVectorFlipBits_mapper location len bv)"

definition CFBitVectorSetBitAtIndex :: "CFBitVector \<Rightarrow> nat \<Rightarrow> bool \<Rightarrow> CFBitVector option" where
  "CFBitVectorSetBitAtIndex bv idx val =
     do { buckets \<leftarrow> CFSetBitVectorBit (bv_buckets bv) idx val; Some (bv\<lparr>bv_buckets := buckets\<rparr>) }"

definition CFBitVectorSetBits :: "CFBitVector \<Rightarrow> nat \<Rightarrow> nat \<Rightarrow> bool \<Rightarrow> CFBitVector option" where
  "CFBitVectorSetBits bv location len val =
     (if 0 = len then Some bv
      else if val then map_bits CFBitVectorOneBits location len bv
      else map_bits CFBitVectorZeroBits location len bv)"

definition CFBitVectorSetAllBits :: "CFBitVector \<Rightarrow> bool \<Rightarrow> CFBitVector option" where
  "CFBitVectorSetAllBits bv val =
     do { let nBuckets = bv_count bv div BITS_PER_BUCKET;
          let leftover = bv_count bv - nBuckets * BITS_PER_BUCKET;
          bv \<leftarrow> (if 0 < leftover
                 then map_bits (if val then CFBitVectorOneBits else CFBitVectorZeroBits) (nBuckets * BITS_PER_BUCKET) leftover bv
                 else Some bv);
          if nBuckets \<le> length (bv_buckets bv)
          then Some (bv\<lparr>bv_buckets := replicate nBuckets (if val then NOT 0 else 0) @ drop nBuckets (bv_buckets bv)\<rparr>)
          else None }"

section \<open>The bits of a vector\<close>

definition vbit :: "u8 list \<Rightarrow> nat \<Rightarrow> bool" where
  "vbit bs i = bit (bs ! (i div 8)) (7 - i mod 8)"

definition bv_bits :: "CFBitVector \<Rightarrow> bool list" where
  "bv_bits bv = map (vbit (bv_buckets bv)) [0..<bv_count bv]"

definition bv_inv :: "CFBitVector \<Rightarrow> bool" where
  "bv_inv bv \<longleftrightarrow> bv_count bv \<le> bv_capacity bv \<and> length (bv_buckets bv) = CFBitVectorNumBuckets bv"

lemmas bucket_defs = BITS_PER_BUCKET_def load_def store_def

lemma mask_bit:
  assumes "b \<le> t" "t < 8" "k < 8"
  shows "bit (CFBitBucketMask b t) k \<longleftrightarrow> b \<le> 7 - k \<and> 7 - k \<le> t"
  using assms
  by (auto simp: CFBitBucketMask_def BITS_PER_BUCKET_def Let_def bit_drop_bit_eq bit_push_bit_iff bit_not_iff bit_mask_iff)


lemma mask_full: "CFBitBucketMask 0 7 = NOT 0"
  by (simp add: CFBitBucketMask_def BITS_PER_BUCKET_def)

text \<open>The bits a mask selects, as indices of the vector.\<close>

lemma mask_bit_index:
  assumes "0 < k" "l mod 8 + k \<le> 8" "x div 8 = l div 8"
  shows "bit (CFBitBucketMask (l mod 8) (l mod 8 + k - 1)) (7 - x mod 8) \<longleftrightarrow> l \<le> x \<and> x < l + k"
proof -
  define a b q where "a = x mod 8" and "b = l mod 8" and "q = l div 8"
  have x: "x = 8 * q + a" "l = 8 * q + b" "a < 8" "7 - (7 - a) = a"
    using mult_div_mod_eq[of 8 x] mult_div_mod_eq[of 8 l] assms(3) by (simp_all add: a_def b_def q_def)
  have "bit (CFBitBucketMask b (b + k - 1)) (7 - a) \<longleftrightarrow> b \<le> a \<and> a \<le> b + k - 1"
    using mask_bit[of b "b + k - 1" "7 - a"] assms(1,2) x(3,4) by (simp flip: b_def)
  moreover have "l \<le> x \<and> x < l + k \<longleftrightarrow> b \<le> a \<and> a \<le> b + k - 1" using x(1,2) assms(1) by auto
  ultimately show ?thesis by (simp only: a_def b_def)
qed

lemma vbit_update: "i < length bs \<Longrightarrow> vbit (bs[i := v]) x = (if x div 8 = i then bit v (7 - x mod 8) else vbit bs x)"
  by (auto simp: vbit_def nth_list_update)

lemma CFBitVectorBit_vbit: "i < 8 * length bs \<Longrightarrow> CFBitVectorBit bs i = Some (vbit bs i)"
  by (simp add: CFBitVectorBit_def bucket_defs vbit_def Let_def less_mult_imp_div_less mult.commute
      and_one_eq odd_iff_mod_2_eq_one bit_iff_odd_drop_bit flip: odd_iff_mod_2_eq_one)

section \<open>The range map visits each bit of the range once\<close>

function map_span :: "'c mapper \<Rightarrow> nat \<Rightarrow> nat \<Rightarrow> u8 list \<times> 'c \<Rightarrow> (u8 list \<times> 'c) option" where
  "map_span mapper l len s =
     (if len = 0 then Some s
      else
        let b = l mod 8; k = min len (8 - b)
        in do { s \<leftarrow> map_masked mapper (CFBitBucketMask b (b + k - 1)) (l div 8) s;
                map_span mapper (l + k) (len - k) s })"
  by auto
termination by (relation "measure (\<lambda>(_, _, len, _). len)") (auto simp: min_def)

declare map_span.simps [simp del]

lemma map_span_0 [simp]: "map_span mapper l 0 = Some"
  by (simp add: map_span.simps fun_eq_iff)

lemma map_span_small:
  "0 < len \<Longrightarrow> len \<le> 8 \<Longrightarrow> map_span mapper (8 * i) len s = map_masked mapper (CFBitBucketMask 0 (len - 1)) i s"
  by (subst map_span.simps) (simp add: min_def)

lemma map_span_whole:
  "map_span mapper (8 * i) (8 * n + r) s = do { s \<leftarrow> map_whole mapper n i s; map_span mapper (8 * (i + n)) r s }"
proof (induction n arbitrary: i s)
  case (Suc n)
  obtain bs c where s: "s = (bs, c)" by force
  have "map_span mapper (8 * i) (8 * Suc n + r) s =
      do { s \<leftarrow> map_masked mapper (CFBitBucketMask 0 7) i s; map_span mapper (8 * Suc i) (8 * n + r) s }"
  proof -
    have "8 * i mod 8 = 0" "min (8 * Suc n + r) (8 - 0) = 8" "8 * Suc n + r - 8 = 8 * n + r" "8 * i + 8 = 8 * Suc i"
      "8 * i div 8 = i" "8 * Suc n + r \<noteq> 0" "0 + 8 - 1 = (7 :: nat)" by simp_all
    then show ?thesis by (subst map_span.simps) (simp only: Let_def if_False)
  qed
  then show ?case unfolding Suc.IH mask_full by (simp add: s map_masked_def case_prod_unfold)
qed simp

lemma map_span_aligned:
  "map_span mapper (8 * i) len s =
     do { s \<leftarrow> map_whole mapper (len div 8) i s;
          if 0 \<noteq> len - len div 8 * 8 then map_masked mapper (CFBitBucketMask 0 (len - len div 8 * 8 - 1)) (i + len div 8) s
          else Some s }"
proof -
  have m: "len - len div 8 * 8 = len mod 8" by (simp add: minus_div_mult_eq_mod)
  have "map_span mapper (8 * j) (len mod 8) t =
      (if 0 \<noteq> len mod 8 then map_masked mapper (CFBitBucketMask 0 (len mod 8 - 1)) j t else Some t)" for j t
    using map_span_small[of "len mod 8" mapper j t] by (cases "len mod 8 = 0") (simp_all add: less_imp_le)
  then show ?thesis using map_span_whole[of mapper i "len div 8" "len mod 8" s] unfolding m mult_div_mod_eq by presburger
qed

lemma InternalMap_span: "CFBitVectorInternalMap mapper l len s = map_span mapper l len s"
proof (cases "0 < len \<and> 8 \<le> l mod 8 + len")
  case True
  let ?k = "8 - l mod 8"
  have k: "min len ?k = ?k" "len \<noteq> 0" "l mod 8 + ?k - 1 = 7" using True by auto
  have i: "l + ?k = 8 * (l div 8 + 1)" by (simp add: mult.commute) presburger
  have "map_span mapper l len s =
      do { s \<leftarrow> map_masked mapper (CFBitBucketMask (l mod 8) 7) (l div 8) s; map_span mapper (8 * (l div 8 + 1)) (len - ?k) s }"
    by (subst map_span.simps) (simp only: k Let_def if_False flip: i)
  also have "\<dots> = CFBitVectorInternalMap mapper l len s"
  proof -
    have "(l mod 8 + len < 8) = False" "(0 = len) = False" "8 - 1 = (7 :: nat)" using True by simp_all
    then show ?thesis
      unfolding map_span_aligned CFBitVectorInternalMap_def BITS_PER_BUCKET_def Let_def by (simp only: if_False prod.case)
  qed
  finally show ?thesis by simp
next
  case False
  then show ?thesis
    by (subst map_span.simps) (auto simp: CFBitVectorInternalMap_def BITS_PER_BUCKET_def Let_def)
qed

text \<open>Induction over the buckets the map visits: \<open>I l\<close> holds once all bits before \<open>l\<close> are done.\<close>

lemma map_span_rule:
  assumes "I l s"
    and "\<And>l' k s. I l' s \<Longrightarrow> l \<le> l' \<Longrightarrow> 0 < k \<Longrightarrow> l' + k \<le> l + len \<Longrightarrow> l' mod 8 + k \<le> 8 \<Longrightarrow>
      l' + k = l + len \<or> (l' + k) mod 8 = 0 \<Longrightarrow>
      \<exists>s'. map_masked mapper (CFBitBucketMask (l' mod 8) (l' mod 8 + k - 1)) (l' div 8) s = Some s' \<and> I (l' + k) s'"
  shows "\<exists>s'. map_span mapper l len s = Some s' \<and> I (l + len) s'"
  using assms
proof (induction mapper l len s rule: map_span.induct)
  case (1 mapper l len s)
  show ?case
  proof (cases "len = 0")
    case False
    define k where "k = min len (8 - l mod 8)"
    have m: "l mod 8 < 8" by simp
    have "(l + (8 - l mod 8)) mod 8 = 0" by presburger
    then have "l + k = l + len \<or> (l + k) mod 8 = 0" unfolding k_def min_def by simp
    moreover have k: "0 < k" "k \<le> len" "l mod 8 + k \<le> 8" using False m unfolding k_def by linarith+
    ultimately obtain s' where s':
      "map_masked mapper (CFBitBucketMask (l mod 8) (l mod 8 + k - 1)) (l div 8) s = Some s'" "I (l + k) s'"
      using 1(3)[OF 1(2) order_refl k(1) _ k(3)] by (metis add_le_cancel_left)
    have "\<exists>t. map_span mapper (l + k) (len - k) s' = Some t \<and> I (l + k + (len - k)) t"
      by (rule 1(1)[OF False refl k_def s'(1) s'(2)], rule 1(3)) (assumption | use k in linarith)+
    then show ?thesis using k(2) by (subst map_span.simps) (simp add: False s'(1)[simplified] Let_def flip: k_def)
  qed (use 1(2) in simp)
qed


lemma same_bucket: "l \<le> x \<Longrightarrow> x < l + k \<Longrightarrow> l mod 8 + k \<le> 8 \<Longrightarrow> x div 8 = l div (8 :: nat)"
  by (intro div_nat_eqI; (simp only: mult_Suc_right)?; use mult_div_mod_eq[of 8 l] in linarith)

lemma map_masked_ok:
  assumes "i < length bs" "mapper (bs ! i) m c = Some (nv, c')"
  shows "map_masked mapper m i (bs, c) = Some (bs[i := (bs ! i AND NOT m) OR (nv AND m)], c')"
  using assms by (simp add: map_masked_def bucket_defs)

text \<open>A mapper that computes the new bits of the range from the old ones, bit by bit.\<close>

locale bitwise_mapper =
  fixes mapper :: "'c mapper" and g :: "bool \<Rightarrow> bool"
  assumes maps: "\<exists>nv. mapper v m c = Some (nv, c) \<and> (\<forall>k<8. bit m k \<longrightarrow> bit nv k = g (bit v k))"
begin

lemma internal_map:
  assumes "l + len \<le> 8 * length bs"
  shows "\<exists>bs'. CFBitVectorInternalMap mapper l len (bs, c) = Some (bs', c) \<and> length bs' = length bs \<and>
    (\<forall>x. vbit bs' x = (if l \<le> x \<and> x < l + len then g (vbit bs x) else vbit bs x))"
proof -
  define I where "I = (\<lambda>n (bs', c'). c' = c \<and> length bs' = length bs \<and>
    (\<forall>x. vbit bs' x = (if l \<le> x \<and> x < n then g (vbit bs x) else vbit bs x)))"
  have "\<exists>s'. map_span mapper l len (bs, c) = Some s' \<and> I (l + len) s'"
  proof (rule map_span_rule)
    show "I l (bs, c)" by (auto simp: I_def)
  next
    fix l' k s assume i: "I l' s" and k: "l \<le> l'" "0 < k" "l' + k \<le> l + len" "l' mod 8 + k \<le> 8"
    obtain bs1 where s: "s = (bs1, c)" "length bs1 = length bs"
      "vbit bs1 x = (if l \<le> x \<and> x < l' then g (vbit bs x) else vbit bs x)" for x
      using i by (cases s) (auto simp: I_def)
    let ?i = "l' div 8" and ?m = "CFBitBucketMask (l' mod 8) (l' mod 8 + k - 1)"
    have len: "?i < length bs1" using k assms s(2) by (simp add: less_mult_imp_div_less)
    obtain nv where nv: "mapper (bs1 ! ?i) ?m c = Some (nv, c)"
      "\<And>k. k < 8 \<Longrightarrow> bit ?m k \<Longrightarrow> bit nv k = g (bit (bs1 ! ?i) k)" using maps by blast
    let ?bs2 = "bs1[?i := (bs1 ! ?i AND NOT ?m) OR (nv AND ?m)]"
    have "vbit ?bs2 x = (if l \<le> x \<and> x < l' + k then g (vbit bs x) else vbit bs x)" for x
    proof (cases "x div 8 = ?i")
      case True
      then have "vbit ?bs2 x = (if l' \<le> x \<and> x < l' + k then g (vbit bs1 x) else vbit bs1 x)"
        using nv(2)[of "7 - x mod 8"] mask_bit_index[OF k(2,4) True] len
        by (simp add: vbit_update bit_or_iff bit_and_iff bit_not_iff) (auto simp: vbit_def)
      then show ?thesis using k(1) by (auto simp: s(3))
    next
      case False
      then have "\<not> (l' \<le> x \<and> x < l' + k)" using same_bucket[OF _ _ k(4)] by blast
      then show ?thesis using False k(1) len by (auto simp: vbit_update s(3))
    qed
    then have "I (l' + k) (?bs2, c)" using s(2) by (simp add: I_def)
    then show "\<exists>s'. map_masked mapper ?m ?i s = Some s' \<and> I (l' + k) s'"
      using map_masked_ok[of ?i bs1 mapper ?m c nv c] len nv(1) s(1) by simp
  qed
  then show ?thesis unfolding InternalMap_span by (auto simp: I_def)
qed

end

interpretation zero: bitwise_mapper CFBitVectorZeroBits "\<lambda>_. False"
  by unfold_locales (simp add: CFBitVectorZeroBits_def)

interpretation one: bitwise_mapper CFBitVectorOneBits "\<lambda>_. True"
  by unfold_locales (simp add: CFBitVectorOneBits_def)

interpretation flip: bitwise_mapper CFBitVectorFlipBits_mapper Not
  by unfold_locales (simp add: CFBitVectorFlipBits_mapper_def bit_not_iff)

section \<open>Mutations are list operations\<close>

definition span_map :: "('a \<Rightarrow> 'a) \<Rightarrow> nat \<Rightarrow> nat \<Rightarrow> 'a list \<Rightarrow> 'a list" where
  "span_map g l len xs = take l xs @ map g (take len (drop l xs)) @ drop (l + len) xs"

lemma span_map_eqI:
  assumes "length ys = length xs" "l + len \<le> length xs"
    "\<And>i. i < length xs \<Longrightarrow> ys ! i = (if l \<le> i \<and> i < l + len then g (xs ! i) else xs ! i)"
  shows "ys = span_map g l len xs"
  using assms by (intro nth_equalityI) (auto simp: span_map_def nth_append min_def not_less)

lemma capacity_le: "n \<le> CFBitVectorRoundUpCapacity n"
  using div_mult_mod_eq[of "n + 63" 64] mod_less_divisor[of 64 "n + 63"]
  unfolding CFBitVectorRoundUpCapacity_def Let_def by (cases "0 = n"; simp only: if_True if_False)

lemma bv_inv_len: "bv_inv bv \<Longrightarrow> bv_count bv < 8 * length (bv_buckets bv)"
  using mult_div_mod_eq[of 8 "bv_capacity bv"] mod_less_divisor[of 8 "bv_capacity bv"]
  unfolding bv_inv_def CFBitVectorNumBuckets_def BITS_PER_BUCKET_def by linarith

lemma bv_bits_nth: "i < bv_count bv \<Longrightarrow> bv_bits bv ! i = vbit (bv_buckets bv) i"
  by (simp add: bv_bits_def)

lemma length_bv_bits [simp]: "length (bv_bits bv) = bv_count bv"
  by (simp add: bv_bits_def)

context bitwise_mapper
begin

lemma map_bits_ok:
  fixes bv :: CFBitVector
  assumes "bv_inv bv" "l + len \<le> bv_count bv"
  shows "\<exists>bs. CFBitVectorInternalMap mapper l len (bv_buckets bv, c) = Some (bs, c) \<and>
    bv_inv (bv\<lparr>bv_buckets := bs\<rparr>) \<and> bv_bits (bv\<lparr>bv_buckets := bs\<rparr>) = span_map g l len (bv_bits bv)"
proof -
  obtain bs where bs: "CFBitVectorInternalMap mapper l len (bv_buckets bv, c) = Some (bs, c)" "length bs = length (bv_buckets bv)"
    "\<forall>x. vbit bs x = (if l \<le> x \<and> x < l + len then g (vbit (bv_buckets bv) x) else vbit (bv_buckets bv) x)"
    using internal_map[of l len "bv_buckets bv" c] assms(2) bv_inv_len[OF assms(1)] by auto
  then have "bv_bits (bv\<lparr>bv_buckets := bs\<rparr>) = span_map g l len (bv_bits bv)"
    using assms(2) by (intro span_map_eqI) (simp_all add: bv_bits_nth)
  then show ?thesis using bs assms(1) by (auto simp: bv_inv_def CFBitVectorNumBuckets_def)
qed

end


lemma map_bits_spec:
  assumes "bv_inv bv" "l + len \<le> bv_count bv" "bitwise_mapper mapper g"
  shows "\<exists>bv'. map_bits mapper l len bv = Some bv' \<and> bv_inv bv' \<and> bv_bits bv' = span_map g l len (bv_bits bv)"
proof -
  show ?thesis using bitwise_mapper.map_bits_ok[OF assms(3,1,2), of "()"] by (auto simp: map_bits_def)
qed

lemma span_map_0 [simp]: "span_map g l 0 xs = xs"
  by (simp add: span_map_def)

lemma bit_at_index:
  assumes "bv_inv bv" "idx < bv_count bv"
  shows "\<exists>bv'. CFBitVectorSetBitAtIndex bv idx v = Some bv' \<and> bv_inv bv' \<and> bv_bits bv' = (bv_bits bv)[idx := v]"
    "\<exists>bv'. CFBitVectorFlipBitAtIndex bv idx = Some bv' \<and> bv_inv bv' \<and> bv_bits bv' = (bv_bits bv)[idx := \<not> bv_bits bv ! idx]"
proof -
  let ?i = "idx div 8" and ?p = "7 - idx mod 8"
  have i: "?i < length (bv_buckets bv)" using bv_inv_len[OF assms(1)] assms(2) by (simp add: less_mult_imp_div_less)
  have same: "7 - x mod 8 = ?p \<and> x div 8 = ?i \<longleftrightarrow> x = idx" for x
  proof
    assume a: "7 - x mod 8 = ?p \<and> x div 8 = ?i"
    moreover have "x mod 8 < 8" "idx mod 8 < 8" by simp_all
    ultimately have "x mod 8 = idx mod 8" by linarith
    then show "x = idx" using a by (metis div_mult_mod_eq)
  qed simp
  have upd: "bv_inv (bv\<lparr>bv_buckets := (bv_buckets bv)[?i := w]\<rparr>) \<and>
      bv_bits (bv\<lparr>bv_buckets := (bv_buckets bv)[?i := w]\<rparr>) = (bv_bits bv)[idx := v]"
    if w: "\<And>k. k < 8 \<Longrightarrow> bit w k = (if k = ?p then v else bit (bv_buckets bv ! ?i) k)" for w v
  proof
    show "bv_inv (bv\<lparr>bv_buckets := (bv_buckets bv)[?i := w]\<rparr>)"
      using assms(1) by (simp add: bv_inv_def CFBitVectorNumBuckets_def)
    have "vbit ((bv_buckets bv)[?i := w]) x = (if x = idx then v else vbit (bv_buckets bv) x)" for x
      using w[of "7 - x mod 8"] same[of x] by (auto simp: vbit_update[OF i]) (auto simp: vbit_def)
    then show "bv_bits (bv\<lparr>bv_buckets := (bv_buckets bv)[?i := w]\<rparr>) = (bv_bits bv)[idx := v]"
      by (intro nth_equalityI) (simp_all add: bv_bits_nth nth_list_update)
  qed
  have m: "bit (push_bit ?p 1 :: u8) k = (k = ?p)" if "k < 8" for k using that by (auto simp: bit_exp_iff)
  have w: "bit (if v then w OR push_bit ?p 1 else w AND NOT (push_bit ?p 1)) k = (if k = ?p then v else bit w k)"
      "bit (w XOR push_bit ?p 1) k = (if k = ?p then \<not> bit w ?p else bit w k)" if "k < 8" for k and w :: u8
    using that m[OF that] by (auto simp: bit_or_iff bit_and_iff bit_not_iff bit_xor_iff simp del: push_bit_of_1)
  show "\<exists>bv'. CFBitVectorSetBitAtIndex bv idx v = Some bv' \<and> bv_inv bv' \<and> bv_bits bv' = (bv_bits bv)[idx := v]"
    using upd[OF w(1)] i by (auto simp: CFBitVectorSetBitAtIndex_def CFSetBitVectorBit_def bucket_defs Let_def simp del: push_bit_of_1)
  have "bit (bv_buckets bv ! ?i) ?p = bv_bits bv ! idx" using assms(2) by (simp add: bv_bits_nth vbit_def)
  then show "\<exists>bv'. CFBitVectorFlipBitAtIndex bv idx = Some bv' \<and> bv_inv bv' \<and> bv_bits bv' = (bv_bits bv)[idx := \<not> bv_bits bv ! idx]"
    using upd[OF w(2)] i by (auto simp: CFBitVectorFlipBitAtIndex_def CFFlipBitVectorBit_def bucket_defs Let_def simp del: push_bit_of_1)
qed


lemma vbit_append_left: "x < 8 * length xs \<Longrightarrow> vbit (xs @ ys) x = vbit xs x"
  by (simp add: vbit_def nth_append less_mult_imp_div_less)

lemma vbit_append_right: "8 * length xs \<le> x \<Longrightarrow> vbit (xs @ ys) x = vbit ys (x - 8 * length xs)"
proof -
  assume a: "8 * length xs \<le> x"
  then obtain y where x: "x = y + 8 * length xs" by (metis add.commute le_add_diff_inverse)
  then show ?thesis by (simp add: vbit_def nth_append div_mult_self4)
qed

lemma vbit_drop: "8 * n \<le> x \<Longrightarrow> n \<le> length xs \<Longrightarrow> vbit (drop n xs) (x - 8 * n) = vbit xs x"
  using vbit_append_right[of "take n xs" x "drop n xs"] by (simp add: min_def)

lemma SetAllBits_ok:
  assumes "bv_inv bv"
  shows "\<exists>bv'. CFBitVectorSetAllBits bv v = Some bv' \<and> bv_inv bv' \<and> bv_bits bv' = replicate (bv_count bv) v"
proof -
  let ?n = "bv_count bv div 8" and ?r = "bv_count bv - bv_count bv div 8 * 8"
  let ?mapper = "if v then CFBitVectorOneBits else CFBitVectorZeroBits"
  have m: "bitwise_mapper ?mapper (\<lambda>_. v)" using one.bitwise_mapper_axioms zero.bitwise_mapper_axioms by (cases v) simp_all
  obtain bv1 where bv1: "(if 0 < ?r then map_bits ?mapper (?n * 8) ?r bv else Some bv) = Some bv1" "bv_inv bv1"
      "bv_count bv1 = bv_count bv" "\<And>x. ?n * 8 \<le> x \<Longrightarrow> x < bv_count bv \<Longrightarrow> vbit (bv_buckets bv1) x = v"
  proof (cases "0 < ?r")
    case True
    obtain bs where "CFBitVectorInternalMap ?mapper (?n * 8) ?r (bv_buckets bv, ()) = Some (bs, ())"
      "bv_inv (bv\<lparr>bv_buckets := bs\<rparr>)" "bv_bits (bv\<lparr>bv_buckets := bs\<rparr>) = span_map (\<lambda>_. v) (?n * 8) ?r (bv_bits bv)"
      using bitwise_mapper.map_bits_ok[OF m assms, of "?n * 8" ?r "()"] by auto
    moreover have "vbit bs x = v" if "?n * 8 \<le> x" "x < bv_count bv" for x
      using arg_cong[OF \<open>bv_bits _ = _\<close>, of "\<lambda>l. l ! x"] that
      by (simp add: bv_bits_nth span_map_def nth_append min_def split: if_splits)
    ultimately show ?thesis using that[of "bv\<lparr>bv_buckets := bs\<rparr>"] True by (simp add: map_bits_def)
  next
    case False
    then show ?thesis using that[of bv] assms by auto
  qed
  let ?bs = "replicate ?n (if v then NOT 0 else 0) @ drop ?n (bv_buckets bv1)"
  have n: "?n \<le> length (bv_buckets bv1)" using bv_inv_len[OF bv1(2)] bv1(3) by linarith
  have "vbit ?bs x = v" if "x < bv_count bv" for x
  proof (cases "x < 8 * ?n")
    case True
    then have "x div 8 < ?n" "7 - x mod 8 < 8" by (simp_all add: less_mult_imp_div_less mult.commute)
    then show ?thesis using True vbit_append_left[of x "replicate ?n (if v then NOT 0 else 0)" "drop ?n (bv_buckets bv1)"]
      by (simp add: vbit_def)
  next
    case False
    then show ?thesis
      using vbit_append_right[of "replicate ?n (if v then NOT 0 else 0)" x "drop ?n (bv_buckets bv1)"]
        vbit_drop[OF _ n, of x] bv1(4)[of x] that by simp
  qed
  then have "bv_bits (bv1\<lparr>bv_buckets := ?bs\<rparr>) = replicate (bv_count bv) v"
    using bv1(3) by (intro nth_equalityI) (simp_all add: bv_bits_nth)
  moreover have "bv_inv (bv1\<lparr>bv_buckets := ?bs\<rparr>)" using bv1(2) n by (simp add: bv_inv_def CFBitVectorNumBuckets_def)
  moreover have "CFBitVectorSetAllBits bv v = Some (bv1\<lparr>bv_buckets := ?bs\<rparr>)"
    using n by (simp only: CFBitVectorSetAllBits_def BITS_PER_BUCKET_def Let_def bv1(1) bind.bind_lunit if_True)
  ultimately show ?thesis by blast
qed

lemma SetCount_ok:
  assumes "bv_inv bv" "bv_mutable bv"
  shows "\<exists>bv'. CFBitVectorSetCount fresh bv n = Some bv' \<and> bv_inv bv' \<and>
    bv_bits bv' = take n (bv_bits bv) @ replicate (n - bv_count bv) False"
proof (cases "bv_count bv < n")
  case False
  then show ?thesis using assms(1)
    by (auto simp: CFBitVectorSetCount_def bv_inv_def CFBitVectorNumBuckets_def bv_bits_def take_map)
next
  case True
  let ?bv = "CFBitVectorGrow fresh bv (n - bv_count bv)"
  let ?bs = "reallocate fresh (bv_buckets bv) (CFBitVectorNumBuckets ?bv)"
  have cap: "bv_capacity ?bv = CFBitVectorRoundUpCapacity n" and bs: "bv_buckets ?bv = ?bs"
    using True by (simp_all add: CFBitVectorGrow_def Let_def CFBitVectorNumBuckets_def)
  have inv: "bv_inv (?bv\<lparr>bv_count := n\<rparr>)"
    using cap capacity_le[of n] by (simp add: bv_inv_def bs CFBitVectorNumBuckets_def reallocate_def)
  obtain bs' where bs': "CFBitVectorInternalMap CFBitVectorZeroBits (bv_count bv) (n - bv_count bv) (?bs, ()) = Some (bs', ())"
    "bv_inv (?bv\<lparr>bv_count := n, bv_buckets := bs'\<rparr>)"
    "bv_bits (?bv\<lparr>bv_count := n, bv_buckets := bs'\<rparr>) =
       span_map (\<lambda>_. False) (bv_count bv) (n - bv_count bv) (bv_bits (?bv\<lparr>bv_count := n\<rparr>))"
    using zero.map_bits_ok[OF inv, of "bv_count bv" "n - bv_count bv" "()"] True bs by auto
  have "vbit ?bs x = vbit (bv_buckets bv) x" if "x < bv_count bv" for x
  proof -
    have "x < 8 * length (take (CFBitVectorNumBuckets ?bv) (bv_buckets bv))"
      using bv_inv_len[OF inv] bv_inv_len[OF assms(1)] inv that True by (simp add: bv_inv_def min_def CFBitVectorNumBuckets_def)
    then have "vbit ?bs x = vbit (take (CFBitVectorNumBuckets ?bv) (bv_buckets bv)) x"
      unfolding reallocate_def by (rule vbit_append_left)
    also have "\<dots> = vbit (bv_buckets bv) x"
      using vbit_append_left[OF \<open>x < 8 * length _\<close>, of "drop (CFBitVectorNumBuckets ?bv) (bv_buckets bv)"] by simp
    finally show ?thesis .
  qed
  then have "take (bv_count bv) (bv_bits (?bv\<lparr>bv_count := n\<rparr>)) = bv_bits bv"
    using True by (intro nth_equalityI) (simp_all add: bv_bits_nth bs)
  then have "span_map (\<lambda>_. False) (bv_count bv) (n - bv_count bv) (bv_bits (?bv\<lparr>bv_count := n\<rparr>)) =
      take n (bv_bits bv) @ replicate (n - bv_count bv) False"
    using True by (simp add: span_map_def map_replicate_const)
  moreover have "CFBitVectorSetCount fresh bv n = Some (?bv\<lparr>bv_count := n, bv_buckets := bs'\<rparr>)"
    using bs'(1) True assms(2) bs by (simp add: CFBitVectorSetCount_def map_bits_def)
  ultimately show ?thesis using bs'(2,3) by (metis bs'(3))
qed

text \<open>
  C20: the operations that change a bit vector do to its list of bits what they say: set or flip a range, set or flip
  one bit, set all bits, and change the number of bits, where new bits are zero whatever the reallocated memory holds.
  They keep the vector well formed and access no bucket outside it.
\<close>

theorem BitVector_mutations_refine:
  assumes "bv_inv bv" "bv_mutable bv"
  shows "(l + len \<le> bv_count bv \<longrightarrow>
      (\<exists>bv'. CFBitVectorSetBits bv l len v = Some bv' \<and> bv_inv bv' \<and> bv_bits bv' = span_map (\<lambda>_. v) l len (bv_bits bv)) \<and>
      (\<exists>bv'. CFBitVectorFlipBits bv l len = Some bv' \<and> bv_inv bv' \<and> bv_bits bv' = span_map Not l len (bv_bits bv))) \<and>
    (idx < bv_count bv \<longrightarrow>
      (\<exists>bv'. CFBitVectorSetBitAtIndex bv idx v = Some bv' \<and> bv_inv bv' \<and> bv_bits bv' = (bv_bits bv)[idx := v]) \<and>
      (\<exists>bv'. CFBitVectorFlipBitAtIndex bv idx = Some bv' \<and> bv_inv bv' \<and>
         bv_bits bv' = (bv_bits bv)[idx := \<not> bv_bits bv ! idx])) \<and>
    (\<exists>bv'. CFBitVectorSetAllBits bv v = Some bv' \<and> bv_inv bv' \<and> bv_bits bv' = replicate (bv_count bv) v) \<and>
    (\<exists>bv'. CFBitVectorSetCount fresh bv n = Some bv' \<and> bv_inv bv' \<and>
       bv_bits bv' = take n (bv_bits bv) @ replicate (n - bv_count bv) False)"
proof -
  have "\<exists>bv'. CFBitVectorSetBits bv l len v = Some bv' \<and> bv_inv bv' \<and> bv_bits bv' = span_map (\<lambda>_. v) l len (bv_bits bv)"
    "\<exists>bv'. CFBitVectorFlipBits bv l len = Some bv' \<and> bv_inv bv' \<and> bv_bits bv' = span_map Not l len (bv_bits bv)"
    if "l + len \<le> bv_count bv"
    using map_bits_spec[OF assms(1) that one.bitwise_mapper_axioms] map_bits_spec[OF assms(1) that zero.bitwise_mapper_axioms]
      map_bits_spec[OF assms(1) that flip.bitwise_mapper_axioms] assms(1)
    by (auto simp: CFBitVectorSetBits_def CFBitVectorFlipBits_def)
  then show ?thesis using bit_at_index[OF assms(1)] SetAllBits_ok[OF assms(1)] SetCount_ok[OF assms] by blast
qed


section \<open>Queries\<close>

lemma nibble_count: "n < 16 \<Longrightarrow> CFNibbleBitCount ! n = length (filter (bit n) [0..<4])"
proof -
  have "\<forall>n\<in>set [0..<16]. CFNibbleBitCount ! n = length (filter (bit n) [0..<4])" by code_simp
  then show "n < 16 \<Longrightarrow> ?thesis" by simp
qed

lemma popcount:
  "CFNibbleBitCount ! unat (w AND 0xF) + CFNibbleBitCount ! unat (drop_bit 4 w AND 0xF) = card {k. k < 8 \<and> bit (w :: u8) k}"
proof -
  have nib: "CFNibbleBitCount ! unat (x AND 0xF) = card {k. k < 4 \<and> bit x k}" for x :: u8
  proof -
    have m: "x AND 0xF = take_bit 4 x" by (simp add: take_bit_eq_mask mask_numeral)
    have b: "bit (unat (x AND 0xF)) k = (bit x k \<and> k < 4)" for k
      unfolding m by (auto simp: bit_unsigned_iff bit_take_bit_iff dest: bit_imp_le_length)
    have "unat (x AND 0xF) < 16" unfolding m by (simp add: unsigned_take_bit_eq take_bit_nat_less_exp[of 4, simplified])
    then have "CFNibbleBitCount ! unat (x AND 0xF) = length (filter (bit (unat (x AND 0xF))) [0..<4])" by (rule nibble_count)
    also have "\<dots> = card (set (filter (bit (unat (x AND 0xF))) [0..<4]))" by (rule distinct_card[symmetric]) simp
    also have "set (filter (bit (unat (x AND 0xF))) [0..<4]) = {k. k < 4 \<and> bit x k}" by (auto simp: b)
    finally show ?thesis .
  qed
  have "x \<in> (\<lambda>k. 4 + k) ` {k. k < 4 \<and> bit (drop_bit 4 w) k} \<longleftrightarrow> 4 \<le> x \<and> x < 8 \<and> bit w x" for x
    by (auto simp: bit_drop_bit_eq intro!: image_eqI[of _ _ "x - 4"])
  then have "{k. k < 8 \<and> bit w k} = {k. k < 4 \<and> bit w k} \<union> (\<lambda>k. 4 + k) ` {k. k < 4 \<and> bit (drop_bit 4 w) k}"
    by auto
  also have "card \<dots> = card {k. k < 4 \<and> bit w k} + card ((\<lambda>k. 4 + k) ` {k. k < 4 \<and> bit (drop_bit 4 w) k})"
    by (rule card_Un_disjoint) auto
  finally show ?thesis unfolding nib by (simp add: card_image)
qed


lemma CountBits_card:
  "CFBitVectorCountBits w m (v, n) = Some (w, (v, n + card {k. k < 8 \<and> bit m k \<and> bit w k = v}))"
  using popcount[of "if v then w AND m else NOT w AND m"]
  by (auto simp: CFBitVectorCountBits_def Let_def bit_and_iff bit_not_iff conj_commute intro!: arg_cong[where f = card])

lemma GetCountOfBit_ok:
  assumes "bv_inv bv" "l + len \<le> bv_count bv"
  shows "CFBitVectorGetCountOfBit bv l len v = Some (bv, length (filter (\<lambda>b. b = v) (take len (drop l (bv_bits bv)))))"
proof -
  let ?bs = "bv_buckets bv" and ?S = "\<lambda>n. {x. l \<le> x \<and> x < n \<and> vbit (bv_buckets bv) x = v}"
  define I where "I = (\<lambda>n s. s = (?bs, (v, card (?S n))))"
  have "\<exists>s'. map_span CFBitVectorCountBits l len (?bs, (v, 0)) = Some s' \<and> I (l + len) s'"
  proof (rule map_span_rule)
    have "?S l = {}" by auto
    then show "I l (?bs, v, 0)" by (simp add: I_def)
  next
    fix l' k s assume s: "I l' s" and k: "l \<le> l'" "0 < k" "l' + k \<le> l + len" "l' mod 8 + k \<le> 8"
    let ?i = "l' div 8" and ?m = "CFBitBucketMask (l' mod 8) (l' mod 8 + k - 1)"
    let ?B = "{j. j < 8 \<and> bit ?m j \<and> bit (?bs ! ?i) j = v}" and ?X = "{x. l' \<le> x \<and> x < l' + k \<and> vbit ?bs x = v}"
    have i: "?i < length ?bs" using k assms bv_inv_len[OF assms(1)] by (simp add: less_mult_imp_div_less)
    have "bij_betw (\<lambda>x. 7 - x mod 8) ?X ?B"
    proof (rule bij_betw_byWitness[where f' = "\<lambda>j. 8 * ?i + (7 - j)"])
      have q: "x div 8 = ?i" if "x \<in> ?X" for x using same_bucket[OF _ _ k(4)] that by blast
      show "\<forall>x\<in>?X. 8 * ?i + (7 - (7 - x mod 8)) = x"
      proof
        fix x assume "x \<in> ?X"
        then have "8 * ?i + x mod 8 = x" using q[of x] mult_div_mod_eq[of 8 x] by simp
        moreover have "7 - (7 - x mod 8) = x mod 8" using mod_less_divisor[of 8 x] by linarith
        ultimately show "8 * ?i + (7 - (7 - x mod 8)) = x" by simp
      qed
      have j: "(8 * ?i + (7 - j)) mod 8 = 7 - j" "(8 * ?i + (7 - j)) div 8 = ?i" for j by simp_all
      show "\<forall>j\<in>?B. 7 - (8 * ?i + (7 - j)) mod 8 = j" unfolding j by auto
      show "(\<lambda>x. 7 - x mod 8) ` ?X \<subseteq> ?B"
        using q mask_bit_index[OF k(2,4)] by (auto simp: vbit_def)
      show "(\<lambda>j. 8 * ?i + (7 - j)) ` ?B \<subseteq> ?X"
      proof
        fix x assume "x \<in> (\<lambda>j. 8 * ?i + (7 - j)) ` ?B"
        then obtain b where b: "b \<in> ?B" "x = 8 * ?i + (7 - b)" by blast
        then have "7 - x mod 8 = b" "x div 8 = ?i" using j[of b] by auto
        then show "x \<in> ?X" using b(1) mask_bit_index[OF k(2,4), of x] by (simp add: vbit_def)
      qed
    qed
    then have "card ?X = card ?B" by (rule bij_betw_same_card)
    moreover have "?S (l' + k) = ?S l' \<union> ?X" using k(1) by auto
    moreover have "card (?S l' \<union> ?X) = card (?S l') + card ?X"
    proof (rule card_Un_disjoint)
      show "finite (?S l')" by (rule finite_subset[of _ "{..<l'}"]) blast+
      show "finite ?X" by (rule finite_subset[of _ "{..<l' + k}"]) blast+
      show "?S l' \<inter> ?X = {}"
      proof (rule equals0I)
        fix y assume "y \<in> ?S l' \<inter> ?X"
        then have "y < l'" "l' \<le> y" by blast+
        then show False by simp
      qed
    qed
    moreover have "(?bs ! ?i AND NOT ?m) OR (?bs ! ?i AND ?m) = ?bs ! ?i"
      by (rule bit_word_eqI) (auto simp: bit_or_iff bit_and_iff bit_not_iff)
    ultimately show "\<exists>s'. map_masked CFBitVectorCountBits ?m ?i s = Some s' \<and> I (l' + k) s'"
      using s map_masked_ok[of ?i ?bs CFBitVectorCountBits ?m "(v, card (?S l'))"] i CountBits_card[of "?bs ! ?i" ?m v "card (?S l')"] by (simp add: I_def)
  qed
  moreover have "card (?S (l + len)) = length (filter (\<lambda>b. b = v) (take len (drop l (bv_bits bv))))"
  proof -
    have "take len (drop l (bv_bits bv)) = map (vbit ?bs) [l..<l + len]"
      using assms(2) by (intro nth_equalityI) (simp_all add: bv_bits_def)
    then have "length (filter (\<lambda>b. b = v) (take len (drop l (bv_bits bv)))) =
        card (set (filter (\<lambda>x. vbit ?bs x = v) [l..<l + len]))"
      by (simp add: filter_map distinct_card[symmetric] o_def)
    also have "set (filter (\<lambda>x. vbit ?bs x = v) [l..<l + len]) = ?S (l + len)" by auto
    finally show ?thesis by simp
  qed
  ultimately show ?thesis by (auto simp: CFBitVectorGetCountOfBit_def InternalMap_span I_def)
qed

lemma GetBitAtIndex_ok: "bv_inv bv \<Longrightarrow> i < bv_count bv \<Longrightarrow> CFBitVectorGetBitAtIndex bv i = Some (bv_bits bv ! i)"
  using bv_inv_len[of bv] by (simp add: CFBitVectorGetBitAtIndex_def CFBitVectorBit_vbit bv_bits_nth)

lemma FirstIndex_ok:
  "bv_inv bv \<Longrightarrow> l + idx + n \<le> bv_count bv \<Longrightarrow>
    FirstIndex_from bv l idx n v = Some (find (\<lambda>i. bv_bits bv ! i = v) [l + idx..<l + idx + n])"
proof (induction n arbitrary: idx)
  case (Suc n)
  have "[l + idx..<l + idx + Suc n] = (l + idx) # [l + (idx + 1)..<l + (idx + 1) + n]"
    by (simp add: upt_conv_Cons del: upt_Suc)
  then show ?case using Suc.IH[of "idx + 1"] Suc.prems by (auto simp: GetBitAtIndex_ok simp del: upt_Suc)
qed simp

lemma LastIndex_ok:
  "bv_inv bv \<Longrightarrow> l + n \<le> bv_count bv \<Longrightarrow>
    CFBitVectorGetLastIndexOfBit bv l n v = Some (find (\<lambda>i. bv_bits bv ! i = v) (rev [l..<l + n]))"
  by (induction n) (auto simp: GetBitAtIndex_ok)

text \<open>
  C35: the queries over a range answer for its bits: how many have a value, whether one has it, the first and the last
  index of one, or that there is none. The counting map writes back every bucket as it was.
\<close>

theorem BitVector_queries_correct:
  assumes "bv_inv bv" "l + len \<le> bv_count bv"
  shows "CFBitVectorGetCountOfBit bv l len v = Some (bv, length (filter (\<lambda>b. b = v) (take len (drop l (bv_bits bv))))) \<and>
    CFBitVectorContainsBit bv l len v = Some (bv, v \<in> set (take len (drop l (bv_bits bv)))) \<and>
    CFBitVectorGetFirstIndexOfBit bv l len v = Some (find (\<lambda>i. bv_bits bv ! i = v) [l..<l + len]) \<and>
    CFBitVectorGetLastIndexOfBit bv l len v = Some (find (\<lambda>i. bv_bits bv ! i = v) (rev [l..<l + len]))"
  using GetCountOfBit_ok[OF assms] FirstIndex_ok[OF assms(1), of l 0 len v] LastIndex_ok[OF assms] assms(2)
  by (auto simp: CFBitVectorContainsBit_def CFBitVectorGetFirstIndexOfBit_def filter_empty_conv)


section \<open>Copying bits out and in\<close>

text \<open>What the mapper of \<open>CFBitVectorGetBits\<close> does for one bucket of a range that starts on a bucket boundary.\<close>

lemma GetBits_mapper_aligned:
  assumes "gb_initBits c = 0" "0 < gb_totalBits c" "gb_curByte c < length (gb_bytes c)"
  shows "\<exists>c'. CFBitVectorGetBits_mapper w m c = Some (w, c') \<and> gb_initBits c' = 0 \<and>
    gb_bytes c' = (gb_bytes c)[gb_curByte c := w AND m] \<and>
    (if 8 \<le> gb_totalBits c then gb_totalBits c' = gb_totalBits c \<and> gb_curByte c' = gb_curByte c + 1
     else gb_totalBits c' = 0 \<and> gb_curByte c' = gb_curByte c)"
  using assms GetBits_whole.simps[of "w AND m" "min 8 (gb_totalBits c)" c] GetBits_whole.simps[of 0 0]
  by (auto simp: CFBitVectorGetBits_mapper_def Let_def bucket_defs min_def)

lemma vbit_masked:
  assumes "0 < k" "l mod 8 + k \<le> 8" "x < 8"
  shows "bit (w AND CFBitBucketMask (l mod 8) (l mod 8 + k - 1)) (7 - x) \<longleftrightarrow>
    bit w (7 - x) \<and> l mod 8 \<le> x \<and> x < l mod 8 + k"
  using mask_bit[of "l mod 8" "l mod 8 + k - 1" "7 - x"] assms by (auto simp: bit_and_iff)

lemma GetBits_aligned:
  assumes "bv_inv bv" "l mod 8 = 0" "l + len \<le> bv_count bv" "(len + 7) div 8 \<le> length bytes"
  shows "\<exists>bytes'. CFBitVectorGetBits bv l len bytes = Some (bv, bytes') \<and> length bytes' = length bytes \<and>
    (\<forall>x < 8 * ((len + 7) div 8). vbit bytes' x = (x < len \<and> bv_bits bv ! (l + x))) \<and>
    drop ((len + 7) div 8) bytes' = drop ((len + 7) div 8) bytes"
proof (cases "len = 0")
  case True
  then show ?thesis by (auto simp: CFBitVectorGetBits_def)
next
  case False
  let ?bs = "bv_buckets bv"
  define nb where "nb = (\<lambda>n. (n - l + 7) div 8)"
  define I where "I = (\<lambda>n (bs, c :: getBitsContext). bs = ?bs \<and> gb_initBits c = 0 \<and> length (gb_bytes c) = length bytes \<and>
    (n < l + len \<longrightarrow> n mod 8 = 0 \<and> gb_curByte c = (n - l) div 8 \<and> 0 < gb_totalBits c \<and> (8 \<le> len \<longrightarrow> 8 \<le> gb_totalBits c)) \<and>
    l \<le> n \<and> drop (nb n) (gb_bytes c) = drop (nb n) bytes \<and>
    (\<forall>x < 8 * nb n. vbit (gb_bytes c) x = (l + x < n \<and> vbit ?bs (l + x))))"
  let ?c = "\<lparr>gb_bytes = bytes, gb_curByte = 0, gb_initBits = l mod BITS_PER_BUCKET, gb_totalBits = int len, gb_ignoreFirstInitBits = True\<rparr>"
  have "\<exists>s'. map_span CFBitVectorGetBits_mapper l len (?bs, ?c) = Some s' \<and> I (l + len) s'"
  proof (rule map_span_rule)
    show "I l (?bs, ?c)" using assms(2) False by (simp add: I_def nb_def BITS_PER_BUCKET_def)
  next
    fix l' k s assume i: "I l' s" and k: "l \<le> l'" "0 < k" "l' + k \<le> l + len" "l' mod 8 + k \<le> 8"
      and e: "l' + k = l + len \<or> (l' + k) mod 8 = 0"
    obtain c where c: "s = (?bs, c)" "gb_initBits c = 0" "length (gb_bytes c) = length bytes" "l' mod 8 = 0"
      "gb_curByte c = (l' - l) div 8" "0 < gb_totalBits c" "8 \<le> len \<longrightarrow> 8 \<le> gb_totalBits c"
      "drop (nb l') (gb_bytes c) = drop (nb l') bytes"
      "\<And>x. x < 8 * nb l' \<Longrightarrow> vbit (gb_bytes c) x = (l + x < l' \<and> vbit ?bs (l + x))"
      using i k by (cases s) (auto simp: I_def)
    obtain j a where j: "l' = l + 8 * j" "l = 8 * a"
      using c(4) assms(2) k(1) by (metis dvd_diff_nat le_add_diff_inverse dvdE mod_0_imp_dvd)
    have d: "nb l' = j" "nb (l' + k) = Suc j" "(l' - l) div 8 = j" "l' div 8 = a + j"
      using k(2,4) c(4) by (simp_all add: nb_def j)
    let ?i = "a + j" and ?m = "CFBitBucketMask (l' mod 8) (l' mod 8 + k - 1)"
    have i: "?i < length ?bs" using k(2,3) bv_inv_len[OF assms(1)] assms(3) by (simp add: j)
    have len: "j < length (gb_bytes c)"
    proof -
      have "8 * j < len" using k(2,3) by (simp add: j)
      then have "j < (len + 7) div 8" by simp
      then show ?thesis using assms(4) c(3) by simp
    qed
    have cur: "gb_curByte c = j" using c(5) d(3) by simp
    obtain c' where c': "CFBitVectorGetBits_mapper (?bs ! ?i) ?m c = Some (?bs ! ?i, c')" "gb_initBits c' = 0"
      "gb_bytes c' = (gb_bytes c)[j := ?bs ! ?i AND ?m]"
      "8 \<le> gb_totalBits c \<Longrightarrow> gb_totalBits c' = gb_totalBits c \<and> gb_curByte c' = j + 1"
      using GetBits_mapper_aligned[OF c(2,6), of "?bs ! ?i" ?m] len unfolding cur by auto
    have same: "(?bs ! ?i AND NOT ?m) OR (?bs ! ?i AND ?m) = ?bs ! ?i"
      by (rule bit_word_eqI) (auto simp: bit_or_iff bit_and_iff bit_not_iff)
    have bits: "vbit (gb_bytes c') x = (l + x < l' + k \<and> vbit ?bs (l + x))" if "x < 8 * Suc j" for x
    proof (cases "x < 8 * j")
      case True
      then have "x div 8 < j" by (simp add: less_mult_imp_div_less mult.commute)
      then show ?thesis using c(9)[of x, unfolded d(1)] True len by (simp add: c'(3) vbit_update j)
    next
      case False
      define y where "y = x - 8 * j"
      have y: "x = 8 * j + y" "y < 8" using False that by (simp_all add: y_def)
      then have "x div 8 = j" "x mod 8 = y" "(l + x) div 8 = ?i" "(l + x) mod 8 = y" by (simp_all add: j)
      then show ?thesis using vbit_masked[OF k(2,4) y(2), of "?bs ! ?i"] len c(4) y
        by (simp add: c'(3) vbit_update) (auto simp: vbit_def j)
    qed
    have "drop (Suc j) (gb_bytes c') = drop (Suc j) bytes"
      using arg_cong[OF c(8), of "drop 1"] by (simp add: c'(3) d(1) drop_update_cancel)
    moreover have "k = 8 \<and> 8 \<le> len" if "l' + k < l + len"
    proof -
      have "(8 * (a + j) + k) mod 8 = 0" using that e by (simp add: j algebra_simps)
      then have "k mod 8 = 0" by (simp only: mod_mult_self4)
      then have "k = 8" using k(2,4) by (cases "k < 8") auto
      then show ?thesis using that by (simp add: j)
    qed
    ultimately have "I (l' + k) (?bs, c')"
      unfolding I_def using c' c(3,4,7) k(1,2) bits by (simp add: d(2)) (auto simp: j)
    then show "\<exists>s'. map_masked CFBitVectorGetBits_mapper ?m (l' div 8) s = Some s' \<and> I (l' + k) s'"
      using map_masked_ok[of ?i ?bs CFBitVectorGetBits_mapper ?m c "?bs ! ?i" c'] i c'(1) same c(1) d(4) by simp
  qed
  then obtain c where "map_span CFBitVectorGetBits_mapper l len (?bs, ?c) = Some (?bs, c)" "I (l + len) (?bs, c)"
    by (auto simp: I_def)
  then show ?thesis
    using False assms(3) by (auto simp: CFBitVectorGetBits_def InternalMap_span Let_def I_def nb_def bv_bits_nth)
qed


lemma bytes_for_bits: "n div 8 + (if n mod 8 \<noteq> 0 then 1 else 0) = (n + 7) div (8 :: nat)"
proof -
  obtain q r where n: "n = 8 * q + r" "r < 8" by (metis mod_less_divisor mult_div_mod_eq zero_less_numeral)
  then show ?thesis by (cases "r = 0") (auto simp: div_add1_eq[of "8 * q"] div_nat_eqI)
qed

lemma vbit_take: "x < 8 * n \<Longrightarrow> n \<le> length xs \<Longrightarrow> vbit (take n xs) x = vbit xs x"
  by (simp add: vbit_def less_mult_imp_div_less mult.commute)

lemma Init_ok:
  assumes "(numBits + 7) div 8 \<le> length b"
  shows "\<exists>bv. CFBitVectorInit (True, True) flags capacity (Some b) numBits = Some (Some bv) \<and> bv_inv bv \<and>
    bv_mutable bv = flags \<and> bv_bits bv = map (vbit b) [0..<numBits]"
proof -
  let ?n = "(numBits + 7) div 8" and ?cap = "CFBitVectorRoundUpCapacity numBits"
  let ?bv = "\<lparr>bv_count = numBits, bv_capacity = ?cap, bv_buckets = take ?n b @ replicate (?cap div 8 + 1 - ?n) 0, bv_mutable = flags\<rparr>"
  have n: "?n \<le> ?cap div 8 + 1" using capacity_le[of numBits] by linarith
  have "CFBitVectorInit (True, True) flags capacity (Some b) numBits = Some (Some ?bv)"
    using assms n unfolding CFBitVectorInit_def Let_def bytes_for_bits CFBitVectorNumBuckets_def BITS_PER_BUCKET_def
    by (simp del: replicate_Suc)
  moreover have "bv_inv ?bv" using n assms capacity_le[of numBits] by (simp add: bv_inv_def CFBitVectorNumBuckets_def BITS_PER_BUCKET_def)
  moreover have "bv_bits ?bv = map (vbit b) [0..<numBits]"
  proof (rule nth_equalityI)
    fix i assume "i < length (bv_bits ?bv)"
    then have i: "i < numBits" "i < 8 * ?n" by auto
    then show "bv_bits ?bv ! i = map (vbit b) [0..<numBits] ! i"
      using vbit_append_left[of i "take ?n b"] vbit_take[OF i(2) assms] assms by (simp add: bv_bits_nth min_absorb2)
  qed simp
  ultimately show ?thesis by (metis CFBitVector.select_convs(4))
qed

text \<open>
  C36: copying a range of bits that starts on a byte boundary out to a buffer and making a bit vector from that buffer
  gives a vector with the bits of the range. The copy leaves the source as it was, fills the unused bits of the last
  byte with zeros and writes no byte beyond it.
\<close>

theorem BitVector_GetBits_Create_roundtrip:
  assumes "bv_inv bv" "l mod 8 = 0" "l + len \<le> bv_count bv" "(len + 7) div 8 \<le> length bytes"
  shows "\<exists>bytes' bv'. CFBitVectorGetBits bv l len bytes = Some (bv, bytes') \<and>
    (\<forall>x. len \<le> x \<and> x < 8 * ((len + 7) div 8) \<longrightarrow> \<not> vbit bytes' x) \<and>
    drop ((len + 7) div 8) bytes' = drop ((len + 7) div 8) bytes \<and>
    CFBitVectorCreate (True, True) (Some bytes') len = Some (Some bv') \<and> bv_inv bv' \<and>
    bv_bits bv' = take len (drop l (bv_bits bv))"
proof -
  obtain bytes' where b: "CFBitVectorGetBits bv l len bytes = Some (bv, bytes')" "length bytes' = length bytes"
    "\<forall>x < 8 * ((len + 7) div 8). vbit bytes' x = (x < len \<and> bv_bits bv ! (l + x))"
    "drop ((len + 7) div 8) bytes' = drop ((len + 7) div 8) bytes"
    using GetBits_aligned[OF assms] by blast
  obtain bv' where bv': "CFBitVectorCreate (True, True) (Some bytes') len = Some (Some bv')" "bv_inv bv'"
    "bv_bits bv' = map (vbit bytes') [0..<len]"
    using Init_ok[of len bytes' False len] assms(4) b(2) unfolding CFBitVectorCreate_def by auto
  have "bv_bits bv' = take len (drop l (bv_bits bv))"
  proof (rule nth_equalityI)
    show "length (bv_bits bv') = length (take len (drop l (bv_bits bv)))" using bv'(3) assms(3) by simp
    fix i assume "i < length (bv_bits bv')"
    then have i: "i < len" using bv'(3) by simp
    then have "i < 8 * ((len + 7) div 8)" by auto
    then show "bv_bits bv' ! i = take len (drop l (bv_bits bv)) ! i" using b(3) bv'(3) i assms(3) by simp
  qed
  then show ?thesis using b bv' by (intro exI[of _ bytes'] exI[of _ bv']) auto
qed

text \<open>A vector of twenty bits, for examples.\<close>

definition sample_bv :: CFBitVector where
  "sample_bv = \<lparr>bv_count = 20, bv_capacity = 64, bv_buckets = [0xA5, 0x0F, 0xF0, 0, 0, 0, 0, 0, 0], bv_mutable = True\<rparr>"

lemma sample_bv_inv: "bv_inv sample_bv"
  by (simp add: bv_inv_def sample_bv_def CFBitVectorNumBuckets_def BITS_PER_BUCKET_def)

theorem BitVector_mutations_refine_witness:
  "bv_inv sample_bv \<and> bv_mutable sample_bv \<and>
   (\<exists>bv'. CFBitVectorSetBits sample_bv 3 10 True = Some bv' \<and> bv_bits bv' = span_map (\<lambda>_. True) 3 10 (bv_bits sample_bv)) \<and>
   (\<exists>bv'. CFBitVectorSetCount (\<lambda>_. 0xFF) sample_bv 100 = Some bv' \<and> bv_bits bv' = bv_bits sample_bv @ replicate 80 False)"
proof -
  have m: "bv_mutable sample_bv" and n: "bv_count sample_bv = 20" by (simp_all add: sample_bv_def)
  show ?thesis
    using BitVector_mutations_refine[OF sample_bv_inv m, of 3 10 True 0 "\<lambda>_. 0xFF" 100] sample_bv_inv m by (auto simp: n)
qed

theorem BitVector_queries_correct_witness:
  "CFBitVectorGetCountOfBit sample_bv 3 10 True = Some (sample_bv, 3) \<and>
   CFBitVectorGetFirstIndexOfBit sample_bv 3 10 True = Some (Some 5)"
proof -
  have "length (filter (\<lambda>b. b = True) (take 10 (drop 3 (bv_bits sample_bv)))) = 3"
    "find (\<lambda>i. bv_bits sample_bv ! i = True) [3..<3 + 10] = Some 5" by code_simp+
  then show ?thesis using BitVector_queries_correct[OF sample_bv_inv, of 3 10 True] by (simp add: sample_bv_def)
qed

theorem BitVector_GetBits_Create_roundtrip_witness:
  "\<exists>bytes' bv'. CFBitVectorGetBits sample_bv 8 12 [1, 2, 3] = Some (sample_bv, bytes') \<and> drop 2 bytes' = [3] \<and>
     CFBitVectorCreate (True, True) (Some bytes') 12 = Some (Some bv') \<and> bv_bits bv' = take 12 (drop 8 (bv_bits sample_bv))"
  using BitVector_GetBits_Create_roundtrip[OF sample_bv_inv, of 8 12 "[1, 2, 3]"] by (auto simp: sample_bv_def)

text \<open>The copy of a range inside a byte keeps overwriting the first byte of the buffer.\<close>

lemma GetBits_unaligned_loses_bits:
  "\<exists>bv bytes'. CFBitVectorCreate (True, True) (Some [0x12, 0x34, 0x56]) 24 = Some (Some bv) \<and>
     CFBitVectorGetBits bv 4 16 [0, 0] = Some (bv, bytes') \<and> bytes' = [0, 0] \<and>
     map (vbit bytes') [0..<16] \<noteq> take 16 (drop 4 (bv_bits bv))"
proof -
  let ?bv = "\<lparr>bv_count = 24, bv_capacity = 64, bv_buckets = [0x12, 0x34, 0x56, 0, 0, 0, 0, 0, 0], bv_mutable = False\<rparr>"
  have "CFBitVectorCreate (True, True) (Some [0x12, 0x34, 0x56]) 24 = Some (Some ?bv)" by code_simp
  moreover have "CFBitVectorGetBits ?bv 4 16 [0, 0] = Some (?bv, [0, 0])" by code_simp
  moreover have "map (vbit [0, 0]) [0..<16] \<noteq> take 16 (drop 4 (bv_bits ?bv))" by code_simp
  ultimately show ?thesis by blast
qed

text \<open>Equality compares the bits beyond the count too: vectors with the same bits can differ.\<close>

lemma same_buckets_ok:
  "idx + n \<le> length b1 \<Longrightarrow> idx + n \<le> length b2 \<Longrightarrow>
    same_buckets b1 b2 idx n = Some (\<forall>i. idx \<le> i \<and> i < idx + n \<longrightarrow> b1 ! i = b2 ! i)"
proof (induction n arbitrary: idx)
  case (Suc n)
  have "(\<forall>i. idx \<le> i \<and> i < idx + Suc n \<longrightarrow> b1 ! i = b2 ! i) \<longleftrightarrow>
      b1 ! idx = b2 ! idx \<and> (\<forall>i. Suc idx \<le> i \<and> i < Suc idx + n \<longrightarrow> b1 ! i = b2 ! i)"
    by (auto simp: Suc_le_eq) (metis le_neq_implies_less)
  then show ?case using Suc.IH[of "Suc idx"] Suc.prems by (simp add: bucket_defs)
qed auto

lemma Equal_sound:
  assumes "bv_inv bv1" "bv_inv bv2"
  shows "\<exists>r. CFBitVectorEqual bv1 bv2 = Some r \<and> (r \<longrightarrow> bv_bits bv1 = bv_bits bv2)"
proof (cases "bv_count bv1 = bv_count bv2 \<and> bv_count bv1 \<noteq> 0")
  case True
  let ?n = "bv_count bv1 div 8 + 1"
  have n: "?n \<le> length (bv_buckets bv1)" "?n \<le> length (bv_buckets bv2)"
    using bv_inv_len[OF assms(1)] bv_inv_len[OF assms(2)] True by linarith+
  have "vbit (bv_buckets bv1) x = vbit (bv_buckets bv2) x"
    if "\<forall>i. 0 \<le> i \<and> i < 0 + ?n \<longrightarrow> bv_buckets bv1 ! i = bv_buckets bv2 ! i" "x < bv_count bv1" for x
    using that div_le_mono[of x "bv_count bv1" 8] by (simp add: vbit_def)
  then show ?thesis using True same_buckets_ok[of 0 ?n "bv_buckets bv1" "bv_buckets bv2"] n
    by (auto simp: CFBitVectorEqual_def BITS_PER_BUCKET_def Let_def bv_bits_def)
qed (auto simp: CFBitVectorEqual_def Let_def bv_bits_def)

lemma Equal_compares_unused_bits:
  "\<exists>bv1 bv2. CFBitVectorCreate (True, True) (Some [0xF0]) 4 = Some (Some bv1) \<and>
     CFBitVectorCreate (True, True) (Some [0xFF]) 4 = Some (Some bv2) \<and>
     bv_bits bv1 = bv_bits bv2 \<and> CFBitVectorEqual bv1 bv2 = Some False"
proof -
  let ?bv = "\<lambda>w. \<lparr>bv_count = 4, bv_capacity = 64, bv_buckets = [w, 0, 0, 0, 0, 0, 0, 0, 0], bv_mutable = False\<rparr>"
  have "CFBitVectorCreate (True, True) (Some [0xF0]) 4 = Some (Some (?bv 0xF0))"
    "CFBitVectorCreate (True, True) (Some [0xFF]) 4 = Some (Some (?bv 0xFF))"
    "bv_bits (?bv 0xF0) = bv_bits (?bv 0xFF)" "CFBitVectorEqual (?bv 0xF0) (?bv 0xFF) = Some False"
    by code_simp+
  then show ?thesis by blast
qed

end
