(* ===== verification/CF_Sort.thy ===== *)
theory CF_Sort
  imports Prelude "HOL-Library.Monad_Syntax"
begin

text \<open>
  Sorting (RuntimeLoop/CFSortFunctions.c): the merge sort of an index array in place with a buffer, the concurrent
  variant that sorts sections in parallel and joins them by odd-even merge splitting, and the two array sorts built on
  the index sort. Arrays are lists with an offset for a pointer into them; an access outside is \<open>None\<close>. The bodies that
  \<open>dispatch_apply\<close> runs in parallel write disjoint memory; the order in which they take effect is a parameter. The theory
  shows that every variant gives the one stable sorted permutation.
\<close>

section \<open>Arrays\<close>

definition memmove :: "'a list \<Rightarrow> nat \<Rightarrow> 'a list \<Rightarrow> nat \<Rightarrow> nat \<Rightarrow> 'a list option" where
  "memmove dst doff src soff n =
     (if doff + n \<le> length dst \<and> soff + n \<le> length src
      then Some (take doff dst @ take n (drop soff src) @ drop (doff + n) dst) else None)"

text \<open>A comparator gives at most zero.\<close>

definition cmp_le :: "('a \<Rightarrow> 'a \<Rightarrow> CFComparisonResult) \<Rightarrow> 'a \<Rightarrow> 'a \<Rightarrow> bool" where
  "cmp_le cmp a b = (comparison_value (cmp a b) \<le> 0)"

section \<open>Merge sort in place\<close>

fun copy_back :: "nat \<Rightarrow> 'a list \<Rightarrow> 'a list \<Rightarrow> nat \<Rightarrow> 'a list option" where
  "copy_back 0 tmp listp off = Some listp"
| "copy_back (Suc idx) tmp listp off =
     do { v \<leftarrow> load tmp idx; listp \<leftarrow> store listp (off + idx) v; copy_back idx tmp listp off }"

text \<open>The loop that moves the rest of the first part to the end; \<open>n\<close> is the number of its elements.\<close>

fun shift_up :: "nat \<Rightarrow> nat \<Rightarrow> nat \<Rightarrow> 'a list \<Rightarrow> nat \<Rightarrow> 'a list option" where
  "shift_up 0 t cnt2 listp off = Some listp"
| "shift_up (Suc n) t cnt2 listp off =
     do { v \<leftarrow> load listp (off + t - cnt2); listp \<leftarrow> store listp (off + t) v; shift_up n (t - 1) cnt2 listp off }"

function CFSimpleMerge_loop ::
    "('a \<Rightarrow> 'a \<Rightarrow> CFComparisonResult) \<Rightarrow> nat \<Rightarrow> nat \<Rightarrow> 'a list \<Rightarrow> nat \<Rightarrow> 'a list \<Rightarrow> nat \<Rightarrow> nat \<Rightarrow> nat \<Rightarrow> ('a list \<times> 'a list) option" where
  "CFSimpleMerge_loop cmp cnt1 cnt2 listp off tmp idx idx1 idx2 =
     (if cnt1 \<le> idx1 then do { listp \<leftarrow> copy_back idx tmp listp off; Some (listp, tmp) }
      else if cnt1 + cnt2 \<le> idx2 then
        do { listp \<leftarrow> shift_up (cnt1 + cnt2 - idx) (cnt1 + cnt2 - 1) cnt2 listp off;
             listp \<leftarrow> copy_back idx tmp listp off;
             Some (listp, tmp) }
      else
        do { v1 \<leftarrow> load listp (off + idx1);
             v2 \<leftarrow> load listp (off + idx2);
             if comparison_value (cmp v1 v2) \<le> 0
             then do { tmp \<leftarrow> store tmp idx v1; CFSimpleMerge_loop cmp cnt1 cnt2 listp off tmp (idx + 1) (idx1 + 1) idx2 }
             else do { tmp \<leftarrow> store tmp idx v2; CFSimpleMerge_loop cmp cnt1 cnt2 listp off tmp (idx + 1) idx1 (idx2 + 1) } })"
  by auto
termination by (relation "measure (\<lambda>(_, cnt1, cnt2, _, _, _, _, idx1, idx2). (cnt1 - idx1) + (cnt1 + cnt2 - idx2))") auto

declare CFSimpleMerge_loop.simps [simp del]

definition CFSimpleMerge ::
    "('a \<Rightarrow> 'a \<Rightarrow> CFComparisonResult) \<Rightarrow> 'a list \<Rightarrow> nat \<Rightarrow> nat \<Rightarrow> nat \<Rightarrow> 'a list \<Rightarrow> ('a list \<times> 'a list) option" where
  "CFSimpleMerge cmp listp off cnt1 cnt2 tmp =
     (if cnt1 \<le> 0 \<or> cnt2 \<le> 0 then Some (listp, tmp)
      else do { ordered \<leftarrow> (if 16 < cnt1 + cnt2
                  then do { v1 \<leftarrow> load listp (off + cnt1 - 1); v2 \<leftarrow> load listp (off + cnt1);
                            Some (comparison_value (cmp v1 v2) \<le> 0) }
                  else Some False);
                if ordered then Some (listp, tmp) else CFSimpleMerge_loop cmp cnt1 cnt2 listp off tmp 0 0 cnt1 })"

function CFSimpleMergeSort ::
    "('a \<Rightarrow> 'a \<Rightarrow> CFComparisonResult) \<Rightarrow> 'a list \<Rightarrow> nat \<Rightarrow> nat \<Rightarrow> 'a list \<Rightarrow> ('a list \<times> 'a list) option" where
  "CFSimpleMergeSort cmp listp off cnt tmp =
     (if cnt < 2 then Some (listp, tmp)
      else if 2 = cnt then
        do { v0 \<leftarrow> load listp off; v1 \<leftarrow> load listp (off + 1);
             if 0 < comparison_value (cmp v0 v1)
             then do { listp \<leftarrow> store listp off v1; listp \<leftarrow> store listp (off + 1) v0; Some (listp, tmp) }
             else Some (listp, tmp) }
      else if 3 = cnt then
        do { v0 \<leftarrow> load listp off; v1 \<leftarrow> load listp (off + 1); v2 \<leftarrow> load listp (off + 2);
             let (v0, v1) = (if 0 < comparison_value (cmp v0 v1) then (v1, v0) else (v0, v1));
             let (v0, v1, v2) =
               (if 0 < comparison_value (cmp v1 v2) then
                  let (v1, v2) = (v2, v1) in
                  if 0 < comparison_value (cmp v0 v1) then (v1, v0, v2) else (v0, v1, v2)
                else (v0, v1, v2));
             listp \<leftarrow> store listp off v0; listp \<leftarrow> store listp (off + 1) v1; listp \<leftarrow> store listp (off + 2) v2;
             Some (listp, tmp) }
      else
        do { let half_cnt = cnt div 2;
             (listp, tmp) \<leftarrow> CFSimpleMergeSort cmp listp off half_cnt tmp;
             (listp, tmp) \<leftarrow> CFSimpleMergeSort cmp listp (off + half_cnt) (cnt - half_cnt) tmp;
             CFSimpleMerge cmp listp off half_cnt (cnt - half_cnt) tmp })"
  by auto
termination by (relation "measure (\<lambda>(_, _, _, cnt, _). cnt)") auto

declare CFSimpleMergeSort.simps [simp del]

section \<open>Merge splitting\<close>

text \<open>Pointers below the start of an array are negative indices.\<close>

definition load_at :: "'a list \<Rightarrow> nat \<Rightarrow> int \<Rightarrow> 'a option" where
  "load_at a off i = (if 0 \<le> int off + i \<and> int off + i < int (length a) then Some (a ! nat (int off + i)) else None)"

fun NMerge_right ::
    "('a \<Rightarrow> 'a \<Rightarrow> CFComparisonResult) \<Rightarrow> 'a list \<Rightarrow> nat \<Rightarrow> int \<Rightarrow> 'a list \<Rightarrow> nat \<Rightarrow> int \<Rightarrow> 'a list \<Rightarrow> nat \<Rightarrow> nat \<Rightarrow> 'a list option" where
  "NMerge_right cmp l1 off1 i1 l2 off2 i2 tmp toff 0 = Some tmp"
| "NMerge_right cmp l1 off1 i1 l2 off2 i2 tmp toff (Suc t) =
     (if i2 < 0 then
        do { v \<leftarrow> load_at l1 off1 (i1 - 1); tmp \<leftarrow> store tmp (toff + t) v;
             NMerge_right cmp l1 off1 (i1 - 1) l2 off2 i2 tmp toff t }
      else if i1 < 0 then
        do { v \<leftarrow> load_at l2 off2 (i2 - 1); tmp \<leftarrow> store tmp (toff + t) v;
             NMerge_right cmp l1 off1 i1 l2 off2 (i2 - 1) tmp toff t }
      else
        do { v1 \<leftarrow> load_at l1 off1 i1; v2 \<leftarrow> load_at l2 off2 i2;
             if comparison_value (cmp v1 v2) \<le> 0
             then do { tmp \<leftarrow> store tmp (toff + t) v2; NMerge_right cmp l1 off1 i1 l2 off2 (i2 - 1) tmp toff t }
             else do { tmp \<leftarrow> store tmp (toff + t) v1; NMerge_right cmp l1 off1 (i1 - 1) l2 off2 i2 tmp toff t } })"

text \<open>\<open>n\<close> slots of the target, from \<open>t\<close> on, remain to be filled.\<close>

fun NMerge_left ::
    "('a \<Rightarrow> 'a \<Rightarrow> CFComparisonResult) \<Rightarrow> nat \<Rightarrow> nat \<Rightarrow> 'a list \<Rightarrow> nat \<Rightarrow> nat \<Rightarrow> 'a list \<Rightarrow> nat \<Rightarrow> nat \<Rightarrow> 'a list \<Rightarrow> nat \<Rightarrow> nat \<Rightarrow> 'a list option" where
  "NMerge_left cmp cnt1 cnt2 l1 off1 i1 l2 off2 i2 tmp t 0 = Some tmp"
| "NMerge_left cmp cnt1 cnt2 l1 off1 i1 l2 off2 i2 tmp t (Suc n) =
     (if cnt2 \<le> i2 then
        do { v \<leftarrow> load l1 (off1 + i1); tmp \<leftarrow> store tmp t v;
             NMerge_left cmp cnt1 cnt2 l1 off1 (i1 + 1) l2 off2 i2 tmp (t + 1) n }
      else if cnt1 \<le> i1 then
        do { v \<leftarrow> load l2 (off2 + i2); tmp \<leftarrow> store tmp t v;
             NMerge_left cmp cnt1 cnt2 l1 off1 i1 l2 off2 (i2 + 1) tmp (t + 1) n }
      else
        do { v1 \<leftarrow> load l1 (off1 + i1); v2 \<leftarrow> load l2 (off2 + i2);
             if comparison_value (cmp v1 v2) \<le> 0
             then do { tmp \<leftarrow> store tmp t v1; NMerge_left cmp cnt1 cnt2 l1 off1 (i1 + 1) l2 off2 i2 tmp (t + 1) n }
             else do { tmp \<leftarrow> store tmp t v2; NMerge_left cmp cnt1 cnt2 l1 off1 i1 l2 off2 (i2 + 1) tmp (t + 1) n } })"

definition CFSortIndexesNMerge ::
    "('a \<Rightarrow> 'a \<Rightarrow> CFComparisonResult) \<Rightarrow> 'a list \<Rightarrow> nat \<Rightarrow> nat \<Rightarrow> 'a list \<Rightarrow> nat \<Rightarrow> nat \<Rightarrow> 'a list \<Rightarrow> nat \<Rightarrow> bool \<Rightarrow> 'a list option" where
  "CFSortIndexesNMerge cmp listp1 off1 cnt1 listp2 off2 cnt2 tmp toff right =
     do { ordered \<leftarrow> (if 16 < cnt1 + cnt2
            then do { v1 \<leftarrow> load_at listp1 off1 (int cnt1 - 1); v2 \<leftarrow> load listp2 off2; Some (comparison_value (cmp v1 v2) \<le> 0) }
            else Some False);
          if ordered then
            (if right then memmove tmp toff listp2 off2 cnt2 else memmove tmp toff listp1 off1 cnt1)
          else if right then
            NMerge_right cmp listp1 off1 (int cnt1 - 1) listp2 off2 (int cnt2 - 1) tmp toff cnt2
          else NMerge_left cmp cnt1 cnt2 listp1 off1 0 listp2 off2 0 tmp toff cnt1 }"

section \<open>Concurrent sort of sections\<close>

text \<open>The blocks of a \<open>dispatch_apply\<close> take effect in the order \<open>schedule n\<close>, some permutation of the indices below \<open>n\<close>.\<close>

type_synonym schedule = "nat \<Rightarrow> nat list"

fun run_blocks :: "(nat \<Rightarrow> 's \<Rightarrow> 's option) \<Rightarrow> nat list \<Rightarrow> 's \<Rightarrow> 's option" where
  "run_blocks body [] s = Some s"
| "run_blocks body (i # is) s = do { s \<leftarrow> body i s; run_blocks body is s }"

definition dispatch_apply :: "schedule \<Rightarrow> nat \<Rightarrow> (nat \<Rightarrow> 's \<Rightarrow> 's option) \<Rightarrow> 's \<Rightarrow> 's option" where
  "dispatch_apply schedule n body s = run_blocks body (schedule n) s"

definition sort_section ::
    "('a \<Rightarrow> 'a \<Rightarrow> CFComparisonResult) \<Rightarrow> nat \<Rightarrow> nat \<Rightarrow> nat \<Rightarrow> nat \<Rightarrow> 'a list \<times> 'a list list \<Rightarrow> ('a list \<times> 'a list list) option" where
  "sort_section cmp sz num_sect last_sect_len sect = (\<lambda>(listp, tmps).
     do { let sect_len = (if sect < num_sect - 1 then sz else last_sect_len);
          tmp \<leftarrow> load tmps sect;
          (listp, tmp) \<leftarrow> CFSimpleMergeSort cmp listp (sect * sz) sect_len tmp;
          tmps \<leftarrow> store tmps sect tmp;
          Some (listp, tmps) })"

definition merge_even ::
    "('a \<Rightarrow> 'a \<Rightarrow> CFComparisonResult) \<Rightarrow> nat \<Rightarrow> nat \<Rightarrow> nat \<Rightarrow> 'a list \<Rightarrow> nat \<Rightarrow> 'a list list \<Rightarrow> 'a list list option" where
  "merge_even cmp sz num_sect last_sect_len listp sect tmps =
     do { let right = odd sect;
          let left_base = sect * sz - (if right then sz else 0);
          let right_base = sect * sz + (if right then 0 else sz);
          let sect2_len = (if sect + 1 + (if right then 0 else 1) = num_sect then last_sect_len else sz);
          tmp \<leftarrow> load tmps sect;
          tmp \<leftarrow> CFSortIndexesNMerge cmp listp left_base sz listp right_base sect2_len tmp 0 right;
          store tmps sect tmp }"

definition merge_odd ::
    "('a \<Rightarrow> 'a \<Rightarrow> CFComparisonResult) \<Rightarrow> nat \<Rightarrow> nat \<Rightarrow> nat \<Rightarrow> 'a list list \<Rightarrow> nat \<Rightarrow> 'a list \<Rightarrow> 'a list option" where
  "merge_odd cmp sz num_sect last_sect_len tmps sect listp =
     do { let right = odd sect;
          left_base \<leftarrow> load tmps (sect + (if right then 0 else 1));
          right_base \<leftarrow> load tmps (sect + (if right then 1 else 2));
          let sect2_len = (if sect + 1 + (if right then 1 else 2) = num_sect then last_sect_len else sz);
          CFSortIndexesNMerge cmp left_base 0 sz right_base 0 sect2_len listp (sect * sz + sz) right }"

definition merge_pass ::
    "('a \<Rightarrow> 'a \<Rightarrow> CFComparisonResult) \<Rightarrow> schedule \<Rightarrow> nat \<Rightarrow> nat \<Rightarrow> nat \<Rightarrow> 'a list \<times> 'a list list \<Rightarrow> ('a list \<times> 'a list list) option" where
  "merge_pass cmp schedule sz num_sect last_sect_len = (\<lambda>(listp, tmps).
     do { let even_phase_cnt = (num_sect div 2) * 2;
          let odd_phase_cnt = ((num_sect - 1) div 2) * 2;
          tmps \<leftarrow> dispatch_apply schedule even_phase_cnt (merge_even cmp sz num_sect last_sect_len listp) tmps;
          tmps \<leftarrow> (if odd num_sect
             then do { tmp \<leftarrow> load tmps (num_sect - 1); tmp \<leftarrow> memmove tmp 0 listp ((num_sect - 1) * sz) last_sect_len;
                       store tmps (num_sect - 1) tmp }
             else Some tmps);
          listp \<leftarrow> dispatch_apply schedule odd_phase_cnt (merge_odd cmp sz num_sect last_sect_len tmps) listp;
          tmp \<leftarrow> load tmps 0;
          listp \<leftarrow> memmove listp 0 tmp 0 sz;
          listp \<leftarrow> (if \<not> odd num_sect
             then do { tmp \<leftarrow> load tmps (num_sect - 1); memmove listp ((num_sect - 1) * sz) tmp 0 last_sect_len }
             else Some listp);
          Some (listp, tmps) })"

fun merge_passes ::
    "('a \<Rightarrow> 'a \<Rightarrow> CFComparisonResult) \<Rightarrow> schedule \<Rightarrow> nat \<Rightarrow> nat \<Rightarrow> nat \<Rightarrow> nat \<Rightarrow> 'a list \<times> 'a list list \<Rightarrow> ('a list \<times> 'a list list) option" where
  "merge_passes cmp schedule sz num_sect last_sect_len 0 s = Some s"
| "merge_passes cmp schedule sz num_sect last_sect_len (Suc n) s =
     do { s \<leftarrow> merge_pass cmp schedule sz num_sect last_sect_len s;
          merge_passes cmp schedule sz num_sect last_sect_len n s }"

text \<open>\<open>junk\<close> is what \<open>malloc\<close> leaves in the buffers.\<close>

definition CFSortIndexesN ::
    "(nat \<Rightarrow> nat \<Rightarrow> CFComparisonResult) \<Rightarrow> schedule \<Rightarrow> nat \<Rightarrow> nat list \<Rightarrow> nat \<Rightarrow> nat \<Rightarrow> nat list option" where
  "CFSortIndexesN cmp schedule junk listp cnt ncores =
     do { let sz = ((((cnt + ncores - 1) div ncores) + 15) div 16) * 16;
          let num_sect = (cnt + sz - 1) div sz;
          let last_sect_len = cnt + sz - sz * num_sect;
          let tmps = replicate num_sect (replicate sz junk);
          s \<leftarrow> dispatch_apply schedule num_sect (sort_section cmp sz num_sect last_sect_len) (listp, tmps);
          (listp, _) \<leftarrow> merge_passes cmp schedule sz num_sect last_sect_len ((num_sect + 1) div 2) s;
          Some listp }"

section \<open>The entry points\<close>

definition kCFSortConcurrent :: nat where "kCFSortConcurrent = 1"
definition kCFSortStable :: nat where "kCFSortStable = 16"

definition INTPTR_MAX :: nat where "INTPTR_MAX = 9223372036854775807"

fun fill :: "nat \<Rightarrow> nat \<Rightarrow> nat list \<Rightarrow> nat list option" where
  "fill 0 idx buf = Some buf"
| "fill (Suc n) idx buf = do { buf \<leftarrow> store buf idx idx; fill n (idx + 1) buf }"

definition fill_chunk :: "nat \<Rightarrow> nat \<Rightarrow> nat \<Rightarrow> nat list \<Rightarrow> nat list option" where
  "fill_chunk sz cnt n buf = (let idx = n * sz; lim = min (idx + sz) cnt in fill (lim - idx) idx buf)"

text \<open>The number of cores to use, none for the sequential sort.\<close>

definition sort_cores :: "nat \<Rightarrow> nat \<Rightarrow> nat \<Rightarrow> nat option" where
  "sort_cores opts cores cnt =
     (if opts AND kCFSortConcurrent \<noteq> 0 then
        if cnt < 160 \<or> cores < 2 then None
        else
          let ncores = (if cnt < 640 \<and> 2 < cores then 2
                        else if cnt < 3200 \<and> 4 < cores then 4
                        else if cnt < 16000 \<and> 8 < cores then 8
                        else cores)
          in Some (if 16 < ncores then 16 else ncores)
      else None)"

definition CFSortIndexes ::
    "(nat \<Rightarrow> nat \<Rightarrow> CFComparisonResult) \<Rightarrow> schedule \<Rightarrow> nat \<Rightarrow> nat \<Rightarrow> nat list \<Rightarrow> nat \<Rightarrow> nat \<Rightarrow> nat list option" where
  "CFSortIndexes cmp schedule cores junk indexBuffer cnt opts =
     (if cnt < 1 then Some indexBuffer
      else if INTPTR_MAX div 8 < cnt then Some indexBuffer
      else
        do { indexBuffer \<leftarrow>
               (if cnt \<le> 65536 then fill cnt 0 indexBuffer
                else dispatch_apply schedule 8 (fill_chunk ((((cnt + 15) div 16) * 16) div 8) cnt) indexBuffer);
             case sort_cores opts cores cnt of
               Some ncores \<Rightarrow> CFSortIndexesN cmp schedule junk indexBuffer cnt ncores
             | None \<Rightarrow>
                 do { (indexBuffer, _) \<leftarrow> CFSimpleMergeSort cmp indexBuffer 0 cnt (replicate cnt junk);
                      Some indexBuffer } })"

text \<open>The copy of the elements in the order of the indexes, then back over the list.\<close>

fun gather :: "'a list \<Rightarrow> nat list \<Rightarrow> 'a list option" where
  "gather list [] = Some []"
| "gather list (i # is) = do { v \<leftarrow> load list i; vs \<leftarrow> gather list is; Some (v # vs) }"

definition compare_at :: "('a \<Rightarrow> 'a \<Rightarrow> CFComparisonResult) \<Rightarrow> 'a list \<Rightarrow> nat \<Rightarrow> nat \<Rightarrow> CFComparisonResult" where
  "compare_at comparator list a b = comparator (list ! a) (list ! b)"

definition CFQSortArray ::
    "('a \<Rightarrow> 'a \<Rightarrow> CFComparisonResult) \<Rightarrow> schedule \<Rightarrow> nat \<Rightarrow> nat \<Rightarrow> 'a list \<Rightarrow> nat \<Rightarrow> nat \<Rightarrow> 'a list option" where
  "CFQSortArray comparator schedule cores junk list cnt elementSize =
     (if cnt < 2 \<or> elementSize < 1 then Some list
      else do { indexes \<leftarrow> CFSortIndexes (compare_at comparator list) schedule cores junk (replicate cnt junk) cnt 0;
                vs \<leftarrow> gather list indexes;
                memmove list 0 vs 0 cnt })"

definition CFMergeSortArray ::
    "('a \<Rightarrow> 'a \<Rightarrow> CFComparisonResult) \<Rightarrow> schedule \<Rightarrow> nat \<Rightarrow> nat \<Rightarrow> 'a list \<Rightarrow> nat \<Rightarrow> nat \<Rightarrow> 'a list option" where
  "CFMergeSortArray comparator schedule cores junk list cnt elementSize =
     (if cnt < 2 \<or> elementSize < 1 then Some list
      else do { indexes \<leftarrow> CFSortIndexes (compare_at comparator list) schedule cores junk (replicate cnt junk) cnt kCFSortStable;
                vs \<leftarrow> gather list indexes;
                memmove list 0 vs 0 cnt })"


section \<open>Stable sorting\<close>

definition total_preorder :: "('a \<Rightarrow> 'a \<Rightarrow> bool) \<Rightarrow> bool" where
  "total_preorder le \<longleftrightarrow> (\<forall>x y. le x y \<or> le y x) \<and> (\<forall>x y z. le x y \<longrightarrow> le y z \<longrightarrow> le x z)"

text \<open>Equivalent elements keep their order.\<close>

definition stable_perm :: "('a \<Rightarrow> 'a \<Rightarrow> bool) \<Rightarrow> 'a list \<Rightarrow> 'a list \<Rightarrow> bool" where
  "stable_perm le xs ys \<longleftrightarrow> mset ys = mset xs \<and> (\<forall>z. filter (\<lambda>y. le z y \<and> le y z) ys = filter (\<lambda>y. le z y \<and> le y z) xs)"

definition stable_sort_of :: "('a \<Rightarrow> 'a \<Rightarrow> bool) \<Rightarrow> 'a list \<Rightarrow> 'a list \<Rightarrow> bool" where
  "stable_sort_of le xs ys \<longleftrightarrow> sorted_wrt le ys \<and> stable_perm le xs ys"

lemma stable_perm_refl [simp]: "stable_perm le xs xs"
  by (simp add: stable_perm_def)

lemma stable_perm_trans: "stable_perm le xs ys \<Longrightarrow> stable_perm le ys zs \<Longrightarrow> stable_perm le xs zs"
  by (simp add: stable_perm_def)

lemma stable_perm_append: "stable_perm le xs xs' \<Longrightarrow> stable_perm le ys ys' \<Longrightarrow> stable_perm le (xs @ ys) (xs' @ ys')"
  by (simp add: stable_perm_def)

lemma stable_perm_length: "stable_perm le xs ys \<Longrightarrow> length ys = length xs"
  unfolding stable_perm_def by (metis size_mset)

lemma total_preorderD:
  assumes "total_preorder le"
  shows "le x x" "le x y \<or> le y x" "le x y \<Longrightarrow> le y z \<Longrightarrow> le x z"
  using assms unfolding total_preorder_def by blast+

lemma sorted_eqI:
  assumes "total_preorder le" "sorted_wrt le xs" "sorted_wrt le ys"
    "\<And>z. filter (\<lambda>y. le z y \<and> le y z) xs = filter (\<lambda>y. le z y \<and> le y z) ys"
  shows "xs = ys"
  using assms(2-4)
proof (induction xs arbitrary: ys)
  case Nil
  then show ?case using total_preorderD(1)[OF assms(1)] by (cases ys) (auto split: if_splits dest: meta_spec[of _ "hd ys"])
next
  case (Cons x xs)
  note refl = total_preorderD(1)[OF assms(1)]
  obtain y ys' where ys: "ys = y # ys'" using Cons.prems(3)[of x] refl[of x] by (cases ys) auto
  have "x \<in> set (filter (\<lambda>y. le x y \<and> le y x) ys)" using refl[of x] by (simp flip: Cons.prems(3)[of x])
  then have "le y x" using Cons.prems(2) refl by (auto simp: ys split: if_splits)
  moreover have "y \<in> set (filter (\<lambda>z. le y z \<and> le z y) (x # xs))" using refl[of y] unfolding Cons.prems(3)[of y] by (simp add: ys)
  then have "le x y" using Cons.prems(1) refl by (auto split: if_splits)
  ultimately have "x = y" using Cons.prems(3)[of x] refl[of x] by (simp add: ys)
  have "xs = ys'"
  proof (rule Cons.IH)
    show "filter (\<lambda>y. le z y \<and> le y z) xs = filter (\<lambda>y. le z y \<and> le y z) ys'" for z
      using Cons.prems(3)[of z] by (simp add: ys \<open>x = y\<close> split: if_splits)
  qed (use Cons.prems ys in auto)
  then show ?case by (simp add: ys \<open>x = y\<close>)
qed

lemma stable_sort_unique:
  "total_preorder le \<Longrightarrow> stable_sort_of le xs ys \<Longrightarrow> stable_sort_of le xs zs \<Longrightarrow> ys = zs"
  unfolding stable_sort_of_def stable_perm_def by (rule sorted_eqI) auto

fun merge :: "('a \<Rightarrow> 'a \<Rightarrow> bool) \<Rightarrow> 'a list \<Rightarrow> 'a list \<Rightarrow> 'a list" where
  "merge le [] ys = ys"
| "merge le xs [] = xs"
| "merge le (x # xs) (y # ys) = (if le x y then x # merge le xs (y # ys) else y # merge le (x # xs) ys)"

lemma merge_Nil2 [simp]: "merge le xs [] = xs"
  by (cases xs) simp_all

lemma mset_merge [simp]: "mset (merge le xs ys) = mset xs + mset ys"
  by (induction le xs ys rule: merge.induct) simp_all

lemma set_merge [simp]: "set (merge le xs ys) = set xs \<union> set ys"
  by (metis mset_merge set_mset_mset set_mset_union)

lemma length_merge [simp]: "length (merge le xs ys) = length xs + length ys"
  by (metis mset_merge size_mset size_union)

lemma merge_stable:
  assumes "total_preorder le" "sorted_wrt le xs" "sorted_wrt le ys"
  shows "stable_sort_of le (xs @ ys) (merge le xs ys)"
proof -
  have "sorted_wrt le (merge le xs ys)" using assms
  proof (induction le xs ys rule: merge.induct)
    case (3 le x xs y ys)
    note ord = total_preorderD[OF 3(3)]
    show ?case
    proof (cases "le x y")
      case True
      have "le x z" if "z \<in> set (y # ys)" for z using that True 3(5) ord(3)[OF True] by auto
      then show ?thesis using 3 True by auto
    next
      case False
      then have yx: "le y x" using ord(2) by blast
      have "le y z" if "z \<in> set (x # xs)" for z using that yx 3(4) ord(3)[OF yx] by auto
      then show ?thesis using 3 False by auto
    qed
  qed auto
  moreover have "filter (\<lambda>y. le z y \<and> le y z) (merge le xs ys) =
      filter (\<lambda>y. le z y \<and> le y z) xs @ filter (\<lambda>y. le z y \<and> le y z) ys" for z
    using assms
  proof (induction le xs ys rule: merge.induct)
    case (3 le x xs y ys)
    note ord = total_preorderD[OF 3(3)]
    show ?case
    proof (cases "le x y")
      case False
      have "filter (\<lambda>y. le z y \<and> le y z) (x # xs) = []" if z: "le z y \<and> le y z"
      proof -
        have "\<not> le w z" if "w \<in> set (x # xs)" for w
          using that 3(4) False z ord(3)[of w z y] ord(3)[of x w y] by auto
        then show ?thesis by (simp add: filter_empty_conv)
      qed
      then show ?thesis using 3 False by auto
    qed (use 3 in auto)
  qed auto
  ultimately show ?thesis by (simp add: stable_sort_of_def stable_perm_def)
qed


section \<open>Segments of arrays\<close>

definition seg :: "'a list \<Rightarrow> nat \<Rightarrow> nat \<Rightarrow> 'a list" where
  "seg a off n = take n (drop off a)"

definition put :: "'a list \<Rightarrow> nat \<Rightarrow> 'a list \<Rightarrow> 'a list" where
  "put a off ys = take off a @ ys @ drop (off + length ys) a"

lemma length_seg [simp]: "off + n \<le> length a \<Longrightarrow> length (seg a off n) = n"
  by (simp add: seg_def)

lemma seg_nth [simp]: "off + n \<le> length a \<Longrightarrow> i < n \<Longrightarrow> seg a off n ! i = a ! (off + i)"
  by (simp add: seg_def)

lemma length_put [simp]: "off + length ys \<le> length a \<Longrightarrow> length (put a off ys) = length a"
  by (simp add: put_def)

lemma put_nth: "off + length ys \<le> length a \<Longrightarrow> i < length a \<Longrightarrow>
  put a off ys ! i = (if off \<le> i \<and> i < off + length ys then ys ! (i - off) else a ! i)"
  by (auto simp: put_def nth_append min_def)

lemma put_Nil [simp]: "put a off [] = a"
  by (simp add: put_def)

lemma put_snoc: "off + length ys < length a \<Longrightarrow> put (a[off + length ys := v]) off ys = put a off (ys @ [v])"
  by (rule nth_equalityI) (auto simp: put_nth nth_append nth_list_update)

lemma put_put: "off + length ys + length zs \<le> length a \<Longrightarrow> put (put a (off + length ys) zs) off ys = put a off (ys @ zs)"
  by (rule nth_equalityI) (auto simp: put_nth nth_append)

lemma put_seg: "off + length ys + n \<le> length a \<Longrightarrow> put a off (ys @ seg a (off + length ys) n) = put a off ys"
  by (rule nth_equalityI) (auto simp: put_nth nth_append)

lemma put_same: "off + n \<le> length a \<Longrightarrow> put a off (seg a off n) = a"
  using put_seg[of off "[]" n a] by simp

lemma seg_Suc: "off + n < length a \<Longrightarrow> seg a off (Suc n) = seg a off n @ [a ! (off + n)]"
  by (simp add: seg_def take_Suc_conv_app_nth)

lemma seg_put_disjoint:
  "off' + length ys \<le> length a \<Longrightarrow> off + n \<le> off' \<or> off' + length ys \<le> off \<Longrightarrow> off + n \<le> length a \<Longrightarrow>
    seg (put a off' ys) off n = seg a off n"
  by (rule nth_equalityI) (auto simp: put_nth)

lemma seg_put_same [simp]: "off + length ys \<le> length a \<Longrightarrow> n = length ys \<Longrightarrow> seg (put a off ys) off n = ys"
  by (simp add: seg_def put_def)

lemma seg_append: "seg a off n @ seg a (off + n) m = seg a off (n + m)"
  by (simp add: seg_def take_add add.commute[of off])

lemma drop_seg: "k \<le> n \<Longrightarrow> drop k (seg a off n) = seg a (off + k) (n - k)"
  by (simp add: seg_def drop_take drop_drop add.commute)

lemma memmove_put: "doff + n \<le> length dst \<Longrightarrow> soff + n \<le> length src \<Longrightarrow> memmove dst doff src soff n = Some (put dst doff (seg src soff n))"
  by (simp add: memmove_def put_def seg_def)

section \<open>Correctness of the merge sort\<close>

lemma copy_back_ok:
  "idx \<le> length tmp \<Longrightarrow> off + idx \<le> length a \<Longrightarrow> copy_back idx tmp a off = Some (put a off (take idx tmp))"
proof (induction idx arbitrary: a)
  case (Suc idx)
  then show ?case using put_snoc[of off "take idx tmp" a "tmp ! idx"]
    by (simp add: load_def store_def take_Suc_conv_app_nth min_def)
qed simp

lemma shift_up_ok:
  "0 < cnt2 \<Longrightarrow> off + s + cnt2 + n \<le> length a \<Longrightarrow>
    shift_up n (s + cnt2 + n - 1) cnt2 a off = Some (put a (off + s + cnt2) (seg a (off + s) n))"
proof (induction n arbitrary: a)
  case (Suc n)
  let ?a = "a[off + s + cnt2 + n := a ! (off + s + n)]"
  have "seg ?a (off + s) n = seg a (off + s) n"
    using Suc.prems by (intro nth_equalityI) (simp_all add: nth_list_update)
  moreover have "put ?a (off + s + cnt2) (seg a (off + s) n) = put a (off + s + cnt2) (seg a (off + s) (Suc n))"
    using put_snoc[of "off + s + cnt2" "seg a (off + s) n" a "a ! (off + s + n)"] Suc.prems by (simp add: seg_Suc)
  ultimately show ?case using Suc by (simp add: load_def store_def add.assoc)
qed (simp add: seg_def)

lemma CFSimpleMerge_loop_ok:
  assumes "idx = idx1 + (idx2 - cnt1)" "idx1 \<le> cnt1" "cnt1 \<le> idx2" "idx2 \<le> cnt1 + cnt2" "0 < cnt2"
    "off + cnt1 + cnt2 \<le> length a" "cnt1 + cnt2 \<le> length tmp"
  shows "\<exists>tmp'. CFSimpleMerge_loop cmp cnt1 cnt2 a off tmp idx idx1 idx2 =
      Some (put a off (take idx tmp @
        merge (cmp_le cmp) (seg a (off + idx1) (cnt1 - idx1)) (seg a (off + idx2) (cnt1 + cnt2 - idx2))), tmp') \<and>
      length tmp' = length tmp"
  using assms
proof (induction cmp cnt1 cnt2 a off tmp idx idx1 idx2 rule: CFSimpleMerge_loop.induct)
  case (1 cmp cnt1 cnt2 a off tmp idx idx1 idx2)
  note p = 1(3-)
  consider "idx1 = cnt1" | "idx1 < cnt1" "idx2 = cnt1 + cnt2" | "idx1 < cnt1" "idx2 < cnt1 + cnt2" using p by linarith
  then show ?case
  proof cases
    case 1
    then show ?thesis using p put_seg[of off "take idx tmp" "cnt1 + cnt2 - idx2" a]
      by (subst CFSimpleMerge_loop.simps) (simp add: copy_back_ok seg_def[of _ _ 0])
  next
    case 2
    then show ?thesis using p shift_up_ok[of cnt2 off idx1 "cnt1 - idx1" a] put_put[of off "take idx tmp" "seg a (off + idx1) (cnt1 - idx1)" a]
      by (subst CFSimpleMerge_loop.simps) (simp add: copy_back_ok seg_def[of _ _ 0] add.commute add.left_commute)
  next
    case 3
    let ?v1 = "a ! (off + idx1)" and ?v2 = "a ! (off + idx2)"
    have s: "seg a (off + idx1) (cnt1 - idx1) = ?v1 # seg a (off + (idx1 + 1)) (cnt1 - (idx1 + 1))"
      "seg a (off + idx2) (cnt1 + cnt2 - idx2) = ?v2 # seg a (off + (idx2 + 1)) (cnt1 + cnt2 - (idx2 + 1))"
      using 3 p by (auto simp: seg_def Cons_nth_drop_Suc[symmetric] take_Cons')
    have idx: "idx < length tmp" using 3 p by simp
    have l: "load a (off + idx1) = Some ?v1" "load a (off + idx2) = Some ?v2"
      "\<And>v. store tmp idx v = Some (tmp[idx := v])" using 3 p idx by (simp_all add: load_def store_def)
    have t: "take (idx + 1) (tmp[idx := v]) = take idx tmp @ [v]" for v using idx by (simp add: take_Suc_conv_app_nth)
    show ?thesis
    proof (cases "comparison_value (cmp ?v1 ?v2) \<le> 0")
      case True
      have "\<exists>tmp'. CFSimpleMerge_loop cmp cnt1 cnt2 a off (tmp[idx := ?v1]) (idx + 1) (idx1 + 1) idx2 =
          Some (put a off (take (idx + 1) (tmp[idx := ?v1]) @ merge (cmp_le cmp) (seg a (off + (idx1 + 1)) (cnt1 - (idx1 + 1)))
            (seg a (off + idx2) (cnt1 + cnt2 - idx2))), tmp') \<and> length tmp' = length (tmp[idx := ?v1])"
        by (rule 1(1)[OF _ _ l(1,2) True l(3)]) (use 3 p in simp_all)
      then show ?thesis using True 3 unfolding t
        by (subst CFSimpleMerge_loop.simps) (auto simp: l s cmp_le_def)
    next
      case False
      have "\<exists>tmp'. CFSimpleMerge_loop cmp cnt1 cnt2 a off (tmp[idx := ?v2]) (idx + 1) idx1 (idx2 + 1) =
          Some (put a off (take (idx + 1) (tmp[idx := ?v2]) @ merge (cmp_le cmp) (seg a (off + idx1) (cnt1 - idx1))
            (seg a (off + (idx2 + 1)) (cnt1 + cnt2 - (idx2 + 1)))), tmp') \<and> length tmp' = length (tmp[idx := ?v2])"
        by (rule 1(2)[OF _ _ l(1,2) False l(3)]) (use 3 p in simp_all)
      then show ?thesis using False 3 unfolding t
        by (subst CFSimpleMerge_loop.simps) (auto simp: l s cmp_le_def)
    qed
  qed
qed


lemma merge_ordered:
  assumes "total_preorder le" "sorted_wrt le xs" "sorted_wrt le ys" "xs \<noteq> []" "ys \<noteq> []" "le (last xs) (hd ys)"
  shows "merge le xs ys = xs @ ys"
proof -
  have "stable_sort_of le (xs @ ys) (xs @ ys)"
  proof -
    have "le x y" if "x \<in> set xs" "y \<in> set ys" for x y
    proof -
      have "xs = butlast xs @ [last xs]" using assms(4) by simp
      then have "sorted_wrt le (butlast xs @ [last xs])" "x \<in> set (butlast xs @ [last xs])" using assms(2) that(1) by simp_all
      then have "le x (last xs)" using total_preorderD(1)[OF assms(1)] by (auto simp: sorted_wrt_append)
      moreover have "le (hd ys) y" using assms(3,5) that(2) total_preorderD(1)[OF assms(1)] by (cases ys) auto
      ultimately show ?thesis using total_preorderD(3)[OF assms(1)] assms(6) by blast
    qed
    then show ?thesis using assms(2,3) by (simp add: stable_sort_of_def sorted_wrt_append)
  qed
  then show ?thesis using stable_sort_unique[OF assms(1) merge_stable[OF assms(1-3)]] by blast
qed

lemma CFSimpleMerge_ok:
  assumes "total_preorder (cmp_le cmp)" "off + cnt1 + cnt2 \<le> length a" "cnt1 + cnt2 \<le> length tmp"
    "sorted_wrt (cmp_le cmp) (seg a off cnt1)" "sorted_wrt (cmp_le cmp) (seg a (off + cnt1) cnt2)"
  shows "\<exists>tmp'. CFSimpleMerge cmp a off cnt1 cnt2 tmp =
    Some (put a off (merge (cmp_le cmp) (seg a off cnt1) (seg a (off + cnt1) cnt2)), tmp') \<and> length tmp' = length tmp"
proof -
  let ?xs = "seg a off cnt1" and ?ys = "seg a (off + cnt1) cnt2"
  have same: "put a off (?xs @ ?ys) = a" using put_same[of off "cnt1 + cnt2" a] assms(2) by (simp add: seg_append)
  show ?thesis
  proof (cases "cnt1 = 0 \<or> cnt2 = 0")
    case True
    then have "merge (cmp_le cmp) ?xs ?ys = ?xs @ ?ys" by (auto simp: seg_def)
    then show ?thesis using same True by (simp add: CFSimpleMerge_def)
  next
    case False
    have "a ! (off + cnt1 - 1) = last ?xs" "a ! (off + cnt1) = hd ?ys"
      using False assms(2) by (simp_all add: last_conv_nth hd_conv_nth flip: length_greater_0_conv)
    moreover have "merge (cmp_le cmp) ?xs ?ys = ?xs @ ?ys" if "cmp_le cmp (last ?xs) (hd ?ys)"
      by (rule merge_ordered[OF assms(1,4,5) _ _ that]) (use False assms(2) in \<open>simp_all flip: length_greater_0_conv\<close>)
    moreover have "load a (off + cnt1 - 1) = Some (a ! (off + cnt1 - 1))" "load a (off + cnt1) = Some (a ! (off + cnt1))"
      using False assms(2) by (auto simp: load_def)
    moreover have "\<exists>tmp'. CFSimpleMerge_loop cmp cnt1 cnt2 a off tmp 0 0 cnt1 = Some (put a off (merge (cmp_le cmp) ?xs ?ys), tmp') \<and>
        length tmp' = length tmp"
      using CFSimpleMerge_loop_ok[of 0 0 cnt1 cnt1 cnt2 off a tmp cmp] False assms(2,3) by simp
    ultimately show ?thesis using False same by (auto simp: CFSimpleMerge_def cmp_le_def)
  qed
qed

lemma stable_perm_swap:
  assumes "total_preorder le" "\<not> le x y"
  shows "stable_perm le (us @ [x, y] @ vs) (us @ [y, x] @ vs)"
proof -
  have "\<not> (le z x \<and> le x z \<and> le z y \<and> le y z)" for z using total_preorderD(3)[OF assms(1), of x z y] assms(2) by blast
  then show ?thesis by (auto simp: stable_perm_def)
qed

lemma not_le_swap: "total_preorder le \<Longrightarrow> \<not> le x y \<Longrightarrow> le y x"
  unfolding total_preorder_def by blast

lemma sort_three:
  assumes "total_preorder le"
  shows "stable_sort_of le [x, y] (if le x y then [x, y] else [y, x])"
    "stable_sort_of le [x, y, z]
       (let (x, y) = (if le x y then (x, y) else (y, x))
        in if le y z then [x, y, z] else if le x z then [x, z, y] else [z, x, y])"
proof -
  note ord = total_preorderD[OF assms] and sw = stable_perm_swap[OF assms] and tr = stable_perm_trans
  show "stable_sort_of le [x, y] (if le x y then [x, y] else [y, x])"
    using sw[of x y "[]" "[]"] not_le_swap[OF assms, of x y] by (auto simp: stable_sort_of_def)
  have "stable_sort_of le [x, y, z] (if le y z then [x, y, z] else if le x z then [x, z, y] else [z, x, y])" if "le x y" for x y
    using that sw[of y z "[x]" "[]"] tr[OF sw[of y z "[x]" "[]", simplified] sw[of x z "[]" "[y]", simplified]]
      not_le_swap[OF assms, of y z] not_le_swap[OF assms, of x z] ord(3)[of x y z] ord(3)[of z x y] ord(3)[of x z y]
    by (auto simp: stable_sort_of_def)
  moreover have "stable_sort_of le [y, x, z] vs \<Longrightarrow> \<not> le x y \<Longrightarrow> stable_sort_of le [x, y, z] vs" for vs
    using sw[of x y "[]" "[z]"] tr by (auto simp: stable_sort_of_def)
  ultimately show "stable_sort_of le [x, y, z] (let (x, y) = (if le x y then (x, y) else (y, x))
      in if le y z then [x, y, z] else if le x z then [x, z, y] else [z, x, y])"
    using not_le_swap[OF assms, of x y] by (cases "le x y") (simp_all add: Let_def)
qed


lemma put_overwrite:
  "off \<le> off' \<Longrightarrow> off' + length zs \<le> off + length ys \<Longrightarrow> off + length ys \<le> length a \<Longrightarrow> put (put a off' zs) off ys = put a off ys"
  by (rule nth_equalityI) (auto simp: put_nth)

lemma put_few:
  "off + 1 < length a \<Longrightarrow> put a off [x, y] = a[off := x, off + 1 := y]"
  "off + 2 < length a \<Longrightarrow> put a off [x, y, z] = a[off := x, off + 1 := y, off + 2 := z]"
  by (rule nth_equalityI, auto simp: put_nth nth_list_update nth_Cons')+

lemma seg_few:
  "off + 1 < length a \<Longrightarrow> seg a off 2 = [a ! off, a ! (off + 1)]"
  "off + 2 < length a \<Longrightarrow> seg a off 3 = [a ! off, a ! (off + 1), a ! (off + 2)]"
  by (rule nth_equalityI, auto simp: nth_Cons' less_Suc_eq numeral_eq_Suc)+

lemma stable_sort_small: "length xs < 2 \<Longrightarrow> stable_sort_of le xs xs"
  by (cases xs; cases "tl xs") (auto simp: stable_sort_of_def)

lemma stable_sort_merge:
  assumes "total_preorder le" "stable_sort_of le xs xs'" "stable_sort_of le ys ys'"
  shows "stable_sort_of le (xs @ ys) (merge le xs' ys')"
  using merge_stable[OF assms(1), of xs' ys'] assms(2,3) stable_perm_append[of le xs xs' ys ys'] stable_perm_trans
  unfolding stable_sort_of_def by blast

lemma CFSimpleMergeSort_ok:
  assumes "total_preorder (cmp_le cmp)" "off + cnt \<le> length a" "cnt \<le> length tmp"
  shows "\<exists>ys tmp'. CFSimpleMergeSort cmp a off cnt tmp = Some (put a off ys, tmp') \<and> length tmp' = length tmp \<and>
    stable_sort_of (cmp_le cmp) (seg a off cnt) ys"
  using assms(2,3)
proof (induction cnt arbitrary: a off tmp rule: less_induct)
  case (less cnt)
  note three = sort_three[OF assms(1)]
  have gt: "0 < comparison_value (cmp x y) \<longleftrightarrow> \<not> cmp_le cmp x y" for x y by (auto simp: cmp_le_def)
  consider "cnt < 2" | "cnt = 2" | "cnt = 3" | "3 < cnt" by linarith
  then show ?case
  proof cases
    case 1
    then have "stable_sort_of (cmp_le cmp) (seg a off cnt) (seg a off cnt)" using less.prems by (intro stable_sort_small) simp
    then show ?thesis using 1 less.prems put_same[of off cnt a]
      by (subst CFSimpleMergeSort.simps) (auto intro!: exI[of _ "seg a off cnt"])
  next
    case 2
    let ?ys = "if cmp_le cmp (a ! off) (a ! (off + 1)) then [a ! off, a ! (off + 1)] else [a ! (off + 1), a ! off]"
    have "CFSimpleMergeSort cmp a off cnt tmp = Some (put a off ?ys, tmp)"
      using 2 less.prems put_same[of off 2 a] by (subst CFSimpleMergeSort.simps) (simp add: load_def store_def gt put_few seg_few)
    then show ?thesis using three(1)[of "a ! off" "a ! (off + 1)"] 2 less.prems by (auto simp: seg_few)
  next
    case 3
    let ?x = "a ! off" and ?y = "a ! (off + 1)" and ?z = "a ! (off + 2)"
    let ?ys = "let (x, y) = (if cmp_le cmp ?x ?y then (?x, ?y) else (?y, ?x))
        in if cmp_le cmp y ?z then [x, y, ?z] else if cmp_le cmp x ?z then [x, ?z, y] else [?z, x, y]"
    have "CFSimpleMergeSort cmp a off cnt tmp = Some (put a off ?ys, tmp)"
      using 3 less.prems by (subst CFSimpleMergeSort.simps) (simp add: load_def store_def gt put_few Let_def)
    then show ?thesis using three(2)[of ?x ?y ?z] 3 less.prems by (simp only: seg_few) auto
  next
    case 4
    let ?h = "cnt div 2" and ?le = "cmp_le cmp"
    have h: "?h < cnt" "off + ?h \<le> length a" "?h \<le> length tmp" "cnt - ?h < cnt" "off + ?h + (cnt - ?h) \<le> length a" "cnt - ?h \<le> length tmp"
      using 4 less.prems by linarith+
    obtain ys1 tmp1 where 1: "CFSimpleMergeSort cmp a off ?h tmp = Some (put a off ys1, tmp1)" "length tmp1 = length tmp"
      "stable_sort_of ?le (seg a off ?h) ys1" using less.IH[OF h(1-3)] by blast
    have l1: "length ys1 = ?h" using 1(3) less.prems stable_perm_length[of ?le _ ys1] by (auto simp: stable_sort_of_def)
    let ?a1 = "put a off ys1"
    have "seg ?a1 (off + ?h) (cnt - ?h) = seg a (off + ?h) (cnt - ?h)"
      using less.prems l1 by (intro seg_put_disjoint) auto
    then obtain ys2 tmp2 where 2: "CFSimpleMergeSort cmp ?a1 (off + ?h) (cnt - ?h) tmp1 = Some (put ?a1 (off + ?h) ys2, tmp2)"
      "length tmp2 = length tmp" "stable_sort_of ?le (seg a (off + ?h) (cnt - ?h)) ys2"
      using less.IH[OF h(4), of "off + ?h" ?a1 tmp1] h l1 1(2) by auto
    have l2: "length ys2 = cnt - ?h" using 2(3) less.prems stable_perm_length[of ?le _ ys2] by (auto simp: stable_sort_of_def)
    let ?a2 = "put ?a1 (off + ?h) ys2"
    have s: "seg ?a2 off ?h = ys1" "seg ?a2 (off + ?h) (cnt - ?h) = ys2"
      using less.prems l1 l2 seg_put_disjoint[of "off + ?h" ys2 ?a1 off ?h] by simp_all
    obtain tmp3 where 3: "CFSimpleMerge cmp ?a2 off ?h (cnt - ?h) tmp2 = Some (put ?a2 off (merge ?le ys1 ys2), tmp3)"
      "length tmp3 = length tmp"
      using CFSimpleMerge_ok[OF assms(1), of off ?h "cnt - ?h" ?a2 tmp2] less.prems l1 l2 1(3) 2(2,3)
      unfolding s by (auto simp: stable_sort_of_def)
    have "put ?a2 off (merge ?le ys1 ys2) = put a off (merge ?le ys1 ys2)"
      using less.prems l1 l2 by (simp add: put_overwrite)
    moreover have "stable_sort_of ?le (seg a off cnt) (merge ?le ys1 ys2)"
      using stable_sort_merge[OF assms(1) 1(3) 2(3)] by (simp add: seg_append)
    ultimately show ?thesis using 1 2 3 4 by (subst CFSimpleMergeSort.simps) (auto simp: Let_def)
  qed
qed


section \<open>Correctness of merge splitting\<close>

lemma put_Cons: "t + length ys < length a \<Longrightarrow> put (a[t := v]) (Suc t) ys = put a t (v # ys)"
  by (rule nth_equalityI) (auto simp: put_nth nth_list_update nth_Cons')

lemma seg_Cons: "0 < n \<Longrightarrow> off + n \<le> length a \<Longrightarrow> seg a off n = a ! off # seg a (Suc off) (n - 1)"
  by (cases n) (auto simp: seg_def Cons_nth_drop_Suc[symmetric])

lemma NMerge_left_ok:
  assumes "n \<le> cnt1 - i1 + (cnt2 - i2)" "i1 \<le> cnt1" "i2 \<le> cnt2" "off1 + cnt1 \<le> length l1" "off2 + cnt2 \<le> length l2" "t + n \<le> length tmp"
  shows "NMerge_left cmp cnt1 cnt2 l1 off1 i1 l2 off2 i2 tmp t n =
    Some (put tmp t (take n (merge (cmp_le cmp) (seg l1 (off1 + i1) (cnt1 - i1)) (seg l2 (off2 + i2) (cnt2 - i2)))))"
  using assms
proof (induction n arbitrary: i1 i2 tmp t)
  case (Suc n)
  let ?m = "\<lambda>i1 i2. take n (merge (cmp_le cmp) (seg l1 (off1 + i1) (cnt1 - i1)) (seg l2 (off2 + i2) (cnt2 - i2)))"
  have len: "length (?m i1 i2) = n" if "n \<le> cnt1 - i1 + (cnt2 - i2)" "i1 \<le> cnt1" "i2 \<le> cnt2" for i1 i2
    using that Suc.prems by (simp add: min_def)
  have st: "store tmp t v = Some (tmp[t := v])" for v using Suc.prems by (simp add: store_def)
  consider "i2 = cnt2" "i1 < cnt1" | "i2 < cnt2" "i1 = cnt1" | "i2 < cnt2" "i1 < cnt1" using Suc.prems by linarith
  then show ?case
  proof cases
    case 1
    then have "seg l1 (off1 + i1) (cnt1 - i1) = l1 ! (off1 + i1) # seg l1 (off1 + (i1 + 1)) (cnt1 - (i1 + 1))"
      using Suc.prems by (subst seg_Cons) simp_all
    moreover have "load l1 (off1 + i1) = Some (l1 ! (off1 + i1))" using 1 Suc.prems by (simp add: load_def)
    ultimately show ?thesis using 1 Suc.prems Suc.IH[of "i1 + 1" i2 "t + 1" "tmp[t := l1 ! (off1 + i1)]"] len[of "i1 + 1" i2]
      by (simp add: st put_Cons seg_def[of _ _ 0])
  next
    case 2
    then have "seg l2 (off2 + i2) (cnt2 - i2) = l2 ! (off2 + i2) # seg l2 (off2 + (i2 + 1)) (cnt2 - (i2 + 1))"
      using Suc.prems by (subst seg_Cons) simp_all
    moreover have "load l2 (off2 + i2) = Some (l2 ! (off2 + i2))" using 2 Suc.prems by (simp add: load_def)
    ultimately show ?thesis using 2 Suc.prems Suc.IH[of i1 "i2 + 1" "t + 1" "tmp[t := l2 ! (off2 + i2)]"] len[of i1 "i2 + 1"]
      by (simp add: st put_Cons seg_def[of _ _ 0])
  next
    case 3
    then have "seg l1 (off1 + i1) (cnt1 - i1) = l1 ! (off1 + i1) # seg l1 (off1 + (i1 + 1)) (cnt1 - (i1 + 1))"
      "seg l2 (off2 + i2) (cnt2 - i2) = l2 ! (off2 + i2) # seg l2 (off2 + (i2 + 1)) (cnt2 - (i2 + 1))"
      using Suc.prems by (subst seg_Cons; simp)+
    moreover have "load l1 (off1 + i1) = Some (l1 ! (off1 + i1))" "load l2 (off2 + i2) = Some (l2 ! (off2 + i2))"
      using 3 Suc.prems by (simp_all add: load_def)
    ultimately show ?thesis using 3 Suc.prems Suc.IH[of "i1 + 1" i2 "t + 1" "tmp[t := l1 ! (off1 + i1)]"] len[of "i1 + 1" i2]
        Suc.IH[of i1 "i2 + 1" "t + 1" "tmp[t := l2 ! (off2 + i2)]"] len[of i1 "i2 + 1"]
      by (simp add: st put_Cons cmp_le_def)
  qed
qed simp

lemma merge_snoc:
  assumes "total_preorder le" "sorted_wrt le (xs @ [x])" "sorted_wrt le (ys @ [y])"
  shows "merge le (xs @ [x]) (ys @ [y]) = (if le x y then merge le (xs @ [x]) ys @ [y] else merge le xs (ys @ [y]) @ [x])"
proof -
  note ord = total_preorderD[OF assms(1)] and m = merge_stable[OF assms(1)]
  have s: "sorted_wrt le xs" "sorted_wrt le ys" using assms(2,3) by (simp_all add: sorted_wrt_append)
  have up: "z \<in> set (xs @ [x]) \<Longrightarrow> le z x" "z \<in> set (ys @ [y]) \<Longrightarrow> le z y" for z
    using assms(2,3) ord(1) by (auto simp: sorted_wrt_append)
  have "stable_sort_of le ((xs @ [x]) @ ys @ [y]) (if le x y then merge le (xs @ [x]) ys @ [y] else merge le xs (ys @ [y]) @ [x])"
  proof (cases "le x y")
    case True
    then have "le z y" if "z \<in> set (xs @ [x]) \<union> set ys" for z using up that ord(3)[of z x y] by auto
    then show ?thesis using True m[OF assms(2) s(2)] stable_perm_append[of le _ _ "[y]" "[y]"]
      by (force simp: stable_sort_of_def sorted_wrt_append)
  next
    case False
    then have yx: "le y x" using ord(2) by blast
    have "le z x" if "z \<in> set xs \<union> set (ys @ [y])" for z using up that ord(3)[OF _ yx] by auto
    moreover have "stable_perm le ((xs @ [x]) @ ys @ [y]) (merge le xs (ys @ [y]) @ [x])"
    proof -
      have "filter (\<lambda>w. le z w \<and> le w z) (ys @ [y]) = []" if "le z x \<and> le x z" for z
      proof -
        have "\<not> le z w" if "w \<in> set (ys @ [y])" for w
          using up(2)[OF that] \<open>le z x \<and> le x z\<close> False ord(3)[of x z w] ord(3)[of x w y] by blast
        then show ?thesis by (simp add: filter_empty_conv)
      qed
      then show ?thesis using m[OF s(1) assms(3)] by (auto simp: stable_sort_of_def stable_perm_def)
    qed
    ultimately show ?thesis using False m[OF s(1) assms(3)] by (force simp: stable_sort_of_def sorted_wrt_append)
  qed
  then show ?thesis using stable_sort_unique[OF assms(1) m[OF assms(2,3)]] by blast
qed

lemma NMerge_right_ok:
  assumes "total_preorder (cmp_le cmp)" "t \<le> n1" "t \<le> n2" "off1 + n1 \<le> length l1" "off2 + n2 \<le> length l2" "toff + t \<le> length tmp"
    "sorted_wrt (cmp_le cmp) (seg l1 off1 n1)" "sorted_wrt (cmp_le cmp) (seg l2 off2 n2)"
  shows "NMerge_right cmp l1 off1 (int n1 - 1) l2 off2 (int n2 - 1) tmp toff t =
    Some (put tmp toff (drop (n1 + n2 - t) (merge (cmp_le cmp) (seg l1 off1 n1) (seg l2 off2 n2))))"
  using assms(2-)
proof (induction t arbitrary: n1 n2 tmp)
  case (Suc t)
  obtain m1 m2 where n: "n1 = Suc m1" "n2 = Suc m2" using Suc.prems(1,2) by (meson Suc_le_D)
  let ?v1 = "l1 ! (off1 + m1)" and ?v2 = "l2 ! (off2 + m2)" and ?le = "cmp_le cmp"
  have s: "seg l1 off1 n1 = seg l1 off1 m1 @ [?v1]" "seg l2 off2 n2 = seg l2 off2 m2 @ [?v2]"
    using Suc.prems by (simp_all add: n seg_Suc)
  have ld: "load_at l1 off1 (int m1) = Some ?v1" "load_at l2 off2 (int m2) = Some ?v2"
    using Suc.prems by (simp_all add: load_at_def n nat_add_distrib)
  have st: "store tmp (toff + t) v = Some (tmp[toff + t := v])" for v using Suc.prems by (simp add: store_def)
  have step: "put (tmp[toff + t := v]) toff (drop (n1 + n2 - Suc t) M) = put tmp toff (drop (n1 + n2 - Suc t) (M @ [v]))"
    if "length M = m1 + m2 + 1" for M v
    using put_snoc[of toff "drop (n1 + n2 - Suc t) M" tmp v] that Suc.prems n by simp
  have sub: "sorted_wrt ?le (seg l1 off1 m1)" "sorted_wrt ?le (seg l2 off2 m2)"
    using Suc.prems(6,7) unfolding s by (simp_all add: sorted_wrt_append)
  show ?case
  proof (cases "?le ?v1 ?v2")
    case True
    have "NMerge_right cmp l1 off1 (int n1 - 1) l2 off2 (int m2 - 1) (tmp[toff + t := ?v2]) toff t =
        Some (put (tmp[toff + t := ?v2]) toff (drop (n1 + m2 - t) (merge ?le (seg l1 off1 n1) (seg l2 off2 m2))))"
      by (rule Suc.IH) (use Suc.prems sub n in simp_all)
    then show ?thesis
      using step[of "merge ?le (seg l1 off1 n1) (seg l2 off2 m2)" ?v2] merge_snoc[OF assms(1) Suc.prems(6,7)[unfolded s]]
        Suc.prems True by (simp add: ld st n s[unfolded n] flip: cmp_le_def)
  next
    case False
    have "NMerge_right cmp l1 off1 (int m1 - 1) l2 off2 (int n2 - 1) (tmp[toff + t := ?v1]) toff t =
        Some (put (tmp[toff + t := ?v1]) toff (drop (m1 + n2 - t) (merge ?le (seg l1 off1 m1) (seg l2 off2 n2))))"
      by (rule Suc.IH) (use Suc.prems sub n in simp_all)
    then show ?thesis
      using step[of "merge ?le (seg l1 off1 m1) (seg l2 off2 n2)" ?v1] merge_snoc[OF assms(1) Suc.prems(6,7)[unfolded s]]
        Suc.prems False by (simp add: ld st n s[unfolded n] flip: cmp_le_def)
  qed
qed simp


lemma CFSortIndexesNMerge_ok:
  assumes "total_preorder (cmp_le cmp)" "0 < cnt1" "0 < cnt2" "cnt2 \<le> cnt1" "off1 + cnt1 \<le> length l1" "off2 + cnt2 \<le> length l2"
    "toff + (if right then cnt2 else cnt1) \<le> length tmp"
    "sorted_wrt (cmp_le cmp) (seg l1 off1 cnt1)" "sorted_wrt (cmp_le cmp) (seg l2 off2 cnt2)"
  shows "CFSortIndexesNMerge cmp l1 off1 cnt1 l2 off2 cnt2 tmp toff right =
    Some (put tmp toff (let M = merge (cmp_le cmp) (seg l1 off1 cnt1) (seg l2 off2 cnt2) in if right then drop cnt1 M else take cnt1 M))"
proof -
  let ?xs = "seg l1 off1 cnt1" and ?ys = "seg l2 off2 cnt2" and ?le = "cmp_le cmp"
  have ld: "load_at l1 off1 (int cnt1 - 1) = Some (last ?xs)" "load l2 off2 = Some (hd ?ys)"
    using assms(2,3,5,6) by (auto simp: load_at_def load_def last_conv_nth hd_conv_nth nat_diff_distrib nat_add_distrib
        algebra_simps of_nat_diff simp flip: length_greater_0_conv)
  have "merge ?le ?xs ?ys = ?xs @ ?ys" if "?le (last ?xs) (hd ?ys)"
    by (rule merge_ordered[OF assms(1,8,9) _ _ that]) (use assms(2-6) in \<open>simp_all flip: length_greater_0_conv\<close>)
  moreover have "NMerge_right cmp l1 off1 (int cnt1 - 1) l2 off2 (int cnt2 - 1) tmp toff cnt2 =
      Some (put tmp toff (drop cnt1 (merge ?le ?xs ?ys)))" if right
    using NMerge_right_ok[OF assms(1), of cnt2 cnt1 cnt2 off1 l1 off2 l2 toff tmp] assms that by simp
  moreover have "NMerge_left cmp cnt1 cnt2 l1 off1 0 l2 off2 0 tmp toff cnt1 = Some (put tmp toff (take cnt1 (merge ?le ?xs ?ys)))"
    if "\<not> right" using NMerge_left_ok[of cnt1 cnt1 0 cnt2 0 off1 l1 off2 l2 toff tmp cmp] assms that by simp
  ultimately show ?thesis using assms(5-7)
    by (cases right) (auto simp: CFSortIndexesNMerge_def ld Let_def memmove_put simp flip: cmp_le_def)
qed

section \<open>Odd-even merging of blocks\<close>

text \<open>One phase on a list of blocks: neighbours are merged and split again.\<close>

fun split_pairs :: "('a \<Rightarrow> 'a \<Rightarrow> bool) \<Rightarrow> nat \<Rightarrow> 'a list list \<Rightarrow> 'a list list" where
  "split_pairs le m (x # y # bs) = take m (merge le x y) # drop m (merge le x y) # split_pairs le m bs"
| "split_pairs le m bs = bs"

fun phase :: "('a \<Rightarrow> 'a \<Rightarrow> bool) \<Rightarrow> nat \<Rightarrow> bool \<Rightarrow> 'a list list \<Rightarrow> 'a list list" where
  "phase le m True (b # bs) = b # split_pairs le m bs"
| "phase le m False bs = split_pairs le m bs"
| "phase le m True [] = []"

fun phases :: "('a \<Rightarrow> 'a \<Rightarrow> bool) \<Rightarrow> nat \<Rightarrow> nat \<Rightarrow> 'a list list \<Rightarrow> 'a list list" where
  "phases le m 0 bs = bs"
| "phases le m (Suc t) bs = phase le m (odd t) (phases le m t bs)"

text \<open>All blocks sorted and full, the last one perhaps shorter.\<close>

definition blocks_ok :: "('a \<Rightarrow> 'a \<Rightarrow> bool) \<Rightarrow> nat \<Rightarrow> 'a list list \<Rightarrow> bool" where
  "blocks_ok le m bs \<longleftrightarrow> (\<forall>b \<in> set bs. sorted_wrt le b \<and> length b \<le> m) \<and> (\<forall>b \<in> set (butlast bs). length b = m)"

lemma length_split_pairs [simp]: "length (split_pairs le m bs) = length bs"
  by (induction le m bs rule: split_pairs.induct) simp_all

lemma length_phase [simp]: "length (phase le m p bs) = length bs"
  by (cases "(le, m, p, bs)" rule: phase.cases) simp_all

lemma length_phases [simp]: "length (phases le m t bs) = length bs"
  by (induction t) simp_all

lemma split_pairs_Nil [simp]: "split_pairs le m bs = [] \<longleftrightarrow> bs = []"
  by (metis length_0_conv length_split_pairs)

lemma blocks_ok_Cons: "blocks_ok le m (b # bs) \<longleftrightarrow> sorted_wrt le b \<and> length b \<le> m \<and> (bs \<noteq> [] \<longrightarrow> length b = m) \<and> blocks_ok le m bs"
  by (auto simp: blocks_ok_def)

lemma split_pairs_ok:
  "total_preorder le \<Longrightarrow> blocks_ok le m bs \<Longrightarrow> blocks_ok le m (split_pairs le m bs) \<and> stable_perm le (concat bs) (concat (split_pairs le m bs))"
proof (induction le m bs rule: split_pairs.induct)
  case (1 le m x y bs)
  have xy: "sorted_wrt le x" "sorted_wrt le y" "length x = m" "length y \<le> m" "bs \<noteq> [] \<longrightarrow> length y = m" "blocks_ok le m bs"
    using 1(3) by (auto simp: blocks_ok_Cons)
  have M: "stable_sort_of le (x @ y) (merge le x y)" by (rule merge_stable[OF 1(2) xy(1,2)])
  then have "sorted_wrt le (take m (merge le x y))" "sorted_wrt le (drop m (merge le x y))"
    by (auto simp: stable_sort_of_def sorted_wrt_take sorted_wrt_drop)
  moreover have "stable_perm le ((x @ y) @ concat bs) (merge le x y @ concat (split_pairs le m bs))"
    using M 1(1)[OF 1(2) xy(6)] by (intro stable_perm_append) (auto simp: stable_sort_of_def)
  ultimately show ?case using xy 1(1)[OF 1(2) xy(6)]
    by (auto simp: blocks_ok_Cons simp flip: append_assoc)
qed (auto simp: blocks_ok_def)

lemma phase_ok:
  assumes "total_preorder le" "blocks_ok le m bs"
  shows "blocks_ok le m (phase le m p bs) \<and> stable_perm le (concat bs) (concat (phase le m p bs))"
proof (cases "(le, m, p, bs)" rule: phase.cases)
  case (1 le m b bs)
  then show ?thesis using assms split_pairs_ok[of le m bs] stable_perm_append[of le b b "concat bs"] by (auto simp: blocks_ok_Cons)
next
  case (2 le m bs)
  then show ?thesis using assms split_pairs_ok[of le m bs] by auto
qed (use assms in auto)

lemma phases_ok:
  assumes "total_preorder le" "blocks_ok le m bs"
  shows "blocks_ok le m (phases le m t bs) \<and> stable_perm le (concat bs) (concat (phases le m t bs))"
  by (induction t) (use assms phase_ok[OF assms(1)] stable_perm_trans in \<open>fastforce+\<close>)

text \<open>How many elements of a lower set the first blocks hold.\<close>

definition lower :: "('a \<Rightarrow> bool) \<Rightarrow> 'a list list \<Rightarrow> nat \<Rightarrow> nat" where
  "lower D bs i = length (filter D (concat (take i bs)))"

lemma lower_0 [simp]: "lower D bs 0 = 0"
  by (simp add: lower_def)

lemma lower_Cons [simp]: "lower D (b # bs) (Suc i) = length (filter D b) + lower D bs i"
  by (simp add: lower_def)

lemma filter_take_sorted:
  assumes "sorted_wrt le xs" "\<And>a b. le a b \<Longrightarrow> D b \<Longrightarrow> D a"
  shows "length (filter D (take m xs)) = min m (length (filter D xs))"
  using assms(1)
proof (induction xs arbitrary: m)
  case (Cons x xs)
  show ?case
  proof (cases "D x")
    case False
    then have "filter D xs = []" using Cons.prems assms(2) by (auto simp: filter_empty_conv)
    moreover have "filter D (take k xs) = []" for k using calculation by (meson filter_empty_conv in_set_takeD)
    ultimately show ?thesis using False by (cases m) simp_all
  qed (use Cons in \<open>cases m; simp\<close>)
qed simp

lemma length_filter_merge: "length (filter D (merge le xs ys)) = length (filter D xs) + length (filter D ys)"
  by (induction le xs ys rule: merge.induct) auto

lemma lower_split_pairs:
  assumes "\<And>a b. le a b \<Longrightarrow> D b \<Longrightarrow> D a"
  shows "total_preorder le \<Longrightarrow> blocks_ok le m bs \<Longrightarrow> lower D (split_pairs le m bs) i =
    (if odd i \<and> i < length bs then min (lower D bs (i - 1) + m) (lower D bs (i + 1)) else lower D bs i)"
  using assms
proof (induction le m bs arbitrary: i rule: split_pairs.induct)
  case (1 le m x y bs)
  let ?M = "merge le x y"
  have xy: "sorted_wrt le x" "sorted_wrt le y" "blocks_ok le m bs" using 1(3) by (auto simp: blocks_ok_Cons)
  then have "sorted_wrt le ?M" using merge_stable[OF 1(2)] by (simp add: stable_sort_of_def)
  then have t: "length (filter D (take m ?M)) = min m (length (filter D x) + length (filter D y))"
    using filter_take_sorted[of le ?M D m] 1(4) by (simp add: length_filter_merge)
  have td: "length (filter D (take m ?M)) + length (filter D (drop m ?M)) = length (filter D x) + length (filter D y)"
    by (metis append_take_drop_id filter_append length_append length_filter_merge)
  consider "i = 0" | "i = 1" | j where "i = Suc (Suc j)" by (metis One_nat_def not0_implies_Suc)
  then show ?case
  proof cases
    case 2
    then show ?thesis using t by (simp add: lower_def)
  next
    case 3
    show ?thesis
    proof (cases "odd j \<and> j < length bs")
      case True
      then obtain k where "j = Suc k" by (metis odd_pos gr0_implies_Suc)
      then show ?thesis using 1(1)[OF 1(2) xy(3) 1(4), where i = j] td True 3 by simp
    qed (use 1(1)[OF 1(2) xy(3) 1(4), where i = j] td 3 in auto)
  qed simp
qed (auto simp: lower_def take_Cons')


text \<open>
  A phase moves elements of a lower set as far to the left as one block boundary allows: in terms of the counts, the
  one at a boundary between merged blocks becomes the smaller of the next count and the previous one plus a block.
\<close>

lemma lower_phase:
  assumes "total_preorder le" "blocks_ok le m bs" "\<And>a b. le a b \<Longrightarrow> D b \<Longrightarrow> D a"
  shows "lower D (phase le m p bs) i =
    (if (odd i \<longleftrightarrow> \<not> p) \<and> 0 < i \<and> i < length bs then min (lower D bs (i - 1) + m) (lower D bs (i + 1)) else lower D bs i)"
proof (cases "(le, m, p, bs)" rule: phase.cases)
  case (1 le' m' b bs')
  then have bs: "blocks_ok le m bs'" using assms(2) by (simp add: blocks_ok_Cons)
  show ?thesis
  proof (cases i)
    case (Suc j)
    show ?thesis
    proof (cases "odd j \<and> j < length bs'")
      case True
      then obtain k where "j = Suc k" by (metis odd_pos gr0_implies_Suc)
      then show ?thesis using 1 lower_split_pairs[of le D m bs' j, OF assms(3,1) bs] True Suc by simp
    qed (use 1 lower_split_pairs[of le D m bs' j, OF assms(3,1) bs] Suc in auto)
  qed simp
next
  case (2 le' m' bs')
  then show ?thesis using lower_split_pairs[of le D m bs i, OF assms(3,1,2)] odd_pos by auto
qed (use assms in auto)

text \<open>
  What a count has reached after \<open>k\<close> phases: either its final value, or \<open>L\<close> blocks have come from the left and the
  elements that were within \<open>R\<close> blocks to the right.
\<close>

definition advanced :: "nat \<Rightarrow> nat \<Rightarrow> nat \<Rightarrow> nat \<Rightarrow> nat \<Rightarrow> nat \<Rightarrow> bool" where
  "advanced m n Z k i P \<longleftrightarrow> min (i * m) Z \<le> P \<or> (\<exists>L R. L + R = k \<and> m * L \<le> P \<and> Z \<le> P + m * (n - i - R))"

lemma advanced_step:
  assumes "0 < i" "i < n" "advanced m n Z k (i - 1) P" "advanced m n Z k (i + 1) Q"
  shows "advanced m n Z (Suc k) i (min (P + m) Q)"
proof (cases "P + m \<le> Q")
  case True
  consider "min ((i - 1) * m) Z \<le> P" | L R where "L + R = k" "m * L \<le> P" "Z \<le> P + m * (n - (i - 1) - R)"
    using assms(3) by (auto simp: advanced_def)
  then show ?thesis
  proof cases
    case 1
    have "i * m = (i - 1) * m + m" using assms(1) by (cases i) simp_all
    then show ?thesis using 1 True by (auto simp: advanced_def)
  next
    case 2
    have "m * (n - (i - 1) - R) \<le> m * (n - i - R + 1)" using assms(1) by (intro mult_le_mono2) linarith
    then have "Z \<le> P + m + m * (n - i - R)" using 2 by simp
    then have "Suc L + R = Suc k \<and> m * Suc L \<le> min (P + m) Q \<and> Z \<le> min (P + m) Q + m * (n - i - R)" using 2 True by simp
    then show ?thesis unfolding advanced_def by blast
  qed
next
  case False
  consider "min ((i + 1) * m) Z \<le> Q" | L R where "L + R = k" "m * L \<le> Q" "Z \<le> Q + m * (n - (i + 1) - R)"
    using assms(4) by (auto simp: advanced_def)
  then show ?thesis
  proof cases
    case 1
    then have "min (i * m) Z \<le> Q" by simp
    then show ?thesis using False by (simp add: advanced_def)
  next
    case 2
    then have "L + Suc R = Suc k \<and> m * L \<le> min (P + m) Q \<and> Z \<le> min (P + m) Q + m * (n - i - Suc R)" using False by simp
    then show ?thesis unfolding advanced_def by blast
  qed
qed

lemma advanced_done:
  assumes "advanced m n Z k i P" "n \<le> k + 1" "i \<le> n"
  shows "min (i * m) Z \<le> P"
proof -
  have "i * m \<le> P \<or> Z \<le> P" if "L + R = k" "m * L \<le> P" "Z \<le> P + m * (n - i - R)" for L R
  proof (cases "i \<le> L")
    case True
    then have "i * m \<le> m * L" by (simp add: mult.commute)
    then show ?thesis using that(2) by linarith
  next
    case False
    then have "n - i - R = 0" using that(1) assms(2,3) by linarith
    then show ?thesis using that(3) by simp
  qed
  then show ?thesis using assms(1) unfolding advanced_def min_le_iff_disj by blast
qed

lemma length_concat_full: "\<forall>b \<in> set bs. length b = m \<Longrightarrow> length (concat bs) = length bs * m"
  by (induction bs) auto

lemma length_concat_le: "\<forall>b \<in> set bs. length b \<le> m \<Longrightarrow> length (concat bs) \<le> length bs * m"
  by (induction bs) auto

lemma lower_split:
  assumes "i \<le> length bs"
  shows "lower D bs (length bs) = lower D bs i + length (filter D (concat (drop i bs)))"
  by (simp add: lower_def) (metis append_take_drop_id concat_append filter_append length_append)

lemma phases_advanced:
  assumes "total_preorder le" "blocks_ok le m bs" "\<And>a b. le a b \<Longrightarrow> D b \<Longrightarrow> D a" "i \<le> length bs"
  shows "advanced m (length bs) (lower D bs (length bs)) (if even (i + t) then t else t - 1) i (lower D (phases le m t bs) i)"
  using assms(4)
proof (induction t arbitrary: i)
  case 0
  have "length (filter D (concat (drop i bs))) \<le> (length bs - i) * m"
  proof (rule order_trans[OF length_filter_le])
    show "length (concat (drop i bs)) \<le> (length bs - i) * m"
      using length_concat_le[of "drop i bs" m] assms(2) by (auto simp: blocks_ok_def dest: in_set_dropD)
  qed
  then have "lower D bs (length bs) \<le> lower D bs i + m * (length bs - i)" using lower_split[OF 0] by (simp add: mult.commute)
  then show ?case by (auto simp: advanced_def)
next
  case (Suc t)
  let ?bs = "phases le m t bs" and ?n = "length bs"
  have ok: "blocks_ok le m ?bs" "lower D ?bs ?n = lower D bs ?n"
    using phases_ok[OF assms(1,2), of t] by (auto simp: lower_def stable_perm_def) (metis mset_filter size_mset)
  note ph = lower_phase[OF assms(1) ok(1) assms(3), where p = "odd t" and i = i]
  show ?case
  proof (cases "even (i + Suc t)")
    case True
    consider "i = 0" | "i = ?n" | "0 < i" "i < ?n" using Suc.prems by linarith
    then show ?thesis
    proof cases
      case 2
      then show ?thesis using ph ok(2) by (simp add: advanced_def)
    next
      case 3
      have "advanced m ?n (lower D bs ?n) (Suc t) i (min (lower D ?bs (i - 1) + m) (lower D ?bs (i + 1)))"
        by (rule advanced_step) (use 3 True Suc.IH[of "i - 1"] Suc.IH[of "i + 1"] in auto)
      then show ?thesis using True 3 ph by auto
    qed (simp add: advanced_def)
  next
    case False
    then show ?thesis using ph Suc.IH[OF Suc.prems] by auto
  qed
qed


lemma sorted_concatI:
  assumes "\<forall>b \<in> set bs. sorted_wrt le b"
    "\<And>i j x y. i < j \<Longrightarrow> j < length bs \<Longrightarrow> x \<in> set (bs ! i) \<Longrightarrow> y \<in> set (bs ! j) \<Longrightarrow> le x y"
  shows "sorted_wrt le (concat bs)"
  using assms
proof (induction bs)
  case (Cons b bs)
  have "sorted_wrt le (concat bs)" using Cons.prems(2)[of "Suc _" "Suc _"] Cons.prems(1) by (intro Cons.IH) auto
  moreover have "le x y" if xy: "x \<in> set b" "y \<in> set (concat bs)" for x y
  proof -
    obtain j where "j < length bs" "y \<in> set (bs ! j)" using xy(2) by (auto simp: in_set_conv_nth[of _ bs])
    then show ?thesis using xy(1) Cons.prems(2)[of 0 "Suc j" x y] by simp
  qed
  ultimately show ?case using Cons.prems(1) by (auto simp: sorted_wrt_append)
qed simp

theorem odd_even_sorts:
  assumes "total_preorder le" "blocks_ok le m bs" "length bs \<le> t"
  shows "stable_sort_of le (concat bs) (concat (phases le m t bs))"
proof -
  let ?bs = "phases le m t bs" and ?n = "length bs"
  note ord = total_preorderD[OF assms(1)]
  have ok: "blocks_ok le m ?bs" "stable_perm le (concat bs) (concat ?bs)" using phases_ok[OF assms(1,2)] by auto
  have "le x y" if ij: "i < j" "j < ?n" "x \<in> set (?bs ! i)" "y \<in> set (?bs ! j)" for i j x y
  proof (rule ccontr)
    assume no: "\<not> le x y"
    let ?D = "\<lambda>z. \<not> le x z"
    have D: "le a b \<Longrightarrow> ?D b \<Longrightarrow> ?D a" for a b using ord(3) by blast
    have "advanced m ?n (lower ?D bs ?n) (if even (i + 1 + t) then t else t - 1) (i + 1) (lower ?D ?bs (i + 1))"
      by (rule phases_advanced[OF assms(1,2) D]) (use ij in auto)
    then have min: "min ((i + 1) * m) (lower ?D bs ?n) \<le> lower ?D ?bs (i + 1)"
      by (rule advanced_done) (use ij assms(3) in \<open>auto split: if_splits\<close>)
    have "lower ?D bs ?n = lower ?D ?bs ?n"
      using ok(2) by (simp add: lower_def stable_perm_def) (metis mset_filter size_mset)
    also have "\<dots> = lower ?D ?bs (i + 1) + length (filter ?D (concat (drop (i + 1) ?bs)))"
      using lower_split[of "i + 1" ?bs ?D] ij by simp
    finally have sum: "lower ?D bs ?n = lower ?D ?bs (i + 1) + length (filter ?D (concat (drop (i + 1) ?bs)))" .
    have "y \<in> set (filter ?D (concat (drop (i + 1) ?bs)))"
    proof -
      have "?bs ! j = drop (i + 1) ?bs ! (j - (i + 1))" using ij by simp
      then have "?bs ! j \<in> set (drop (i + 1) ?bs)" using ij by (metis diff_less_mono length_drop length_phases less_iff_succ_less_eq nth_mem Suc_eq_plus1)
      then show ?thesis using ij no by auto
    qed
    then have "0 < length (filter ?D (concat (drop (i + 1) ?bs)))" by (rule length_pos_if_in_set)
    then have lt: "lower ?D ?bs (i + 1) < lower ?D bs ?n" using sum by linarith
    have "take (i + 1) ?bs = take (i + 1) (butlast ?bs)" using ij by (simp add: take_butlast)
    then have "\<forall>b \<in> set (take (i + 1) ?bs). length b = m" using ok(1) by (auto simp: blocks_ok_def dest: in_set_takeD)
    then have "length (concat (take (i + 1) ?bs)) = (i + 1) * m" using length_concat_full[of "take (i + 1) ?bs" m] ij by simp
    moreover have "x \<in> set (concat (take (i + 1) ?bs))" using ij by (auto simp: take_Suc_conv_app_nth)
    then have "length (filter ?D (concat (take (i + 1) ?bs))) < length (concat (take (i + 1) ?bs))"
      using ord(1)[of x] by (intro length_filter_less) auto
    ultimately show False using min lt by (simp add: lower_def)
  qed
  then have "sorted_wrt le (concat ?bs)" using ok(1) by (intro sorted_concatI) (auto simp: blocks_ok_def)
  then show ?thesis using ok(2) by (simp add: stable_sort_of_def)
qed

section \<open>The concurrent sort\<close>

definition valid_schedule :: "schedule \<Rightarrow> bool" where
  "valid_schedule schedule \<longleftrightarrow> (\<forall>n. distinct (schedule n) \<and> set (schedule n) = {..<n})"

text \<open>The parallel blocks are done one after the other, in some order; \<open>I D\<close> holds once those in \<open>D\<close> are.\<close>

lemma run_blocks_rule:
  assumes "distinct is" "I D s" "set is \<inter> D = {}"
    "\<And>i D s. i \<in> set is \<Longrightarrow> i \<notin> D \<Longrightarrow> I D s \<Longrightarrow> \<exists>s'. body i s = Some s' \<and> I (insert i D) s'"
  shows "\<exists>s'. run_blocks body is s = Some s' \<and> I (D \<union> set is) s'"
  using assms
proof (induction "is" arbitrary: D s)
  case (Cons i "is")
  obtain s' where s': "body i s = Some s'" "I (insert i D) s'" using Cons.prems(4)[of i D s] Cons.prems(2,3) by auto
  have "\<exists>t. run_blocks body is s' = Some t \<and> I (insert i D \<union> set is) t"
    by (rule Cons.IH) (use Cons.prems s' in auto)
  then show ?case using s'(1) by simp
qed simp

lemma dispatch_apply_rule:
  assumes "valid_schedule schedule" "I {} s"
    "\<And>i D s. i < n \<Longrightarrow> i \<notin> D \<Longrightarrow> I D s \<Longrightarrow> \<exists>s'. body i s = Some s' \<and> I (insert i D) s'"
  shows "\<exists>s'. dispatch_apply schedule n body s = Some s' \<and> I {..<n} s'"
  using run_blocks_rule[of "schedule n" I "{}" s body] assms by (auto simp: dispatch_apply_def valid_schedule_def)


definition sections :: "nat \<Rightarrow> nat \<Rightarrow> nat \<Rightarrow> 'a list \<Rightarrow> bool" where
  "sections m n r a \<longleftrightarrow> 2 \<le> n \<and> 0 < r \<and> r \<le> m \<and> length a = (n - 1) * m + r"

definition blen :: "nat \<Rightarrow> nat \<Rightarrow> nat \<Rightarrow> nat \<Rightarrow> nat" where
  "blen m n r i = (if i < n - 1 then m else r)"

definition blk :: "nat \<Rightarrow> nat \<Rightarrow> nat \<Rightarrow> 'a list \<Rightarrow> nat \<Rightarrow> 'a list" where
  "blk m n r a i = seg a (i * m) (blen m n r i)"

definition blks :: "nat \<Rightarrow> nat \<Rightarrow> nat \<Rightarrow> 'a list \<Rightarrow> 'a list list" where
  "blks m n r a = map (blk m n r a) [0..<n]"

lemma blks_simps [simp]: "length (blks m n r a) = n" "i < n \<Longrightarrow> blks m n r a ! i = blk m n r a i"
  by (simp_all add: blks_def)

lemma blen_le: "sections m n r a \<Longrightarrow> blen m n r i \<le> m" "sections m n r a \<Longrightarrow> 0 < blen m n r i"
  by (auto simp: sections_def blen_def)

lemma blk_bound:
  assumes "sections m n r a" "i < n"
  shows "i * m + blen m n r i \<le> length a"
proof (cases "i < n - 1")
  case True
  then have "Suc i * m \<le> (n - 1) * m" by (intro mult_le_mono1) simp
  then show ?thesis using True assms(1) by (simp add: sections_def blen_def)
next
  case False
  then have "i = n - 1" using assms(2) by simp
  then show ?thesis using assms(1) by (simp add: sections_def blen_def)
qed

lemma length_blk [simp]: "sections m n r a \<Longrightarrow> i < n \<Longrightarrow> length (blk m n r a i) = blen m n r i"
  using blk_bound[of m n r a i] by (simp add: blk_def)

lemma concat_blks:
  assumes "sections m n r a"
  shows "concat (blks m n r a) = a"
proof -
  have *: "concat (map (\<lambda>i. seg a (i * m) m) [0..<k]) = take (k * m) a" for k
    by (induction k) (simp_all add: seg_def take_add add.commute[of m])
  have n: "[0..<n] = [0..<n - 1] @ [n - 1]" using assms by (auto simp: sections_def upt_Suc_append[symmetric])
  have f: "map (blk m n r a) [0..<n - 1] = map (\<lambda>i. seg a (i * m) m) [0..<n - 1]" by (simp add: blk_def blen_def)
  have "concat (blks m n r a) = take ((n - 1) * m) a @ seg a ((n - 1) * m) r"
    unfolding blks_def n map_append concat_append f * by (simp add: blk_def blen_def)
  then show ?thesis using assms by (simp add: seg_def sections_def)
qed

lemma blk_apart: "i < n \<Longrightarrow> j < n \<Longrightarrow> i \<noteq> j \<Longrightarrow> sections m n r a \<Longrightarrow> i * m + blen m n r i \<le> j * m \<or> j * m + blen m n r j \<le> i * m"
proof -
  assume a: "i < n" "j < n" "i \<noteq> j" "sections m n r a"
  have "Suc p * m \<le> q * m \<and> blen m n r p \<le> m" if "p < q" for p q using that mult_le_mono1[of "Suc p" q m] blen_le(1)[OF a(4)] by simp
  then show ?thesis using a(3) by (metis add.commute add_le_cancel_left le_trans linorder_neqE_nat mult_Suc)
qed

lemma blk_put:
  assumes "sections m n r a" "i < n" "j < n" "length ys = blen m n r i"
  shows "blk m n r (put a (i * m) ys) j = (if i = j then ys else blk m n r a j)" "sections m n r (put a (i * m) ys)"
proof -
  have b: "i * m + length ys \<le> length a" "j * m + blen m n r j \<le> length a" using blk_bound[OF assms(1)] assms by simp_all
  show "blk m n r (put a (i * m) ys) j = (if i = j then ys else blk m n r a j)"
    using b assms blk_apart[of j n i m r a] seg_put_disjoint[OF b(1), of "j * m" "blen m n r j"] by (auto simp: blk_def)
  show "sections m n r (put a (i * m) ys)" using assms(1) b(1) by (simp add: sections_def)
qed

lemma split_pairs_nth:
  "i < length bs \<Longrightarrow> split_pairs le m bs ! i =
    (if even i then if Suc i < length bs then take m (merge le (bs ! i) (bs ! Suc i)) else bs ! i
     else drop m (merge le (bs ! (i - 1)) (bs ! i)))"
proof (induction le m bs arbitrary: i rule: split_pairs.induct)
  case (1 le m x y bs)
  consider "i = 0" | "i = 1" | j where "i = Suc (Suc j)" by (metis One_nat_def not0_implies_Suc)
  then show ?case
  proof cases
    case 3
    then show ?thesis using 1(1)[of j] 1(2) by (cases j) auto
  qed auto
qed auto

lemma phase_nth:
  "i < length bs \<Longrightarrow> phase le m p bs ! i =
    (if odd i = p then if Suc i < length bs then take m (merge le (bs ! i) (bs ! Suc i)) else bs ! i
     else if i = 0 then bs ! 0 else drop m (merge le (bs ! (i - 1)) (bs ! i)))"
proof (cases "(le, m, p, bs)" rule: phase.cases)
  case (1 le' m' b bs')
  assume "i < length bs"
  then show ?thesis using 1 split_pairs_nth[of "i - 1" bs' le m] by (cases i; cases "i - 1") auto
next
  case (2 le' m' bs')
  assume "i < length bs"
  then show ?thesis using 2 split_pairs_nth[of i bs le m] by (cases i) auto
qed simp


definition buffers_ok :: "nat \<Rightarrow> nat \<Rightarrow> 'a list list \<Rightarrow> bool" where
  "buffers_ok m n tmps \<longleftrightarrow> length tmps = n \<and> (\<forall>i<n. length (tmps ! i) = m)"

lemma buffers_update: "buffers_ok m n tmps \<Longrightarrow> i < n \<Longrightarrow> length tmp = m \<Longrightarrow> buffers_ok m n (tmps[i := tmp])"
  by (auto simp: buffers_ok_def nth_list_update)

lemma buffers_load: "buffers_ok m n tmps \<Longrightarrow> i < n \<Longrightarrow> load tmps i = Some (tmps ! i) \<and> length (tmps ! i) = m"
  by (simp add: buffers_ok_def load_def)

lemma buffers_store: "buffers_ok m n tmps \<Longrightarrow> i < n \<Longrightarrow> store tmps i tmp = Some (tmps[i := tmp])"
  by (simp add: buffers_ok_def store_def)

lemma sort_sections_ok:
  fixes cmp :: "'a \<Rightarrow> 'a \<Rightarrow> CFComparisonResult"
  assumes "total_preorder (cmp_le cmp)" "sections m n r a" "valid_schedule schedule" "buffers_ok m n tmps"
  shows "\<exists>a' tmps'. dispatch_apply schedule n (sort_section cmp m n r) (a, tmps) = Some (a', tmps') \<and> sections m n r a' \<and>
    buffers_ok m n tmps' \<and> (\<forall>i<n. stable_sort_of (cmp_le cmp) (blk m n r a i) (blk m n r a' i))"
proof -
  define I where "I = (\<lambda>D (a', tmps' :: 'a list list). sections m n r a' \<and> buffers_ok m n tmps' \<and>
    (\<forall>i<n. if i \<in> D then stable_sort_of (cmp_le cmp) (blk m n r a i) (blk m n r a' i) else blk m n r a' i = blk m n r a i))"
  have "\<exists>s'. dispatch_apply schedule n (sort_section cmp m n r) (a, tmps) = Some s' \<and> I {..<n} s'"
  proof (rule dispatch_apply_rule[OF assms(3)])
    show "I {} (a, tmps)" using assms(2,4) by (simp add: I_def)
    fix i D s assume i: "i < n" "i \<notin> D" "I D s"
    obtain a1 tmps1 where s: "s = (a1, tmps1)" "sections m n r a1" "buffers_ok m n tmps1" using i(3) by (auto simp: I_def)
    obtain ys tmp where ys: "CFSimpleMergeSort cmp a1 (i * m) (blen m n r i) (tmps1 ! i) = Some (put a1 (i * m) ys, tmp)"
      "length tmp = m" "stable_sort_of (cmp_le cmp) (blk m n r a1 i) ys"
      using CFSimpleMergeSort_ok[OF assms(1) blk_bound[OF s(2) i(1)], of "tmps1 ! i"] buffers_load[OF s(3) i(1)] blen_le(1)[OF s(2)]
      by (auto simp: blk_def)
    have len: "length ys = blen m n r i"
      using ys(3) stable_perm_length[of _ "blk m n r a1 i" ys] i(1) s(2) by (auto simp: stable_sort_of_def)
    have "sort_section cmp m n r i s = Some (put a1 (i * m) ys, tmps1[i := tmp])"
      using ys(1) buffers_load[OF s(3) i(1)] buffers_store[OF s(3) i(1)] i(1) by (simp add: sort_section_def s(1) blen_def Let_def)
    moreover have "blk m n r a1 i = blk m n r a i" using i by (simp add: I_def s(1))
    then have "I (insert i D) (put a1 (i * m) ys, tmps1[i := tmp])"
      using i ys(3) blk_put[OF s(2) i(1) _ len] buffers_update[OF s(3) i(1) ys(2)] by (auto simp: I_def s(1))
    ultimately show "\<exists>s'. sort_section cmp m n r i s = Some s' \<and> I (insert i D) s'" by blast
  qed
  then show ?thesis by (auto simp: I_def)
qed

lemma blks_ok_iff:
  assumes "sections m n r a"
  shows "blocks_ok le m (blks m n r a) \<longleftrightarrow> (\<forall>i<n. sorted_wrt le (blk m n r a i))"
proof -
  have "butlast (blks m n r a) = map (blk m n r a) [0..<n - 1]" by (cases n) (simp_all add: blks_def)
  then show ?thesis using assms blen_le(1)[OF assms] by (auto simp: blocks_ok_def blks_def) (auto simp: blen_def)
qed

lemma pair_merge_ok:
  assumes "total_preorder (cmp_le cmp)" "sections m n r a" "Suc q < n" "off1 + m \<le> length l1" "off2 + blen m n r (Suc q) \<le> length l2"
    "sorted_wrt (cmp_le cmp) (seg l1 off1 m)" "sorted_wrt (cmp_le cmp) (seg l2 off2 (blen m n r (Suc q)))"
    "toff + blen m n r (if right then Suc q else q) \<le> length tmp"
  shows "CFSortIndexesNMerge cmp l1 off1 m l2 off2 (blen m n r (Suc q)) tmp toff right =
      Some (put tmp toff (let M = merge (cmp_le cmp) (seg l1 off1 m) (seg l2 off2 (blen m n r (Suc q))) in if right then drop m M else take m M))"
    "length (let M = merge (cmp_le cmp) (seg l1 off1 m) (seg l2 off2 (blen m n r (Suc q))) in if right then drop m M else take m M) =
      blen m n r (if right then Suc q else q)"
proof -
  have q: "blen m n r q = m" using assms(3) by (auto simp: blen_def)
  show "CFSortIndexesNMerge cmp l1 off1 m l2 off2 (blen m n r (Suc q)) tmp toff right =
      Some (put tmp toff (let M = merge (cmp_le cmp) (seg l1 off1 m) (seg l2 off2 (blen m n r (Suc q))) in if right then drop m M else take m M))"
    by (rule CFSortIndexesNMerge_ok[OF assms(1)]) (use assms blen_le[OF assms(2)] q in \<open>auto simp: sections_def split: if_splits\<close>)
  show "length (let M = merge (cmp_le cmp) (seg l1 off1 m) (seg l2 off2 (blen m n r (Suc q))) in if right then drop m M else take m M) =
      blen m n r (if right then Suc q else q)" using assms(4,5) q by (simp add: Let_def)
qed

lemma even_phase_ok:
  fixes cmp :: "'a \<Rightarrow> 'a \<Rightarrow> CFComparisonResult"
  assumes "total_preorder (cmp_le cmp)" "sections m n r a" "valid_schedule schedule" "buffers_ok m n tmps"
    "blocks_ok (cmp_le cmp) m (blks m n r a)"
  shows "\<exists>tmps'. dispatch_apply schedule ((n div 2) * 2) (merge_even cmp m n r a) tmps = Some tmps' \<and> buffers_ok m n tmps' \<and>
    (\<forall>i < n div 2 * 2. seg (tmps' ! i) 0 (blen m n r i) = phase (cmp_le cmp) m False (blks m n r a) ! i)"
proof -
  let ?le = "cmp_le cmp"
  define I where "I = (\<lambda>D tmps'. buffers_ok m n tmps' \<and>
    (\<forall>i \<in> D. i < n \<longrightarrow> seg (tmps' ! i) 0 (blen m n r i) = phase ?le m False (blks m n r a) ! i))"
  have sorted: "sorted_wrt ?le (blk m n r a i)" if "i < n" for i using assms(5) that by (simp add: blks_ok_iff[OF assms(2)])
  have "\<exists>s'. dispatch_apply schedule ((n div 2) * 2) (merge_even cmp m n r a) tmps = Some s' \<and> I {..<n div 2 * 2} s'"
  proof (rule dispatch_apply_rule[OF assms(3)])
    show "I {} tmps" using assms(4) by (simp add: I_def)
    fix i D s assume i: "i < n div 2 * 2" "i \<notin> D" "I D s"
    define q where "q = (if odd i then i - 1 else i)"
    have q: "Suc q < n" "i = (if odd i then Suc q else q)" "even q" "i < n"
      using i(1) by (auto simp: q_def elim!: oddE evenE)
    have buf: "buffers_ok m n s" using i(3) by (simp add: I_def)
    have bl: "blen m n r q = m" using q(1) by (auto simp: blen_def)
    have blk: "blk m n r a q = seg a (q * m) m" "blk m n r a (Suc q) = seg a (Suc q * m) (blen m n r (Suc q))"
      using bl by (simp_all add: blk_def)
    let ?M = "merge ?le (blk m n r a q) (blk m n r a (Suc q))"
    let ?ys = "if odd i then drop m ?M else take m ?M"
    have mg: "CFSortIndexesNMerge cmp a (q * m) m a (Suc q * m) (blen m n r (Suc q)) (s ! i) 0 (odd i) = Some (put (s ! i) 0 ?ys)"
      "length ?ys = blen m n r i"
      using pair_merge_ok[OF assms(1,2) q(1), of "q * m" a "Suc q * m" a 0 "odd i" "s ! i"] sorted[of q] sorted[of "Suc q"] q
        blk_bound[OF assms(2), of q] blk_bound[OF assms(2), of "Suc q"] buffers_load[OF buf q(4)] blen_le(1)[OF assms(2)] bl
      by (auto simp: blk Let_def)
    have "merge_even cmp m n r a i s = Some (s[i := put (s ! i) 0 ?ys])"
    proof -
      have iq: "odd i \<Longrightarrow> i = Suc q" "even i \<Longrightarrow> i = q" using q(2) by presburger+
      have "i * m - (if odd i then m else 0) = q * m" "i * m + (if odd i then 0 else m) = Suc q * m"
        "(if i + 1 + (if odd i then 0 else 1) = n then r else m) = blen m n r (Suc q)"
        using iq q(1) by (cases "odd i"; auto simp: blen_def)+
      then show ?thesis using mg(1) buffers_load[OF buf q(4)] buffers_store[OF buf q(4)] by (simp only: merge_even_def Let_def) simp
    qed
    moreover have "phase ?le m False (blks m n r a) ! i = ?ys"
      using q by (auto simp: split_pairs_nth q_def)
    then have "I (insert i D) (s[i := put (s ! i) 0 ?ys])"
      using i(3) mg(2) q(4) buffers_load[OF buf q(4)] blen_le(1)[OF assms(2), of i] buffers_update[OF buf q(4), of "put (s ! i) 0 ?ys"]
      by (auto simp: I_def nth_list_update buffers_ok_def)
    ultimately show "\<exists>s'. merge_even cmp m n r a i s = Some s' \<and> I (insert i D) s'" by blast
  qed
  then show ?thesis by (auto simp: I_def)
qed


text \<open>The odd phase writes section \<open>i + 1\<close> of the list in its block \<open>i\<close>, from the buffers \<open>bs\<close> holds.\<close>

lemma odd_phase_ok:
  fixes cmp :: "'a \<Rightarrow> 'a \<Rightarrow> CFComparisonResult"
  assumes "total_preorder (cmp_le cmp)" "sections m n r a" "valid_schedule schedule" "buffers_ok m n tmps"
    "blocks_ok (cmp_le cmp) m bs" "length bs = n" "\<And>i. i < n \<Longrightarrow> seg (tmps ! i) 0 (blen m n r i) = bs ! i"
  shows "\<exists>a'. dispatch_apply schedule (((n - 1) div 2) * 2) (merge_odd cmp m n r tmps) a = Some a' \<and> sections m n r a' \<and>
    (\<forall>i. 0 < i \<and> i \<le> (n - 1) div 2 * 2 \<longrightarrow> blk m n r a' i = phase (cmp_le cmp) m True bs ! i)"
proof -
  let ?le = "cmp_le cmp"
  define I where "I = (\<lambda>D a'. sections m n r a' \<and> (\<forall>i \<in> D. Suc i < n \<longrightarrow> blk m n r a' (Suc i) = phase ?le m True bs ! Suc i))"
  have sorted: "sorted_wrt ?le (bs ! i)" if "i < n" for i using assms(5,6) that by (auto simp: blocks_ok_def)
  have "\<exists>s'. dispatch_apply schedule (((n - 1) div 2) * 2) (merge_odd cmp m n r tmps) a = Some s' \<and> I {..<(n - 1) div 2 * 2} s'"
  proof (rule dispatch_apply_rule[OF assms(3)])
    show "I {} a" using assms(2) by (simp add: I_def)
    fix i D s assume i: "i < (n - 1) div 2 * 2" "i \<notin> D" "I D s"
    define q where "q = (if odd i then i else i + 1)"
    have q: "Suc q < n" "Suc i = (if odd i then Suc q else q)" "odd q" "Suc i < n"
      using i(1) by (auto simp: q_def elim!: oddE evenE)
    have sec: "sections m n r s" using i(3) by (simp add: I_def)
    have bl: "blen m n r q = m" using q(1) by (auto simp: blen_def)
    note b = assms(7)[of q] assms(7)[of "Suc q"] buffers_load[OF assms(4), of q] buffers_load[OF assms(4), of "Suc q"]
    let ?M = "merge ?le (bs ! q) (bs ! Suc q)"
    let ?ys = "if odd i then drop m ?M else take m ?M"
    have mg: "CFSortIndexesNMerge cmp (tmps ! q) 0 m (tmps ! Suc q) 0 (blen m n r (Suc q)) s (Suc i * m) (odd i) = Some (put s (Suc i * m) ?ys)"
      "length ?ys = blen m n r (Suc i)"
    proof -
      have sg: "seg (tmps ! q) 0 m = bs ! q" "seg (tmps ! Suc q) 0 (blen m n r (Suc q)) = bs ! Suc q" using b(1,2) bl q(1) by simp_all
      have "0 + m \<le> length (tmps ! q)" "0 + blen m n r (Suc q) \<le> length (tmps ! Suc q)"
        using b(3,4) q(1) blen_le(1)[OF assms(2)] by simp_all
      note pm = pair_merge_ok[OF assms(1,2) q(1) this, unfolded sg, OF sorted sorted, where right = "odd i" and toff = "Suc i * m" and tmp = s]
      show "CFSortIndexesNMerge cmp (tmps ! q) 0 m (tmps ! Suc q) 0 (blen m n r (Suc q)) s (Suc i * m) (odd i) = Some (put s (Suc i * m) ?ys)"
        "length ?ys = blen m n r (Suc i)"
        using pm q(1) blk_bound[OF sec q(4)] unfolding q(2)[symmetric] Let_def by simp_all
    qed
    have "merge_odd cmp m n r tmps i s = Some (put s (Suc i * m) ?ys)"
    proof -
      have 1: "i + (if odd i then 0 else 1) = q" and 2: "i + (if odd i then 1 else 2) = Suc q" by (simp_all add: q_def)
      have 3: "(if i + 1 + (if odd i then 1 else 2) = n then r else m) = blen m n r (Suc q)"
        using q(1) 2 by (simp add: blen_def) linarith
      have 4: "i * m + m = Suc i * m" by simp
      have 5: "load tmps q = Some (tmps ! q)" "load tmps (Suc q) = Some (tmps ! Suc q)" using b(3,4) q(1) by simp_all
      show ?thesis unfolding merge_odd_def Let_def 1 2 3 4 5 Option.bind.bind_lunit by (rule mg(1))
    qed
    moreover have "phase ?le m True bs ! Suc i = ?ys" using q(1,4) assms(6) by (cases "odd i") (simp_all add: phase_nth q_def)
    then have "I (insert i D) (put s (Suc i * m) ?ys)"
      using i(2,3) blk_put(1)[OF sec q(4) _ mg(2)] blk_put(2)[OF sec q(4) q(4) mg(2)] by (auto simp: I_def)
    ultimately show "\<exists>s'. merge_odd cmp m n r tmps i s = Some s' \<and> I (insert i D) s'" by blast
  qed
  then obtain a' where a': "dispatch_apply schedule (((n - 1) div 2) * 2) (merge_odd cmp m n r tmps) a = Some a'" "I {..<(n - 1) div 2 * 2} a'" by blast
  have "blk m n r a' i = phase ?le m True bs ! i" if i: "0 < i" "i \<le> (n - 1) div 2 * 2" for i
  proof -
    obtain k where "i = Suc k" using i(1) gr0_implies_Suc by blast
    then have "i = Suc k" "k < (n - 1) div 2 * 2" "Suc k < n" using i by auto
    then show ?thesis using a'(2) by (auto simp: I_def)
  qed
  then show ?thesis using a' by (auto simp: I_def)
qed


lemma merge_pass_ok:
  fixes cmp :: "'a \<Rightarrow> 'a \<Rightarrow> CFComparisonResult"
  assumes "total_preorder (cmp_le cmp)" "sections m n r a" "valid_schedule schedule" "buffers_ok m n tmps"
    "blocks_ok (cmp_le cmp) m (blks m n r a)"
  shows "\<exists>a' tmps'. merge_pass cmp schedule m n r (a, tmps) = Some (a', tmps') \<and> sections m n r a' \<and> buffers_ok m n tmps' \<and>
    blks m n r a' = phase (cmp_le cmp) m True (phase (cmp_le cmp) m False (blks m n r a))"
proof -
  let ?bs = "phase (cmp_le cmp) m False (blks m n r a)" and ?b = "blen m n r"
  have n: "2 \<le> n" "0 < r" "r \<le> m" using assms(2) by (auto simp: sections_def)
  have last: "?b (n - 1) = r" by (simp add: blen_def)
  obtain t1 where t1: "dispatch_apply schedule ((n div 2) * 2) (merge_even cmp m n r a) tmps = Some t1" "buffers_ok m n t1"
    "\<And>i. i < n div 2 * 2 \<Longrightarrow> seg (t1 ! i) 0 (?b i) = ?bs ! i" using even_phase_ok[OF assms] by blast
  obtain t2 where t2: "(if odd n then do { tmp \<leftarrow> load t1 (n - 1); tmp \<leftarrow> memmove tmp 0 a ((n - 1) * m) r; store t1 (n - 1) tmp }
       else Some t1) = Some t2" "buffers_ok m n t2" "\<And>i. i < n \<Longrightarrow> seg (t2 ! i) 0 (?b i) = ?bs ! i"
  proof (cases "odd n")
    case True
    let ?tmp = "put (t1 ! (n - 1)) 0 (blk m n r a (n - 1))"
    have l: "length (t1 ! (n - 1)) = m" "load t1 (n - 1) = Some (t1 ! (n - 1))" using buffers_load[OF t1(2), of "n - 1"] n by auto
    have len: "length (blk m n r a (n - 1)) = r" using assms(2) n last by simp
    have e: "(if odd n then do { tmp \<leftarrow> load t1 (n - 1); tmp \<leftarrow> memmove tmp 0 a ((n - 1) * m) r; store t1 (n - 1) tmp } else Some t1) =
        Some (t1[n - 1 := ?tmp])"
      using True l buffers_store[OF t1(2), of "n - 1"] n blk_bound[OF assms(2), of "n - 1"] last
      by (simp add: memmove_put blk_def)
    have "seg (t1[n - 1 := ?tmp] ! i) 0 (?b i) = ?bs ! i" if "i < n" for i
    proof (cases "i = n - 1")
      case i: True
      have "even i" using i True n by simp
      then have "?bs ! i = blk m n r a i" using i n by (simp add: split_pairs_nth)
      moreover have "seg ?tmp 0 (?b i) = blk m n r a (n - 1)" using len l n last by (simp add: i)
      ultimately show ?thesis using i t1(2) n by (simp add: buffers_ok_def)
    next
      case False
      then have "i < n div 2 * 2" using that True by presburger
      then show ?thesis using t1(3) False by simp
    qed
    moreover have "buffers_ok m n (t1[n - 1 := ?tmp])" using len l n by (intro buffers_update[OF t1(2)]) simp_all
    ultimately show ?thesis using that[OF e] by blast
  next
    case False
    then show ?thesis using that[of t1] t1(2,3) by simp
  qed
  have ok: "blocks_ok (cmp_le cmp) m ?bs" using phase_ok[OF assms(1,5), of False] by (rule conjunct1)
  obtain a1 where a1: "dispatch_apply schedule (((n - 1) div 2) * 2) (merge_odd cmp m n r t2) a = Some a1" "sections m n r a1"
    "\<And>i. 0 < i \<Longrightarrow> i \<le> (n - 1) div 2 * 2 \<Longrightarrow> blk m n r a1 i = phase (cmp_le cmp) m True ?bs ! i"
    using odd_phase_ok[OF assms(1-3) t2(2) ok _ t2(3)] by auto
  let ?a2 = "put a1 (0 * m) (?bs ! 0)"
  have len: "length (?bs ! i) = ?b i" if "i < n" for i
    using t2(3)[OF that] buffers_load[OF t2(2) that] blen_le(1)[OF assms(2), of i] by (metis add_0 length_seg)
  have m0: "memmove a1 0 (t2 ! 0) 0 m = Some ?a2"
    using memmove_put[of 0 m a1 0 "t2 ! 0"] blk_bound[OF a1(2), of 0] buffers_load[OF t2(2), of 0] t2(3)[of 0] n by (simp add: blen_def)
  have a2: "sections m n r ?a2" "\<And>j. j < n \<Longrightarrow> blk m n r ?a2 j = (if 0 = j then ?bs ! 0 else blk m n r a1 j)"
    using blk_put(1)[OF a1(2) _ _ len, of 0] blk_put(2)[OF a1(2) _ _ len, of 0 0] n by auto
  let ?a3 = "if even n then put ?a2 ((n - 1) * m) (?bs ! (n - 1)) else ?a2"
  have m3: "(if \<not> odd n then do { tmp \<leftarrow> load t2 (n - 1); memmove ?a2 ((n - 1) * m) tmp 0 r } else Some ?a2) = Some ?a3"
  proof -
    have "memmove ?a2 ((n - 1) * m) (t2 ! (n - 1)) 0 r = Some (put ?a2 ((n - 1) * m) (seg (t2 ! (n - 1)) 0 r))"
      by (rule memmove_put) (use blk_bound[OF a2(1), of "n - 1"] buffers_load[OF t2(2), of "n - 1"] last n in simp_all)
    moreover have "seg (t2 ! (n - 1)) 0 r = ?bs ! (n - 1)" "load t2 (n - 1) = Some (t2 ! (n - 1))"
      using t2(3)[of "n - 1"] buffers_load[OF t2(2), of "n - 1"] last n by simp_all
    ultimately show ?thesis by (cases "even n") (simp_all del: phase.simps)
  qed
  have a3: "sections m n r ?a3" "\<And>j. j < n \<Longrightarrow> blk m n r ?a3 j = (if even n \<and> n - 1 = j then ?bs ! (n - 1) else blk m n r ?a2 j)"
    using blk_put(1)[OF a2(1) _ _ len, of "n - 1"] blk_put(2)[OF a2(1) _ _ len, of "n - 1" "n - 1"] n a2(1) by auto
  have "blk m n r ?a3 j = phase (cmp_le cmp) m True ?bs ! j" if "j < n" for j
  proof -
    consider "even n \<and> n - 1 = j" | "j = 0" "\<not> (even n \<and> n - 1 = j)" | "0 < j" "\<not> (even n \<and> n - 1 = j)" by blast
    then show ?thesis
    proof cases
      case 3
      then have "j \<le> (n - 1) div 2 * 2" using that by presburger
      then show ?thesis using 3 a1(3)[of j] a2(2)[OF that] a3(2)[OF that] by (auto simp del: phase.simps)
    qed (use that n a2(2)[OF that] a3(2)[OF that] in \<open>auto simp: phase_nth simp del: phase.simps\<close>)
  qed
  then have "blks m n r ?a3 = phase (cmp_le cmp) m True ?bs" by (intro nth_equalityI) simp_all
  moreover have "merge_pass cmp schedule m n r (a, tmps) = Some (?a3, t2)"
  proof -
    have l0: "load t2 0 = Some (t2 ! 0)" using buffers_load[OF t2(2), of 0] n by simp
    show ?thesis unfolding merge_pass_def Let_def prod.case t1(1) t2(1) Option.bind.bind_lunit a1(1) l0 m0 m3 by (rule refl)
  qed
  ultimately show ?thesis using a3(1) t2(2) by blast
qed


lemma merge_passes_ok:
  fixes cmp :: "'a \<Rightarrow> 'a \<Rightarrow> CFComparisonResult"
  assumes "total_preorder (cmp_le cmp)" "valid_schedule schedule" "blocks_ok (cmp_le cmp) m bs"
  shows "sections m n r a \<Longrightarrow> buffers_ok m n tmps \<Longrightarrow> blks m n r a = phases (cmp_le cmp) m (2 * j) bs \<Longrightarrow>
    \<exists>a' tmps'. merge_passes cmp schedule m n r k (a, tmps) = Some (a', tmps') \<and> sections m n r a' \<and>
      blks m n r a' = phases (cmp_le cmp) m (2 * (j + k)) bs"
proof (induction k arbitrary: a tmps j)
  case (Suc k)
  have "blocks_ok (cmp_le cmp) m (blks m n r a)" using phases_ok[OF assms(1,3)] Suc.prems(3) by simp
  then obtain a' tmps' where a': "merge_pass cmp schedule m n r (a, tmps) = Some (a', tmps')" "sections m n r a'" "buffers_ok m n tmps'"
    "blks m n r a' = phase (cmp_le cmp) m True (phase (cmp_le cmp) m False (blks m n r a))"
    using merge_pass_ok[OF assms(1) Suc.prems(1) assms(2) Suc.prems(2)] by blast
  have "blks m n r a' = phases (cmp_le cmp) m (2 * Suc j) bs" by (simp add: a'(4) Suc.prems(3))
  then show ?case using Suc.IH[OF a'(2,3)] a'(1) by fastforce
qed auto

lemma stable_perm_concat:
  "length xss = length yss \<Longrightarrow> (\<And>i. i < length xss \<Longrightarrow> stable_perm le (xss ! i) (yss ! i)) \<Longrightarrow> stable_perm le (concat xss) (concat yss)"
proof (induction xss yss rule: list_induct2)
  case (Cons x xs y ys)
  have "stable_perm le x y" using Cons.prems[of 0] by simp
  moreover have "stable_perm le (concat xs) (concat ys)" using Cons.prems[of "Suc _"] by (intro Cons.IH) simp
  ultimately show ?case by (simp add: stable_perm_append)
qed simp

lemma CFSortIndexesN_ok:
  assumes "total_preorder (cmp_le cmp)" "valid_schedule schedule" "length listp = cnt" "160 \<le> cnt" "2 \<le> ncores"
  shows "\<exists>a. CFSortIndexesN cmp schedule junk listp cnt ncores = Some a \<and> stable_sort_of (cmp_le cmp) listp a"
proof -
  define m where "m = ((((cnt + ncores - 1) div ncores) + 15) div 16) * 16"
  define n where "n = (cnt + m - 1) div m"
  define r where "r = cnt + m - m * n"
  have "(cnt + ncores - 1) div ncores \<le> cnt div 2 + 1"
  proof -
    have e: "cnt + ncores - 1 = (cnt - 1) + ncores" using assms(4) by simp
    have "(cnt + ncores - 1) div ncores \<le> (cnt - 1) div ncores + 1" unfolding e using assms(5) div_add_self2[of ncores "cnt - 1"] by simp
    also have "\<dots> \<le> (cnt - 1) div 2 + 1" using assms(5) by (simp add: div_le_mono2)
    also have "\<dots> \<le> cnt div 2 + 1" by (simp add: div_le_mono)
    finally show ?thesis .
  qed
  moreover have "1 \<le> (cnt + ncores - 1) div ncores" using div_le_mono[of ncores "cnt + ncores - 1" ncores] assms(4,5) by simp
  ultimately have m: "m < cnt" "0 < m" using assms(4) by (auto simp: m_def)
  have "cnt + m - 1 = m * n + (cnt + m - 1) mod m" "(cnt + m - 1) mod m < m" using m by (simp_all add: n_def)
  then have r: "0 < r" "r \<le> m" "m * n \<le> cnt + m - 1" using m unfolding r_def by linarith+
  have "2 \<le> n" using m div_le_mono[of "2 * m" "cnt + m - 1" m] by (simp add: n_def)
  moreover have "cnt = (n - 1) * m + r" using \<open>2 \<le> n\<close> r m unfolding r_def by (cases n) (auto simp: algebra_simps)
  ultimately have sec: "sections m n r listp" using r assms(3) by (simp add: sections_def)
  let ?tmps = "replicate n (replicate m junk)" and ?le = "cmp_le cmp"
  have buf: "buffers_ok m n ?tmps" by (simp add: buffers_ok_def)
  obtain a1 t1 where a1: "dispatch_apply schedule n (sort_section cmp m n r) (listp, ?tmps) = Some (a1, t1)" "sections m n r a1"
    "buffers_ok m n t1" "\<forall>i<n. stable_sort_of ?le (blk m n r listp i) (blk m n r a1 i)"
    using sort_sections_ok[OF assms(1) sec assms(2) buf] by blast
  let ?bs = "blks m n r a1"
  have ok: "blocks_ok ?le m ?bs" using a1(4) by (simp add: blks_ok_iff[OF a1(2)] stable_sort_of_def)
  obtain a2 t2 where a2: "merge_passes cmp schedule m n r ((n + 1) div 2) (a1, t1) = Some (a2, t2)" "sections m n r a2"
    "blks m n r a2 = phases ?le m (2 * (0 + (n + 1) div 2)) ?bs"
    using merge_passes_ok[OF assms(1,2) ok a1(2,3), of 0 "(n + 1) div 2"] by auto
  have "stable_sort_of ?le (concat ?bs) (concat (blks m n r a2))"
    unfolding a2(3) by (rule odd_even_sorts[OF assms(1) ok]) simp
  moreover have "stable_perm ?le (concat (blks m n r listp)) (concat ?bs)"
    using a1(4) by (intro stable_perm_concat) (simp_all add: stable_sort_of_def)
  ultimately have "stable_sort_of ?le listp a2"
    using stable_perm_trans unfolding stable_sort_of_def concat_blks[OF sec] concat_blks[OF a1(2)] concat_blks[OF a2(2)] by blast
  moreover have "CFSortIndexesN cmp schedule junk listp cnt ncores = Some a2"
    using a1(1) a2(1) unfolding CFSortIndexesN_def Let_def m_def[symmetric] n_def[symmetric] r_def[symmetric] by simp
  ultimately show ?thesis by blast
qed


section \<open>Correctness of the entry points\<close>

lemma fill_ok: "idx + n \<le> length buf \<Longrightarrow> fill n idx buf = Some (put buf idx [idx..<idx + n])"
proof (induction n arbitrary: idx buf)
  case (Suc n)
  have "fill n (idx + 1) (buf[idx := idx]) = Some (put (buf[idx := idx]) (idx + 1) [idx + 1..<idx + 1 + n])"
    using Suc.prems by (intro Suc.IH) simp
  also have "put (buf[idx := idx]) (idx + 1) [idx + 1..<idx + 1 + n] = put buf idx (idx # [idx + 1..<idx + 1 + n])"
    using put_Cons[of idx "[idx + 1..<idx + 1 + n]" buf idx] Suc.prems by (simp del: upt_Suc)
  also have "idx # [idx + 1..<idx + 1 + n] = [idx..<idx + Suc n]" by (simp add: upt_conv_Cons del: upt_Suc)
  finally show ?case using Suc.prems by (simp add: store_def del: upt_Suc)
qed simp

lemma fill_parallel_ok:
  assumes "valid_schedule schedule" "length buf = cnt" "0 < sz" "cnt \<le> 8 * sz"
  shows "dispatch_apply schedule 8 (fill_chunk sz cnt) buf = Some [0..<cnt]"
proof -
  define I where "I = (\<lambda>D b. length b = cnt \<and> (\<forall>i<cnt. i div sz \<in> D \<longrightarrow> b ! i = i))"
  have "\<exists>b. dispatch_apply schedule 8 (fill_chunk sz cnt) buf = Some b \<and> I {..<8} b"
  proof (rule dispatch_apply_rule[OF assms(1)])
    show "I {} buf" using assms(2) by (simp add: I_def)
    fix c D b assume I: "I D b"
    let ?n = "min (c * sz + sz) cnt - c * sz"
    show "\<exists>b'. fill_chunk sz cnt c b = Some b' \<and> I (insert c D) b'"
    proof (cases "c * sz \<le> cnt")
      case True
      have f: "fill_chunk sz cnt c b = Some (put b (c * sz) [c * sz..<c * sz + ?n])"
        using I True fill_ok[of "c * sz" ?n b] by (simp add: fill_chunk_def I_def Let_def)
      have "put b (c * sz) [c * sz..<c * sz + ?n] ! i = i" if "i < cnt" "i div sz \<in> insert c D" for i
      proof (cases "c * sz \<le> i \<and> i < c * sz + ?n")
        case False
        then have "i div sz \<noteq> c" using that(1) assms(3) dividend_less_times_div[of sz i] times_div_less_eq_dividend[of sz i]
          by (auto simp: mult.commute min_def split: if_splits)
        then show ?thesis using False I that True by (auto simp: put_nth I_def)
      qed (use I that True in \<open>auto simp: put_nth I_def\<close>)
      then show ?thesis using f I True by (auto simp: I_def)
    next
      case False
      have "i div sz \<noteq> c" if "i < cnt" for i
      proof
        assume "i div sz = c"
        then have "c * sz \<le> i" using div_times_less_eq_dividend[of i sz] by simp
        then show False using that False by linarith
      qed
      then show ?thesis using I False by (auto simp: fill_chunk_def I_def Let_def)
    qed
  qed
  then obtain b where b: "dispatch_apply schedule 8 (fill_chunk sz cnt) buf = Some b" "I {..<8} b" by blast
  have "i div sz < 8" if "i < cnt" for i using that assms(4) by (simp add: less_mult_imp_div_less)
  then have "b = [0..<cnt]" using b(2) by (intro nth_equalityI) (auto simp: I_def)
  then show ?thesis using b(1) by simp
qed

lemma CFSortIndexes_ok:
  assumes "total_preorder (cmp_le cmp)" "valid_schedule schedule" "length buf = cnt" "cnt \<le> INTPTR_MAX div 8"
  shows "\<exists>a. CFSortIndexes cmp schedule cores junk buf cnt opts = Some a \<and> stable_sort_of (cmp_le cmp) [0..<cnt] a"
proof (cases "cnt = 0")
  case True
  then show ?thesis using assms(3) by (simp add: CFSortIndexes_def stable_sort_of_def)
next
  case False
  let ?sz = "(((cnt + 15) div 16) * 16) div 8"
  have "cnt \<le> (cnt + 15) div 16 * 16" using div_mult_mod_eq[of "cnt + 15" 16] mod_less_divisor[of 16 "cnt + 15"] by linarith
  moreover have "(cnt + 15) div 16 * 16 = 8 * ?sz" by simp
  ultimately have sz: "cnt \<le> 8 * ?sz" "0 < ?sz" using False by linarith+
  have fill: "(if cnt \<le> 65536 then fill cnt 0 buf else dispatch_apply schedule 8 (fill_chunk ?sz cnt) buf) = Some [0..<cnt]"
    using fill_parallel_ok[OF assms(2,3) sz(2,1)] fill_ok[of 0 cnt buf] assms(3) by (simp add: put_def)
  show ?thesis
  proof (cases "sort_cores opts cores cnt")
    case None
    obtain ys tmp where "CFSimpleMergeSort cmp [0..<cnt] 0 cnt (replicate cnt junk) = Some (put [0..<cnt] 0 ys, tmp)"
      "stable_sort_of (cmp_le cmp) (seg [0..<cnt] 0 cnt) ys"
      using CFSimpleMergeSort_ok[OF assms(1), of 0 cnt "[0..<cnt]" "replicate cnt junk"] by auto
    moreover have "length ys = cnt" using calculation(2) stable_perm_length[of _ _ ys] by (auto simp: stable_sort_of_def)
    ultimately show ?thesis using None fill False assms(4) by (simp add: CFSortIndexes_def put_def seg_def)
  next
    case (Some ncores)
    then have "160 \<le> cnt" "2 \<le> ncores" by (auto simp: sort_cores_def Let_def split: if_splits)
    then obtain a where "CFSortIndexesN cmp schedule junk [0..<cnt] cnt ncores = Some a" "stable_sort_of (cmp_le cmp) [0..<cnt] a"
      using CFSortIndexesN_ok[OF assms(1,2), of "[0..<cnt]" cnt ncores junk] by auto
    then show ?thesis using Some fill False assms(4) by (simp add: CFSortIndexes_def)
  qed
qed

text \<open>
  C8: sorting indexes gives the stable sorted permutation of the indexes, sequentially and concurrently, for every
  number of cores, every order in which the parallel blocks take effect and whatever the buffers held before; so the
  concurrent sort gives exactly what the sequential one gives.
\<close>

theorem SortIndexes_correct:
  assumes "total_preorder (cmp_le cmp)" "valid_schedule schedule" "valid_schedule schedule'" "length buf = cnt" "length buf' = cnt"
    "cnt \<le> INTPTR_MAX div 8"
  shows "\<exists>a. CFSortIndexes cmp schedule cores junk buf cnt opts = Some a \<and>
    CFSortIndexes cmp schedule' cores' junk' buf' cnt 0 = Some a \<and>
    sorted_wrt (cmp_le cmp) a \<and> mset a = mset [0..<cnt] \<and>
    (\<forall>z. filter (\<lambda>y. cmp_le cmp z y \<and> cmp_le cmp y z) a = filter (\<lambda>y. cmp_le cmp z y \<and> cmp_le cmp y z) [0..<cnt])"
proof -
  obtain a where a: "CFSortIndexes cmp schedule cores junk buf cnt opts = Some a" "stable_sort_of (cmp_le cmp) [0..<cnt] a"
    using CFSortIndexes_ok[OF assms(1,2,4,6)] by blast
  obtain b where b: "CFSortIndexes cmp schedule' cores' junk' buf' cnt 0 = Some b" "stable_sort_of (cmp_le cmp) [0..<cnt] b"
    using CFSortIndexes_ok[OF assms(1,3,5,6)] by blast
  have "a = b" by (rule stable_sort_unique[OF assms(1) a(2) b(2)])
  then show ?thesis using a b by (auto simp: stable_sort_of_def stable_perm_def)
qed

text \<open>A comparator that orders numbers by their remainder, and two schedules.\<close>

definition by_remainder :: "nat \<Rightarrow> nat \<Rightarrow> CFComparisonResult" where
  "by_remainder a b = (if a mod 3 < b mod 3 then kCFCompareLessThan else if a mod 3 = b mod 3 then kCFCompareEqualTo else kCFCompareGreaterThan)"

lemma by_remainder_preorder: "total_preorder (cmp_le by_remainder)"
  by (auto simp: total_preorder_def cmp_le_def by_remainder_def split: if_splits)

lemma forwards_valid: "valid_schedule (\<lambda>n. [0..<n])"
  by (auto simp: valid_schedule_def)

lemma backwards_valid: "valid_schedule (\<lambda>n. rev [0..<n])"
  by (auto simp: valid_schedule_def)

theorem SortIndexes_correct_witness:
  "\<exists>a. CFSortIndexes by_remainder (\<lambda>n. rev [0..<n]) 4 7 (replicate 200 9) 200 1 = Some a \<and>
     CFSortIndexes by_remainder (\<lambda>n. [0..<n]) 1 0 (replicate 200 0) 200 0 = Some a \<and> sorted_wrt (cmp_le by_remainder) a"
proof -
  have "200 \<le> INTPTR_MAX div 8" by (simp add: INTPTR_MAX_def)
  then show ?thesis
    using SortIndexes_correct[OF by_remainder_preorder backwards_valid forwards_valid, of "replicate 200 9" 200 "replicate 200 0" 4 7 1 1 0]
    by auto
qed

lemma gather_ok: "\<forall>i \<in> set is. i < length xs \<Longrightarrow> gather xs is = Some (map ((!) xs) is)"
  by (induction "is") (auto simp: load_def)

lemma stable_sort_gather:
  assumes "total_preorder (cmp_le cmp)" "stable_sort_of (cmp_le (compare_at cmp xs)) [0..<length xs] is"
  shows "stable_sort_of (cmp_le cmp) xs (map ((!) xs) is)"
proof -
  let ?le = "cmp_le cmp" and ?f = "(!) xs"
  have le: "cmp_le (compare_at cmp xs) i j = ?le (xs ! i) (xs ! j)" for i j by (simp add: cmp_le_def compare_at_def)
  have f: "map ?f [0..<length xs] = xs" by (rule map_nth)
  have "filter (\<lambda>y. ?le z y \<and> ?le y z) (map ?f is) = filter (\<lambda>y. ?le z y \<and> ?le y z) xs" for z
  proof (cases "\<exists>k<length xs. ?le z (xs ! k) \<and> ?le (xs ! k) z")
    case True
    then obtain k where k: "?le z (xs ! k) \<and> ?le (xs ! k) z" by blast
    have "(?le z y \<and> ?le y z) = (?le (xs ! k) y \<and> ?le y (xs ! k))" for y using k total_preorderD(3)[OF assms(1)] by blast
    then have "filter (\<lambda>y. ?le z y \<and> ?le y z) (map ?f js) = map ?f (filter (\<lambda>i. cmp_le (compare_at cmp xs) k i \<and> cmp_le (compare_at cmp xs) i k) js)" for js
      by (simp add: filter_map o_def le)
    then have "filter (\<lambda>y. ?le z y \<and> ?le y z) (map ?f is) = filter (\<lambda>y. ?le z y \<and> ?le y z) (map ?f [0..<length xs])"
      using assms(2) by (simp add: stable_sort_of_def stable_perm_def)
    then show ?thesis by (simp only: f)
  next
    case False
    have "set is = set [0..<length xs]" using assms(2) by (metis stable_sort_of_def stable_perm_def set_mset_mset)
    then have "filter (\<lambda>y. ?le z y \<and> ?le y z) (map ?f is) = []" "filter (\<lambda>y. ?le z y \<and> ?le y z) (map ?f [0..<length xs]) = []"
      using False by (auto simp: filter_empty_conv)
    then show ?thesis by (simp only: f)
  qed
  moreover have "mset (map ?f is) = mset xs"
    using assms(2) f by (metis mset_map stable_sort_of_def stable_perm_def)
  moreover have "sorted_wrt ?le (map ?f is)"
    using assms(2) unfolding stable_sort_of_def sorted_wrt_map by (auto elim!: sorted_wrt_mono_rel[rotated] simp: le)
  ultimately show ?thesis by (simp add: stable_sort_of_def stable_perm_def)
qed

lemma CFQSortArray_ok:
  assumes "total_preorder (cmp_le cmp)" "valid_schedule schedule" "length xs \<le> INTPTR_MAX div 8" "1 \<le> elementSize"
  shows "\<exists>ys. CFQSortArray cmp schedule cores junk xs (length xs) elementSize = Some ys \<and>
      CFMergeSortArray cmp schedule cores junk xs (length xs) elementSize = Some ys \<and> stable_sort_of (cmp_le cmp) xs ys"
proof (cases "length xs < 2")
  case True
  then show ?thesis using stable_sort_small[of xs "cmp_le cmp"] by (simp add: CFQSortArray_def CFMergeSortArray_def)
next
  case False
  let ?c = "compare_at cmp xs" and ?n = "length xs"
  have tp: "total_preorder (cmp_le ?c)" using assms(1) by (auto simp: total_preorder_def cmp_le_def compare_at_def)
  obtain a b where a: "CFSortIndexes ?c schedule cores junk (replicate ?n junk) ?n 0 = Some a" "stable_sort_of (cmp_le ?c) [0..<?n] a"
    and b: "CFSortIndexes ?c schedule cores junk (replicate ?n junk) ?n kCFSortStable = Some b" "stable_sort_of (cmp_le ?c) [0..<?n] b"
    using CFSortIndexes_ok[OF tp assms(2) _ assms(3)] by (metis length_replicate)
  have "b = a" by (rule stable_sort_unique[OF tp b(2) a(2)])
  have set: "set a = {..<?n}" using a(2) by (metis stable_sort_of_def stable_perm_def set_mset_mset atLeast_upt)
  have len: "length a = ?n" using a(2) stable_perm_length[of "cmp_le ?c" "[0..<?n]" a] by (simp add: stable_sort_of_def)
  have "memmove xs 0 (map ((!) xs) a) 0 ?n = Some (map ((!) xs) a)" using len by (simp add: memmove_def)
  moreover have "gather xs a = Some (map ((!) xs) a)" using set by (intro gather_ok) simp
  ultimately show ?thesis
    using a b stable_sort_gather[OF assms(1) a(2)] False assms(4) \<open>b = a\<close> by (simp add: CFQSortArray_def CFMergeSortArray_def)
qed

text \<open>
  both array sorts leave the same array, the stable sorted permutation of the elements.
\<close>

theorem SortArray_correct:
  assumes "total_preorder (cmp_le cmp)" "valid_schedule schedule" "length xs \<le> INTPTR_MAX div 8" "1 \<le> elementSize"
  shows "\<exists>ys. CFQSortArray cmp schedule cores junk xs (length xs) elementSize = Some ys \<and>
    CFMergeSortArray cmp schedule cores junk xs (length xs) elementSize = Some ys \<and>
    sorted_wrt (cmp_le cmp) ys \<and> mset ys = mset xs \<and>
    (\<forall>z. filter (\<lambda>y. cmp_le cmp z y \<and> cmp_le cmp y z) ys = filter (\<lambda>y. cmp_le cmp z y \<and> cmp_le cmp y z) xs)"
  using CFQSortArray_ok[OF assms] by (auto simp: stable_sort_of_def stable_perm_def)

theorem SortArray_correct_witness:
  "\<exists>ys. CFQSortArray by_remainder (\<lambda>n. [0..<n]) 2 0 [5, 3, 1, 4, 6] 5 8 = Some ys \<and> sorted_wrt (cmp_le by_remainder) ys"
proof -
  have "length [5, 3, 1, 4, 6 :: nat] \<le> INTPTR_MAX div 8" "length [5, 3, 1, 4, 6 :: nat] = 5" by (simp_all add: INTPTR_MAX_def)
  then show ?thesis using SortArray_correct[OF by_remainder_preorder forwards_valid, of "[5, 3, 1, 4, 6]" 8 2 0] by (metis one_le_numeral)
qed

text \<open>
  The merge into the right part reads the element before the next one when the left part is used up. With at least as
  many elements on the left that never happens; with fewer it loses one.
\<close>

lemma NMerge_right_short_left:
  "CFSortIndexesNMerge by_remainder [2 :: nat] 0 1 [0, 1] 0 2 [9, 9] 0 True = Some [0, 2] \<and>
   drop 1 (merge (cmp_le by_remainder) [2] [0, 1]) = [1, 2]"
  by code_simp

end
