(* ===== verification/CF_Tree.thy ===== *)
theory CF_Tree
  imports CF_Sort
begin

text \<open>
  Trees (RuntimeLoop/CFTree.c): nodes in memory linked by parent, sibling, first child and rightmost child pointers.
  The store maps addresses to nodes; a dereference outside it is \<open>None\<close>, and so is a traversal that does not end. The
  calls of the reference counting functions and of the context callbacks are logged, oldest first. The theory shows
  that the pointer operations keep a forest and act on the lists of children.
\<close>

section \<open>Data\<close>

record CFTreeCallBacks =
  cb_retain :: ptr
  cb_release :: ptr
  cb_copyDescription :: ptr

record CFTreeContext =
  ctx_info :: ptr
  ctx_callbacks :: CFTreeCallBacks

datatype CFTreeCallBacksType = HasNullCallBacks | HasCFTypeCallBacks | HasCustomCallBacks

record CFTree =
  t_parent :: ptr
  t_sibling :: ptr
  t_child :: ptr
  t_rightmostChild :: ptr
  t_info :: ptr
  t_callbacks_type :: CFTreeCallBacksType
  t_callbacks :: CFTreeCallBacks

datatype tree_event = CFRetain ptr | CFRelease ptr | CallRetain ptr ptr | CallRelease ptr ptr

record tree_store =
  nodes :: "ptr \<rightharpoonup> CFTree"
  events :: "tree_event list"

definition assign :: "ptr \<Rightarrow> (CFTree \<Rightarrow> CFTree) \<Rightarrow> tree_store \<Rightarrow> tree_store option" where
  "assign p f s = do { n \<leftarrow> nodes s p; Some (s\<lparr>nodes := (nodes s)(p \<mapsto> f n)\<rparr>) }"

definition event :: "tree_event \<Rightarrow> tree_store \<Rightarrow> tree_store" where
  "event e s = s\<lparr>events := events s @ [e]\<rparr>"

section \<open>Contexts\<close>

text \<open>The addresses of \<open>CFRetain\<close>, \<open>CFRelease\<close> and \<open>CFCopyDescription\<close>, and what the function at an address returns.\<close>

record tree_env =
  cf_type_callbacks :: CFTreeCallBacks
  call :: "ptr \<Rightarrow> ptr \<Rightarrow> ptr"

definition kCFNullTreeCallBacks :: CFTreeCallBacks where
  "kCFNullTreeCallBacks = \<lparr>cb_retain = NULL, cb_release = NULL, cb_copyDescription = NULL\<rparr>"

definition CFTreeGetCallBacks :: "tree_env \<Rightarrow> CFTree \<Rightarrow> CFTreeCallBacks" where
  "CFTreeGetCallBacks env tree =
     (case t_callbacks_type tree of
        HasNullCallBacks \<Rightarrow> kCFNullTreeCallBacks
      | HasCFTypeCallBacks \<Rightarrow> cf_type_callbacks env
      | HasCustomCallBacks \<Rightarrow> t_callbacks tree)"

definition CFTreeCallBacksMatchNull :: "CFTreeContext \<Rightarrow> bool" where
  "CFTreeCallBacksMatchNull c = (ctx_callbacks c = kCFNullTreeCallBacks)"

definition CFTreeCallBacksMatchCFType :: "tree_env \<Rightarrow> CFTreeContext \<Rightarrow> bool" where
  "CFTreeCallBacksMatchCFType env c = (ctx_callbacks c = cf_type_callbacks env)"

definition CFTreeGetContext :: "tree_env \<Rightarrow> ptr \<Rightarrow> tree_store \<Rightarrow> CFTreeContext option" where
  "CFTreeGetContext env tree s =
     do { n \<leftarrow> nodes s tree; Some \<lparr>ctx_info = t_info n, ctx_callbacks = CFTreeGetCallBacks env n\<rparr> }"

definition CFTreeSetContext :: "tree_env \<Rightarrow> ptr \<Rightarrow> CFTreeContext \<Rightarrow> tree_store \<Rightarrow> tree_store option" where
  "CFTreeSetContext env tree context s =
     do { n \<leftarrow> nodes s tree;
          let oldcb = CFTreeGetCallBacks env n;
          let oldinfo = t_info n;
          s \<leftarrow> (if CFTreeCallBacksMatchNull context then assign tree (\<lambda>n. n\<lparr>t_callbacks_type := HasNullCallBacks\<rparr>) s
                else if CFTreeCallBacksMatchCFType env context then assign tree (\<lambda>n. n\<lparr>t_callbacks_type := HasCFTypeCallBacks\<rparr>) s
                else assign tree (\<lambda>n. n\<lparr>t_callbacks := ctx_callbacks context, t_callbacks_type := HasCustomCallBacks\<rparr>) s);
          n \<leftarrow> nodes s tree;
          let newcb = CFTreeGetCallBacks env n;
          s \<leftarrow> (if NULL \<noteq> cb_retain newcb
                then do { let info = call env (cb_retain newcb) (ctx_info context);
                          s \<leftarrow> assign tree (\<lambda>n. n\<lparr>t_info := info\<rparr>) s;
                          Some (event (CallRetain (cb_retain newcb) (ctx_info context)) s) }
                else assign tree (\<lambda>n. n\<lparr>t_info := ctx_info context\<rparr>) s);
          Some (if NULL \<noteq> cb_release oldcb then event (CallRelease (cb_release oldcb) oldinfo) s else s) }"

text \<open>\<open>memory\<close> is what the allocator returns.\<close>

definition CFTreeCreate :: "tree_env \<Rightarrow> ptr \<Rightarrow> CFTreeContext \<Rightarrow> tree_store \<Rightarrow> (tree_store \<times> ptr) option" where
  "CFTreeCreate env memory context s =
     (if NULL = memory then Some (s, NULL)
      else do { let n = \<lparr>t_parent = NULL, t_sibling = NULL, t_child = NULL, t_rightmostChild = NULL, t_info = NULL,
                         t_callbacks_type = HasNullCallBacks, t_callbacks = kCFNullTreeCallBacks\<rparr>;
                s \<leftarrow> CFTreeSetContext env memory context (s\<lparr>nodes := (nodes s)(memory \<mapsto> n)\<rparr>);
                Some (s, memory) })"

section \<open>Reading\<close>

definition CFTreeGetParent :: "ptr \<Rightarrow> tree_store \<Rightarrow> ptr option" where
  "CFTreeGetParent tree s = do { n \<leftarrow> nodes s tree; Some (t_parent n) }"

definition CFTreeGetNextSibling :: "ptr \<Rightarrow> tree_store \<Rightarrow> ptr option" where
  "CFTreeGetNextSibling tree s = do { n \<leftarrow> nodes s tree; Some (t_sibling n) }"

definition CFTreeGetFirstChild :: "ptr \<Rightarrow> tree_store \<Rightarrow> ptr option" where
  "CFTreeGetFirstChild tree s = do { n \<leftarrow> nodes s tree; Some (t_child n) }"

partial_function (option) count_siblings :: "tree_store \<Rightarrow> ptr \<Rightarrow> 32 word \<Rightarrow> int option" where
  "count_siblings s tree cnt =
     (if NULL \<noteq> tree then do { n \<leftarrow> nodes s tree; count_siblings s (t_sibling n) (cnt + 1) } else Some (sint cnt))"

definition CFTreeGetChildCount :: "ptr \<Rightarrow> tree_store \<Rightarrow> int option" where
  "CFTreeGetChildCount tree s = do { n \<leftarrow> nodes s tree; count_siblings s (t_child n) 0 }"

partial_function (option) CFTreeFindRoot :: "tree_store \<Rightarrow> ptr \<Rightarrow> ptr option" where
  "CFTreeFindRoot s tree = do { n \<leftarrow> nodes s tree; if NULL \<noteq> t_parent n then CFTreeFindRoot s (t_parent n) else Some tree }"

partial_function (option) sibling_at :: "tree_store \<Rightarrow> ptr \<Rightarrow> int \<Rightarrow> ptr option" where
  "sibling_at s tree idx =
     (if NULL \<noteq> tree then
        if 0 = idx then Some tree else do { n \<leftarrow> nodes s tree; sibling_at s (t_sibling n) (idx - 1) }
      else Some NULL)"

definition CFTreeGetChildAtIndex :: "ptr \<Rightarrow> int \<Rightarrow> tree_store \<Rightarrow> ptr option" where
  "CFTreeGetChildAtIndex tree idx s = do { n \<leftarrow> nodes s tree; sibling_at s (t_child n) idx }"

partial_function (option) copy_siblings :: "tree_store \<Rightarrow> ptr \<Rightarrow> ptr list \<Rightarrow> nat \<Rightarrow> ptr list option" where
  "copy_siblings s tree buf i =
     (if NULL \<noteq> tree then
        do { buf \<leftarrow> store buf i tree; n \<leftarrow> nodes s tree; copy_siblings s (t_sibling n) buf (i + 1) }
      else Some buf)"

definition CFTreeGetChildren :: "ptr \<Rightarrow> ptr list \<Rightarrow> tree_store \<Rightarrow> ptr list option" where
  "CFTreeGetChildren tree children s = do { n \<leftarrow> nodes s tree; copy_siblings s (t_child n) children 0 }"

text \<open>The applier may change the store; the sibling is read after the call.\<close>

partial_function (option) apply_siblings :: "(ptr \<Rightarrow> tree_store \<Rightarrow> tree_store option) \<Rightarrow> tree_store \<Rightarrow> ptr \<Rightarrow> tree_store option" where
  "apply_siblings applier s tree =
     (if NULL \<noteq> tree then do { s \<leftarrow> applier tree s; n \<leftarrow> nodes s tree; apply_siblings applier s (t_sibling n) } else Some s)"

definition CFTreeApplyFunctionToChildren :: "ptr \<Rightarrow> (ptr \<Rightarrow> tree_store \<Rightarrow> tree_store option) \<Rightarrow> tree_store \<Rightarrow> tree_store option" where
  "CFTreeApplyFunctionToChildren tree applier s = do { n \<leftarrow> nodes s tree; apply_siblings applier s (t_child n) }"

section \<open>Linking\<close>

definition CFTreePrependChild :: "ptr \<Rightarrow> ptr \<Rightarrow> tree_store \<Rightarrow> tree_store option" where
  "CFTreePrependChild tree newChild s =
     do { let s = event (CFRetain newChild) s;
          s \<leftarrow> assign newChild (\<lambda>n. n\<lparr>t_parent := tree\<rparr>) s;
          t \<leftarrow> nodes s tree;
          s \<leftarrow> assign newChild (\<lambda>n. n\<lparr>t_sibling := t_child t\<rparr>) s;
          t \<leftarrow> nodes s tree;
          s \<leftarrow> (if t_child t = NULL then assign tree (\<lambda>n. n\<lparr>t_rightmostChild := newChild\<rparr>) s else Some s);
          assign tree (\<lambda>n. n\<lparr>t_child := newChild\<rparr>) s }"

definition CFTreeAppendChild :: "ptr \<Rightarrow> ptr \<Rightarrow> tree_store \<Rightarrow> tree_store option" where
  "CFTreeAppendChild tree newChild s =
     do { c \<leftarrow> nodes s newChild;
          if t_parent c \<noteq> NULL then None
          else do { let s = event (CFRetain newChild) s;
               s \<leftarrow> assign newChild (\<lambda>n. n\<lparr>t_parent := tree\<rparr>) s;
               s \<leftarrow> assign newChild (\<lambda>n. n\<lparr>t_sibling := NULL\<rparr>) s;
               t \<leftarrow> nodes s tree;
               s \<leftarrow> (if t_child t = NULL then assign tree (\<lambda>n. n\<lparr>t_child := newChild\<rparr>) s
                     else assign (t_rightmostChild t) (\<lambda>n. n\<lparr>t_sibling := newChild\<rparr>) s);
               assign tree (\<lambda>n. n\<lparr>t_rightmostChild := newChild\<rparr>) s } }"

definition CFTreeInsertSibling :: "ptr \<Rightarrow> ptr \<Rightarrow> tree_store \<Rightarrow> tree_store option" where
  "CFTreeInsertSibling tree newSibling s =
     do { let s = event (CFRetain newSibling) s;
          t \<leftarrow> nodes s tree;
          s \<leftarrow> assign newSibling (\<lambda>n. n\<lparr>t_parent := t_parent t\<rparr>) s;
          t \<leftarrow> nodes s tree;
          s \<leftarrow> assign newSibling (\<lambda>n. n\<lparr>t_sibling := t_sibling t\<rparr>) s;
          s \<leftarrow> assign tree (\<lambda>n. n\<lparr>t_sibling := newSibling\<rparr>) s;
          t \<leftarrow> nodes s tree;
          if t_parent t \<noteq> NULL
          then do { p \<leftarrow> nodes s (t_parent t);
                    if t_rightmostChild p = tree then assign (t_parent t) (\<lambda>n. n\<lparr>t_rightmostChild := newSibling\<rparr>) s else Some s }
          else Some s }"

text \<open>The search for the previous sibling, \<open>NULL\<close> when there is none.\<close>

partial_function (option) previous_sibling :: "tree_store \<Rightarrow> ptr \<Rightarrow> ptr \<Rightarrow> ptr option" where
  "previous_sibling s tree prevSibling =
     (if prevSibling \<noteq> NULL then
        do { n \<leftarrow> nodes s prevSibling;
             if t_sibling n = tree then Some prevSibling else previous_sibling s tree (t_sibling n) }
      else Some NULL)"

definition CFTreeRemove :: "ptr \<Rightarrow> tree_store \<Rightarrow> tree_store option" where
  "CFTreeRemove tree s =
     do { t \<leftarrow> nodes s tree;
          if NULL \<noteq> t_parent t then
            do { p \<leftarrow> nodes s (t_parent t);
                 s \<leftarrow> (if tree = t_child p then
                         do { s \<leftarrow> assign (t_parent t) (\<lambda>n. n\<lparr>t_child := t_sibling t\<rparr>) s;
                              if t_sibling t = NULL then assign (t_parent t) (\<lambda>n. n\<lparr>t_rightmostChild := NULL\<rparr>) s else Some s }
                       else
                         do { prevSibling \<leftarrow> previous_sibling s tree (t_child p);
                              if prevSibling = NULL then Some s
                              else do { s \<leftarrow> assign prevSibling (\<lambda>n. n\<lparr>t_sibling := t_sibling t\<rparr>) s;
                                        p \<leftarrow> nodes s (t_parent t);
                                        if t_rightmostChild p = tree
                                        then assign (t_parent t) (\<lambda>n. n\<lparr>t_rightmostChild := prevSibling\<rparr>) s else Some s } });
                 s \<leftarrow> assign tree (\<lambda>n. n\<lparr>t_parent := NULL\<rparr>) s;
                 s \<leftarrow> assign tree (\<lambda>n. n\<lparr>t_sibling := NULL\<rparr>) s;
                 Some (event (CFRelease tree) s) }
          else Some s }"

partial_function (option) release_children :: "ptr \<Rightarrow> tree_store \<Rightarrow> tree_store option" where
  "release_children nextChild s =
     (if NULL \<noteq> nextChild then
        do { n \<leftarrow> nodes s nextChild;
             let nextSibling = t_sibling n;
             s \<leftarrow> assign nextChild (\<lambda>n. n\<lparr>t_parent := NULL\<rparr>) s;
             s \<leftarrow> assign nextChild (\<lambda>n. n\<lparr>t_sibling := NULL\<rparr>) s;
             release_children nextSibling (event (CFRelease nextChild) s) }
      else Some s)"

definition CFTreeRemoveAllChildren :: "ptr \<Rightarrow> tree_store \<Rightarrow> tree_store option" where
  "CFTreeRemoveAllChildren tree s =
     do { t \<leftarrow> nodes s tree;
          let nextChild = t_child t;
          s \<leftarrow> assign tree (\<lambda>n. n\<lparr>t_child := NULL\<rparr>) s;
          s \<leftarrow> assign tree (\<lambda>n. n\<lparr>t_rightmostChild := NULL\<rparr>) s;
          release_children nextChild s }"

fun relink :: "ptr list \<Rightarrow> nat \<Rightarrow> nat \<Rightarrow> tree_store \<Rightarrow> tree_store option" where
  "relink list idx 0 s = Some s"
| "relink list idx (Suc n) s =
     do { a \<leftarrow> load list (idx - 1); b \<leftarrow> load list idx; s \<leftarrow> assign a (\<lambda>n. n\<lparr>t_sibling := b\<rparr>) s; relink list (idx + 1) n s }"

definition CFTreeSortChildren ::
    "ptr \<Rightarrow> (ptr \<Rightarrow> ptr \<Rightarrow> CFComparisonResult) \<Rightarrow> schedule \<Rightarrow> nat \<Rightarrow> nat \<Rightarrow> tree_store \<Rightarrow> tree_store option" where
  "CFTreeSortChildren tree comparator schedule cores junk s =
     do { children \<leftarrow> CFTreeGetChildCount tree s;
          if 1 < children then
            do { t \<leftarrow> nodes s tree;
                 list \<leftarrow> copy_siblings s (t_child t) (replicate (nat children) NULL) 0;
                 list \<leftarrow> CFQSortArray comparator schedule cores junk list (nat children) 8;
                 first \<leftarrow> load list 0;
                 s \<leftarrow> assign tree (\<lambda>n. n\<lparr>t_child := first\<rparr>) s;
                 s \<leftarrow> relink list 1 (nat children - 1) s;
                 last \<leftarrow> load list (nat children - 1);
                 s \<leftarrow> assign last (\<lambda>n. n\<lparr>t_sibling := NULL\<rparr>) s;
                 assign tree (\<lambda>n. n\<lparr>t_rightmostChild := last\<rparr>) s }
          else Some s }"

text \<open>What runs when the last reference is released.\<close>

definition CFTreeDeallocate :: "tree_env \<Rightarrow> ptr \<Rightarrow> tree_store \<Rightarrow> tree_store option" where
  "CFTreeDeallocate env tree s =
     do { s \<leftarrow> CFTreeRemoveAllChildren tree s;
          n \<leftarrow> nodes s tree;
          let cb = CFTreeGetCallBacks env n;
          Some (if NULL \<noteq> cb_release cb then event (CallRelease (cb_release cb) (t_info n)) s else s) }"


section \<open>Forests\<close>

text \<open>The links as total functions, \<open>NULL\<close> outside the store.\<close>

definition par :: "(ptr \<rightharpoonup> CFTree) \<Rightarrow> ptr \<Rightarrow> ptr" where "par h p = (case h p of None \<Rightarrow> NULL | Some n \<Rightarrow> t_parent n)"
definition sib :: "(ptr \<rightharpoonup> CFTree) \<Rightarrow> ptr \<Rightarrow> ptr" where "sib h p = (case h p of None \<Rightarrow> NULL | Some n \<Rightarrow> t_sibling n)"
definition chi :: "(ptr \<rightharpoonup> CFTree) \<Rightarrow> ptr \<Rightarrow> ptr" where "chi h p = (case h p of None \<Rightarrow> NULL | Some n \<Rightarrow> t_child n)"
definition rig :: "(ptr \<rightharpoonup> CFTree) \<Rightarrow> ptr \<Rightarrow> ptr" where "rig h p = (case h p of None \<Rightarrow> NULL | Some n \<Rightarrow> t_rightmostChild n)"

lemma view_upd [simp]:
  "par (h(p \<mapsto> n)) = (par h)(p := t_parent n)" "sib (h(p \<mapsto> n)) = (sib h)(p := t_sibling n)"
  "chi (h(p \<mapsto> n)) = (chi h)(p := t_child n)" "rig (h(p \<mapsto> n)) = (rig h)(p := t_rightmostChild n)"
  by (auto simp: par_def sib_def chi_def rig_def)

lemma view_node:
  "nodes s p = Some n \<Longrightarrow> t_parent n = par (nodes s) p \<and> t_sibling n = sib (nodes s) p \<and> t_child n = chi (nodes s) p \<and>
    t_rightmostChild n = rig (nodes s) p"
  by (simp add: par_def sib_def chi_def rig_def)

text \<open>Following siblings from \<open>p\<close> visits \<open>xs\<close>.\<close>

fun path :: "(ptr \<Rightarrow> ptr) \<Rightarrow> ptr \<Rightarrow> ptr list \<Rightarrow> bool" where
  "path sb p [] = (p = NULL)"
| "path sb p (x # xs) = (p = x \<and> x \<noteq> NULL \<and> path sb (sb x) xs)"

lemma path_upd: "c \<notin> set xs \<Longrightarrow> path (sb(c := v)) p xs = path sb p xs"
  by (induction xs arbitrary: p) auto

lemma path_cong: "(\<And>x. x \<in> set xs \<Longrightarrow> sb x = sb' x) \<Longrightarrow> path sb p xs = path sb' p xs"
  by (induction xs arbitrary: p) auto

lemma path_Nil: "path sb p xs \<Longrightarrow> p = NULL \<longleftrightarrow> xs = []"
  by (cases xs) auto

lemma path_not_NULL: "path sb p xs \<Longrightarrow> NULL \<notin> set xs"
  by (induction xs arbitrary: p) auto

text \<open>A sublist of siblings ends where the next one begins.\<close>

lemma path_append: "path sb p (xs @ y # ys) \<longleftrightarrow> path (if xs = [] then sb else sb(last xs := NULL)) (if xs = [] then NULL else p) xs \<and>
    (if xs = [] then p = y else sb (last xs) = y) \<and> y \<noteq> NULL \<and> path sb (sb y) ys" if "distinct (xs @ y # ys)"
  using that
proof (induction xs arbitrary: p)
  case (Cons x xs)
  show ?case
  proof (cases "xs = []")
    case False
    then have "x \<noteq> last xs" using Cons.prems by auto
    then show ?thesis using Cons False by auto
  qed auto
qed auto

text \<open>
  A forest on the addresses \<open>D\<close> with the lists \<open>K\<close> of children: parents and children agree, the rightmost child is the
  last one, and no node is its own ancestor.
\<close>

definition ancestors :: "(ptr \<Rightarrow> ptr) \<Rightarrow> (ptr \<times> ptr) set" where
  "ancestors pa = {(c, p). pa c = p \<and> p \<noteq> NULL}"

definition forest :: "ptr set \<Rightarrow> (ptr \<Rightarrow> ptr) \<Rightarrow> (ptr \<Rightarrow> ptr) \<Rightarrow> (ptr \<Rightarrow> ptr) \<Rightarrow> (ptr \<Rightarrow> ptr) \<Rightarrow> (ptr \<Rightarrow> ptr list) \<Rightarrow> bool" where
  "forest D pa sb ch ri K \<longleftrightarrow> finite D \<and> NULL \<notin> D \<and> (\<forall>p. p \<notin> D \<longrightarrow> pa p = NULL) \<and> acyclic (ancestors pa) \<and>
    (\<forall>p \<in> D. path sb (ch p) (K p) \<and> distinct (K p) \<and> set (K p) \<subseteq> D \<and> (\<forall>c \<in> set (K p). pa c = p) \<and>
       ri p = (if K p = [] then NULL else last (K p))) \<and>
    (\<forall>c \<in> D. if pa c = NULL then sb c = NULL else pa c \<in> D \<and> c \<in> set (K (pa c)))"

abbreviation tree_inv :: "tree_store \<Rightarrow> (ptr \<Rightarrow> ptr list) \<Rightarrow> bool" where
  "tree_inv s K \<equiv> forest (dom (nodes s)) (par (nodes s)) (sib (nodes s)) (chi (nodes s)) (rig (nodes s)) K"

lemma forestD:
  assumes "forest D pa sb ch ri K"
  shows "finite D" "NULL \<notin> D" "p \<notin> D \<Longrightarrow> pa p = NULL" "acyclic (ancestors pa)"
    "p \<in> D \<Longrightarrow> path sb (ch p) (K p)" "p \<in> D \<Longrightarrow> distinct (K p)" "p \<in> D \<Longrightarrow> c \<in> set (K p) \<Longrightarrow> c \<in> D \<and> pa c = p"
    "p \<in> D \<Longrightarrow> ri p = (if K p = [] then NULL else last (K p))"
    "c \<in> D \<Longrightarrow> pa c = NULL \<Longrightarrow> sb c = NULL" "pa c \<noteq> NULL \<Longrightarrow> c \<in> D \<and> pa c \<in> D \<and> c \<in> set (K (pa c))"
  using assms unfolding forest_def by (auto split: if_splits)

lemma forestI:
  assumes "finite D" "NULL \<notin> D" "\<And>p. p \<notin> D \<Longrightarrow> pa p = NULL" "acyclic (ancestors pa)"
    "\<And>p. p \<in> D \<Longrightarrow> path sb (ch p) (K p)" "\<And>p. p \<in> D \<Longrightarrow> distinct (K p)"
    "\<And>p c. p \<in> D \<Longrightarrow> c \<in> set (K p) \<Longrightarrow> c \<in> D \<and> pa c = p"
    "\<And>p. p \<in> D \<Longrightarrow> ri p = (if K p = [] then NULL else last (K p))"
    "\<And>c. c \<in> D \<Longrightarrow> pa c = NULL \<Longrightarrow> sb c = NULL" "\<And>c. c \<in> D \<Longrightarrow> pa c \<noteq> NULL \<Longrightarrow> pa c \<in> D \<and> c \<in> set (K (pa c))"
  shows "forest D pa sb ch ri K"
  using assms unfolding forest_def by (simp add: subset_iff)

lemma ancestors_upd: "pa c = NULL \<Longrightarrow> t \<noteq> NULL \<Longrightarrow> ancestors (pa(c := t)) = insert (c, t) (ancestors pa)"
  by (auto simp: ancestors_def)

lemma ancestors_sub: "(\<And>x. pa' x = pa x \<or> pa' x = NULL) \<Longrightarrow> ancestors pa' \<subseteq> ancestors pa"
  by (force simp: ancestors_def)

text \<open>Giving a root a parent that is not below it.\<close>

lemma acyclic_link:
  assumes "acyclic (ancestors pa)" "pa c = NULL" "t \<noteq> NULL" "(t, c) \<notin> (ancestors pa)\<^sup>*"
  shows "acyclic (ancestors (pa(c := t)))"
  using assms by (simp add: ancestors_upd acyclic_insert)

lemma root_not_child: "forest D pa sb ch ri K \<Longrightarrow> pa c = NULL \<Longrightarrow> p \<in> D \<Longrightarrow> c \<notin> set (K p)"
  using forestD(2,7)[of D pa sb ch ri K] by metis

lemma forest_prepend:
  assumes "forest D pa sb ch ri K" "t \<in> D" "c \<in> D" "pa c = NULL" "(t, c) \<notin> (ancestors pa)\<^sup>*"
  shows "forest D (pa(c := t)) (sb(c := ch t)) (ch(t := c)) (if ch t = NULL then ri(t := c) else ri) (K(t := c # K t))"
proof -
  note F = forestD[OF assms(1)]
  have t: "t \<noteq> NULL" "c \<noteq> NULL" using F(2) assms(2,3) by auto
  have c: "c \<notin> set (K p)" if "p \<in> D" for p by (rule root_not_child[OF assms(1,4) that])
  show ?thesis
  proof (rule forestI)
    show "acyclic (ancestors (pa(c := t)))" by (rule acyclic_link[OF F(4) assms(4) t(1) assms(5)])
    show "path (sb(c := ch t)) ((ch(t := c)) p) ((K(t := c # K t)) p)" if "p \<in> D" for p
      using F(5)[OF that] c[OF that] t by (auto simp: path_upd)
    show "(if ch t = NULL then ri(t := c) else ri) p = (if (K(t := c # K t)) p = [] then NULL else last ((K(t := c # K t)) p))" if "p \<in> D" for p
      using F(8)[OF that] F(8)[OF assms(2)] path_Nil[OF F(5)[OF assms(2)]] by auto
    show "x \<in> D \<and> (pa(c := t)) x = p" if "p \<in> D" "x \<in> set ((K(t := c # K t)) p)" for p x
      using F(7)[OF that(1), of x] that c assms(3) by (auto split: if_splits)
    show "(sb(c := ch t)) x = NULL" if "x \<in> D" "(pa(c := t)) x = NULL" for x using F(9) that t by (auto split: if_splits)
    show "(pa(c := t)) x \<in> D \<and> x \<in> set ((K(t := c # K t)) ((pa(c := t)) x))" if "(pa(c := t)) x \<noteq> NULL" for x
      using F(10)[of x] that assms(2) by (auto split: if_splits)
  qed (use F(1-3,6) assms(3) c in auto)
qed

lemma path_snoc:
  "path sb p xs \<Longrightarrow> xs \<noteq> [] \<Longrightarrow> distinct xs \<Longrightarrow> c \<notin> set xs \<Longrightarrow> c \<noteq> NULL \<Longrightarrow> path (sb(last xs := c, c := NULL)) p (xs @ [c])"
proof (induction xs arbitrary: p)
  case (Cons x xs)
  then show ?case by (cases "xs = []") auto
qed simp

lemma forest_append:
  assumes "forest D pa sb ch ri K" "t \<in> D" "c \<in> D" "pa c = NULL" "(t, c) \<notin> (ancestors pa)\<^sup>*"
  shows "forest D (pa(c := t)) (if ch t = NULL then sb(c := NULL) else sb(c := NULL, ri t := c))
    (if ch t = NULL then ch(t := c) else ch) (ri(t := c)) (K(t := K t @ [c]))"
proof -
  note F = forestD[OF assms(1)]
  have t: "t \<noteq> NULL" "c \<noteq> NULL" using F(2) assms(2,3) by auto
  have c: "c \<notin> set (K p)" if "p \<in> D" for p by (rule root_not_child[OF assms(1,4) that])
  have nil: "ch t = NULL \<longleftrightarrow> K t = []" by (rule path_Nil[OF F(5)[OF assms(2)]])
  have ri: "ri t = last (K t)" "ri t \<noteq> c" "ri t \<in> set (K t)" if "K t \<noteq> []" using F(8)[OF assms(2)] that c[OF assms(2)] by auto
  show ?thesis
  proof (rule forestI)
    show "acyclic (ancestors (pa(c := t)))" by (rule acyclic_link[OF F(4) assms(4) t(1) assms(5)])
    show "path (if ch t = NULL then sb(c := NULL) else sb(c := NULL, ri t := c)) ((if ch t = NULL then ch(t := c) else ch) p) ((K(t := K t @ [c])) p)"
      if p: "p \<in> D" for p
    proof (cases "p = t")
      case True
      then show ?thesis
        using nil t path_snoc[OF F(5)[OF assms(2)] _ F(6)[OF assms(2)] c[OF assms(2)] t(2)] ri by (auto simp: fun_upd_twist)
    next
      case False
      have "ri t \<notin> set (K p)" if "K t \<noteq> []" using F(7)[OF p, of "ri t"] F(7)[OF assms(2) ri(3)[OF that]] False by auto
      then show ?thesis using F(5)[OF p] c[OF p] nil False by (auto simp: path_upd)
    qed
    show "x \<in> D \<and> (pa(c := t)) x = p" if "p \<in> D" "x \<in> set ((K(t := K t @ [c])) p)" for p x
      using F(7)[OF that(1), of x] that c assms(3) by (auto split: if_splits)
    show "(if ch t = NULL then sb(c := NULL) else sb(c := NULL, ri t := c)) x = NULL" if "x \<in> D" "(pa(c := t)) x = NULL" for x
      using F(9)[of x] that t nil F(7)[OF assms(2) ri(3)] by (auto split: if_splits)
    show "(pa(c := t)) x \<in> D \<and> x \<in> set ((K(t := K t @ [c])) ((pa(c := t)) x))" if "(pa(c := t)) x \<noteq> NULL" for x
      using F(10)[of x] that assms(2) by (auto split: if_splits)
  qed (use F(1-3,6,8) assms(3) c in auto)
qed


lemma path_insert:
  "path sb q (us @ t # vs) \<Longrightarrow> distinct (us @ t # vs) \<Longrightarrow> c \<notin> set (us @ t # vs) \<Longrightarrow> c \<noteq> NULL \<Longrightarrow>
    path (sb(c := sb t, t := c)) q (us @ t # c # vs)"
  by (induction us arbitrary: q) (auto simp: path_upd)

lemma path_remove:
  "path sb q (us @ t # vs) \<Longrightarrow> distinct (us @ t # vs) \<Longrightarrow>
    (if us = [] then path (sb(t := NULL)) (sb t) vs else path (sb(last us := sb t, t := NULL)) q (us @ vs))"
proof (induction us arbitrary: q)
  case (Cons u us)
  show ?case
  proof (cases "us = []")
    case True
    then show ?thesis using Cons.prems by (auto simp: path_upd)
  next
    case False
    then have "last us \<noteq> u" "t \<noteq> u" using Cons.prems(2) by auto
    then show ?thesis using Cons False by auto
  qed
qed (simp add: path_upd)

lemma path_next: "path sb q (us @ t # vs) \<Longrightarrow> sb t = NULL \<longleftrightarrow> vs = []"
  by (induction us arbitrary: q) (auto dest: path_Nil)

lemma path_first: "path sb q (us @ t # vs) \<Longrightarrow> distinct (us @ t # vs) \<Longrightarrow> q = t \<longleftrightarrow> us = []"
  by (cases us) auto

lemma forest_insert:
  assumes "forest D pa sb ch ri K" "pa t = p" "p \<noteq> NULL" "c \<in> D" "pa c = NULL" "(p, c) \<notin> (ancestors pa)\<^sup>*" "K p = us @ t # vs"
  shows "forest D (pa(c := p)) (sb(c := sb t, t := c)) ch (if ri p = t then ri(p := c) else ri) (K(p := us @ t # c # vs))"
proof -
  note F = forestD[OF assms(1)]
  have p: "p \<in> D" "t \<in> D" using F(10)[of t] assms(2,3) by auto
  have c: "c \<notin> set (K q)" if "q \<in> D" for q by (rule root_not_child[OF assms(1,5) that])
  have cn: "c \<noteq> NULL" "c \<noteq> t" using F(2) assms by auto
  have d: "distinct (us @ t # vs)" and pp: "path sb (ch p) (us @ t # vs)" using F(5,6)[OF p(1)] assms(7) by simp_all
  show ?thesis
  proof (rule forestI)
    show "acyclic (ancestors (pa(c := p)))" by (rule acyclic_link[OF F(4) assms(5,3,6)])
    show "path (sb(c := sb t, t := c)) (ch q) ((K(p := us @ t # c # vs)) q)" if q: "q \<in> D" for q
    proof (cases "q = p")
      case True
      then show ?thesis using path_insert[OF pp d] c[OF p(1)] assms(7) cn by simp
    next
      case False
      then have "t \<notin> set (K q)" using F(7)[OF q, of t] assms(2) by auto
      then show ?thesis using F(5)[OF q] c[OF q] False by (simp add: path_upd)
    qed
    show "distinct ((K(p := us @ t # c # vs)) q)" if "q \<in> D" for q using F(6)[OF that] d c[OF p(1)] assms(7) by auto
    show "x \<in> D \<and> (pa(c := p)) x = q" if "q \<in> D" "x \<in> set ((K(p := us @ t # c # vs)) q)" for q x
      using F(7)[OF that(1), of x] that c[OF that(1)] assms(4,7) by (auto split: if_splits)
    show "(if ri p = t then ri(p := c) else ri) q = (if (K(p := us @ t # c # vs)) q = [] then NULL else last ((K(p := us @ t # c # vs)) q))" if "q \<in> D" for q
      using F(8)[OF that] F(8)[OF p(1)] assms(7) d by auto
    show "(sb(c := sb t, t := c)) x = NULL" if "x \<in> D" "(pa(c := p)) x = NULL" for x
      using F(9)[of x] that assms(2,3) by (auto split: if_splits)
    show "(pa(c := p)) x \<in> D \<and> x \<in> set ((K(p := us @ t # c # vs)) ((pa(c := p)) x))" if "(pa(c := p)) x \<noteq> NULL" for x
      using F(10)[of x] that p assms(7) by (auto split: if_splits)
  qed (use F(1-3) assms(4) in auto)
qed

lemma forest_remove:
  assumes "forest D pa sb ch ri K" "pa t = p" "p \<noteq> NULL" "K p = us @ t # vs"
  shows "forest D (pa(t := NULL)) (if us = [] then sb(t := NULL) else sb(last us := sb t, t := NULL)) (if us = [] then ch(p := sb t) else ch)
    (if vs = [] then ri(p := if us = [] then NULL else last us) else ri) (K(p := us @ vs))"
proof -
  note F = forestD[OF assms(1)]
  have p: "p \<in> D" "t \<in> D" using F(10)[of t] assms(2,3) by auto
  have d: "distinct (us @ t # vs)" and pp: "path sb (ch p) (us @ t # vs)" using F(5,6)[OF p(1)] assms(4) by simp_all
  have own: "x \<notin> set (K q)" if "q \<in> D" "q \<noteq> p" "x \<in> set (K p)" for q x using F(7)[OF that(1)] F(7)[OF p(1) that(3)] that(2) by auto
  show ?thesis
  proof (rule forestI)
    show "acyclic (ancestors (pa(t := NULL)))" by (rule acyclic_subset[OF F(4)]) (auto intro!: ancestors_sub)
    show "path (if us = [] then sb(t := NULL) else sb(last us := sb t, t := NULL)) ((if us = [] then ch(p := sb t) else ch) q) ((K(p := us @ vs)) q)" if q: "q \<in> D" for q
    proof (cases "q = p")
      case True
      then show ?thesis using path_remove[OF pp d] by auto
    next
      case False
      have "t \<notin> set (K q)" "us \<noteq> [] \<Longrightarrow> last us \<notin> set (K q)" using own[OF q False] assms(4) by auto
      then show ?thesis using F(5)[OF q] False by (auto simp: path_upd)
    qed
    show "distinct ((K(p := us @ vs)) q)" if "q \<in> D" for q using F(6)[OF that] d by auto
    show "x \<in> D \<and> (pa(t := NULL)) x = q" if "q \<in> D" "x \<in> set ((K(p := us @ vs)) q)" for q x
      using F(7)[OF that(1), of x] that own[OF that(1), of t] assms(4) d by (auto split: if_splits)
    show "(if vs = [] then ri(p := if us = [] then NULL else last us) else ri) q = (if (K(p := us @ vs)) q = [] then NULL else last ((K(p := us @ vs)) q))" if "q \<in> D" for q
      using F(8)[OF that] assms(4) by auto
    show "(if us = [] then sb(t := NULL) else sb(last us := sb t, t := NULL)) x = NULL" if "x \<in> D" "(pa(t := NULL)) x = NULL" for x
      using F(9)[of x] that F(7)[OF p(1), of "last us"] assms(2-4) by (auto split: if_splits)
    show "(pa(t := NULL)) x \<in> D \<and> x \<in> set ((K(p := us @ vs)) ((pa(t := NULL)) x))" if "(pa(t := NULL)) x \<noteq> NULL" for x
      using F(10)[of x] that assms(4) by (auto split: if_splits)
  qed (use F(1-3) in auto)
qed

lemma forest_remove_all:
  assumes "forest D pa sb ch ri K" "t \<in> D"
  shows "forest D (\<lambda>x. if x \<in> set (K t) then NULL else pa x) (\<lambda>x. if x \<in> set (K t) then NULL else sb x) (ch(t := NULL)) (ri(t := NULL)) (K(t := []))"
proof -
  note F = forestD[OF assms(1)]
  have own: "x \<notin> set (K q)" if "q \<in> D" "q \<noteq> t" "x \<in> set (K t)" for q x using F(7)[OF that(1)] F(7)[OF assms(2) that(3)] that(2) by auto
  show ?thesis
  proof (rule forestI)
    show "acyclic (ancestors (\<lambda>x. if x \<in> set (K t) then NULL else pa x))"
      by (rule acyclic_subset[OF F(4)]) (auto intro!: ancestors_sub)
    show "path (\<lambda>x. if x \<in> set (K t) then NULL else sb x) ((ch(t := NULL)) q) ((K(t := [])) q)" if q: "q \<in> D" for q
    proof (cases "q = t")
      case False
      have "path (\<lambda>x. if x \<in> set (K t) then NULL else sb x) (ch q) (K q) = path sb (ch q) (K q)"
        by (rule path_cong) (use own[OF q False] in auto)
      then show ?thesis using F(5)[OF q] False by simp
    qed simp
    show "x \<in> D \<and> (if x \<in> set (K t) then NULL else pa x) = q" if "q \<in> D" "x \<in> set ((K(t := [])) q)" for q x
      using F(7)[OF that(1), of x] that own[OF that(1), of x] by (auto split: if_splits)
    show "(if x \<in> set (K t) then NULL else pa x) \<in> D \<and> x \<in> set ((K(t := [])) (if x \<in> set (K t) then NULL else pa x))"
      if "(if x \<in> set (K t) then NULL else pa x) \<noteq> NULL" for x
      using F(10)[of x] that by (auto split: if_splits)
  qed (use F(1-3,6,8,9) in auto)
qed

lemma forest_reorder:
  assumes "forest D pa sb ch ri K" "t \<in> D" "ys \<noteq> []" "distinct ys" "set ys = set (K t)"
    "path sb' (hd ys) ys" "\<And>x. x \<notin> set ys \<Longrightarrow> sb' x = sb x"
  shows "forest D pa sb' (ch(t := hd ys)) (ri(t := last ys)) (K(t := ys))"
proof -
  note F = forestD[OF assms(1)]
  show ?thesis
  proof (rule forestI)
    show "path sb' ((ch(t := hd ys)) q) ((K(t := ys)) q)" if q: "q \<in> D" for q
    proof (cases "q = t")
      case False
      then have "x \<notin> set ys" if "x \<in> set (K q)" for x using F(7)[OF q that] F(7)[OF assms(2), of x] assms(5) by auto
      then show ?thesis using F(5)[OF q] False assms(7) path_cong[of "K q" sb' sb "ch q"] by auto
    qed (use assms(6) in simp)
    show "x \<in> D \<and> pa x = q" if "q \<in> D" "x \<in> set ((K(t := ys)) q)" for q x
      using F(7)[OF that(1), of x] that assms(5) by (auto split: if_splits)
    show "sb' x = NULL" if x: "x \<in> D" "pa x = NULL" for x
    proof -
      have "x \<notin> set ys" using root_not_child[OF assms(1) x(2) assms(2)] assms(5) by simp
      then show ?thesis using F(9)[OF x] assms(7) by simp
    qed
    show "pa x \<in> D \<and> x \<in> set ((K(t := ys)) (pa x))" if "pa x \<noteq> NULL" for x using F(10)[of x] that assms(5) by auto
  qed (use F(1-4,6,8) assms(3,4) in auto)
qed


section \<open>Linking keeps the forest\<close>

lemma event_simps [simp]: "nodes (event e s) = nodes s" "events (event e s) = events s @ [e]"
  by (simp_all add: event_def)

lemma assign_Some: "nodes s p = Some n \<Longrightarrow> assign p f s = Some (s\<lparr>nodes := (nodes s)(p \<mapsto> f n)\<rparr>)"
  by (simp add: assign_def)

text \<open>A store with the same addresses as \<open>s\<close>, the given links and further events.\<close>

definition links :: "tree_store \<Rightarrow> tree_event list \<Rightarrow> (ptr \<Rightarrow> ptr) \<Rightarrow> (ptr \<Rightarrow> ptr) \<Rightarrow> (ptr \<Rightarrow> ptr) \<Rightarrow> (ptr \<Rightarrow> ptr) \<Rightarrow> tree_store \<Rightarrow> bool" where
  "links s es pa sb ch ri s' \<longleftrightarrow> dom (nodes s') = dom (nodes s) \<and> events s' = events s @ es \<and>
     par (nodes s') = pa \<and> sib (nodes s') = sb \<and> chi (nodes s') = ch \<and> rig (nodes s') = ri"

lemma links_inv:
  "links s es pa sb ch ri s' \<Longrightarrow> forest (dom (nodes s)) pa sb ch ri K \<Longrightarrow> tree_inv s' K \<and> events s' = events s @ es \<and> dom (nodes s') = dom (nodes s)"
  by (simp add: links_def)

lemma Prepend_links:
  assumes "nodes s t = Some tn" "nodes s c = Some cn" "t \<noteq> c"
  shows "\<exists>s'. CFTreePrependChild t c s = Some s' \<and> links s [CFRetain c] ((par (nodes s))(c := t)) ((sib (nodes s))(c := chi (nodes s) t))
    ((chi (nodes s))(t := c)) (if chi (nodes s) t = NULL then (rig (nodes s))(t := c) else rig (nodes s)) s'"
  using assms view_node[OF assms(1)] view_node[OF assms(2)]
  by (cases "chi (nodes s) t = NULL") (auto simp: CFTreePrependChild_def assign_def Let_def fun_eq_iff links_def)

lemma Append_links:
  assumes "nodes s t = Some tn" "nodes s c = Some cn" "t \<noteq> c" "par (nodes s) c = NULL"
    "chi (nodes s) t \<noteq> NULL \<Longrightarrow> nodes s (rig (nodes s) t) = Some rn" "rig (nodes s) t \<noteq> c" "rig (nodes s) t \<noteq> t"
  shows "\<exists>s'. CFTreeAppendChild t c s = Some s' \<and> links s [CFRetain c] ((par (nodes s))(c := t))
    (if chi (nodes s) t = NULL then (sib (nodes s))(c := NULL) else (sib (nodes s))(c := NULL, rig (nodes s) t := c))
    (if chi (nodes s) t = NULL then (chi (nodes s))(t := c) else chi (nodes s)) ((rig (nodes s))(t := c)) s'"
proof (cases "chi (nodes s) t = NULL")
  case True
  then show ?thesis using assms view_node[OF assms(1)] view_node[OF assms(2)]
    by (auto simp: CFTreeAppendChild_def assign_def Let_def fun_eq_iff links_def)
next
  case False
  then show ?thesis using assms view_node[OF assms(1)] view_node[OF assms(2)] view_node[OF assms(5)[OF False]]
    by (auto simp: CFTreeAppendChild_def assign_def Let_def fun_eq_iff links_def)
qed

lemma Insert_links:
  assumes "nodes s t = Some tn" "nodes s c = Some cn" "t \<noteq> c" "par (nodes s) t = p" "p \<noteq> NULL" "nodes s p = Some pn" "p \<noteq> t" "p \<noteq> c"
  shows "\<exists>s'. CFTreeInsertSibling t c s = Some s' \<and> links s [CFRetain c] ((par (nodes s))(c := p))
    ((sib (nodes s))(c := sib (nodes s) t, t := c)) (chi (nodes s)) (if rig (nodes s) p = t then (rig (nodes s))(p := c) else rig (nodes s)) s'"
  using assms view_node[OF assms(1)] view_node[OF assms(2)] view_node[OF assms(6)]
  by (cases "rig (nodes s) p = t") (auto simp: CFTreeInsertSibling_def assign_def Let_def fun_eq_iff links_def)

lemma previous_sibling_ok:
  assumes "path (sib (nodes s)) q (us @ t # vs)" "us \<noteq> []" "distinct (us @ t # vs)" "set us \<subseteq> dom (nodes s)"
  shows "previous_sibling s t q = Some (last us)"
  using assms
proof (induction us arbitrary: q)
  case (Cons u us)
  obtain n where n: "nodes s u = Some n" using Cons.prems(4) by auto
  have q: "q = u" "u \<noteq> NULL" "path (sib (nodes s)) (sib (nodes s) u) (us @ t # vs)" using Cons.prems(1) by auto
  show ?case
  proof (cases "us = []")
    case True
    then show ?thesis using q n view_node[OF n] by (subst previous_sibling.simps) auto
  next
    case False
    then obtain w ws where us: "us = w # ws" by (cases us) auto
    then have "sib (nodes s) u = w" "w \<noteq> t" using q(3) Cons.prems(3) by auto
    then show ?thesis using q n view_node[OF n] Cons.IH[OF q(3) False] Cons.prems False by (subst previous_sibling.simps) auto
  qed
qed simp

lemma Remove_links:
  assumes "nodes s t = Some tn" "par (nodes s) t = p" "p \<noteq> NULL" "nodes s p = Some pn" "p \<noteq> t" "us \<noteq> [] \<Longrightarrow> last us \<noteq> t" "us \<noteq> [] \<Longrightarrow> nodes s (last us) = Some un"
    "us \<noteq> [] \<Longrightarrow> p \<noteq> last us" "chi (nodes s) p = t \<longleftrightarrow> us = []" "us \<noteq> [] \<Longrightarrow> previous_sibling s t (chi (nodes s) p) = Some (last us)" "us \<noteq> [] \<Longrightarrow> last us \<noteq> NULL"
    "sib (nodes s) t = NULL \<longleftrightarrow> vs = []" "rig (nodes s) p = t \<longleftrightarrow> vs = []"
  shows "\<exists>s'. CFTreeRemove t s = Some s' \<and> links s [CFRelease t] ((par (nodes s))(t := NULL))
    (if us = [] then (sib (nodes s))(t := NULL) else (sib (nodes s))(last us := sib (nodes s) t, t := NULL))
    (if us = [] then (chi (nodes s))(p := sib (nodes s) t) else chi (nodes s))
    (if vs = [] then (rig (nodes s))(p := if us = [] then NULL else last us) else rig (nodes s)) s'"
proof (cases "us = []")
  case True
  then show ?thesis using assms view_node[OF assms(1)] view_node[OF assms(4)]
    by (cases "vs = []") (auto simp: CFTreeRemove_def assign_def Let_def fun_eq_iff links_def)
next
  case False
  then show ?thesis using assms view_node[OF assms(1)] view_node[OF assms(4)] view_node[OF assms(7)[OF False]]
    by (cases "vs = []") (auto simp: CFTreeRemove_def assign_def Let_def fun_eq_iff links_def)
qed


lemma release_children_ok:
  "path (sib (nodes s)) q xs \<Longrightarrow> distinct xs \<Longrightarrow> set xs \<subseteq> dom (nodes s) \<Longrightarrow>
    \<exists>s'. release_children q s = Some s' \<and> links s (map CFRelease xs) (\<lambda>x. if x \<in> set xs then NULL else par (nodes s) x)
      (\<lambda>x. if x \<in> set xs then NULL else sib (nodes s) x) (chi (nodes s)) (rig (nodes s)) s'"
proof (induction xs arbitrary: q s)
  case Nil
  then show ?case by (subst release_children.simps) (simp add: links_def)
next
  case (Cons x xs)
  obtain n where n: "nodes s x = Some n" using Cons.prems(3) by auto
  note v = view_node[OF n]
  let ?s = "event (CFRelease x) (s\<lparr>nodes := (nodes s)(x \<mapsto> n\<lparr>t_parent := NULL, t_sibling := NULL\<rparr>)\<rparr>)"
  have step: "release_children q s = release_children (sib (nodes s) x) ?s"
    using Cons.prems(1) n v by (subst release_children.simps) (simp add: assign_def)
  have p: "path (sib (nodes ?s)) (sib (nodes s) x) xs" "distinct xs" "set xs \<subseteq> dom (nodes ?s)"
    using Cons.prems by (auto simp: path_upd)
  obtain s' where "release_children (sib (nodes s) x) ?s = Some s'"
    "links ?s (map CFRelease xs) (\<lambda>y. if y \<in> set xs then NULL else par (nodes ?s) y)
      (\<lambda>y. if y \<in> set xs then NULL else sib (nodes ?s) y) (chi (nodes ?s)) (rig (nodes ?s)) s'"
    using Cons.IH[OF p] by blast
  then show ?case using step n v by (auto simp: links_def fun_eq_iff)
qed

lemma RemoveAll_links:
  assumes "nodes s t = Some tn" "path (sib (nodes s)) (chi (nodes s) t) xs" "distinct xs" "set xs \<subseteq> dom (nodes s)"
  shows "\<exists>s'. CFTreeRemoveAllChildren t s = Some s' \<and> links s (map CFRelease xs) (\<lambda>x. if x \<in> set xs then NULL else par (nodes s) x)
      (\<lambda>x. if x \<in> set xs then NULL else sib (nodes s) x) ((chi (nodes s))(t := NULL)) ((rig (nodes s))(t := NULL)) s'"
proof -
  note v = view_node[OF assms(1)]
  let ?s = "s\<lparr>nodes := (nodes s)(t \<mapsto> tn\<lparr>t_child := NULL, t_rightmostChild := NULL\<rparr>)\<rparr>"
  have p: "path (sib (nodes ?s)) (chi (nodes s) t) xs" "set xs \<subseteq> dom (nodes ?s)" using assms(2,4) v by auto
  obtain s' where s': "release_children (chi (nodes s) t) ?s = Some s'"
    "links ?s (map CFRelease xs) (\<lambda>y. if y \<in> set xs then NULL else par (nodes ?s) y)
      (\<lambda>y. if y \<in> set xs then NULL else sib (nodes ?s) y) (chi (nodes ?s)) (rig (nodes ?s)) s'"
    using release_children_ok[OF p(1) assms(3) p(2)] by blast
  moreover have "CFTreeRemoveAllChildren t s = release_children (chi (nodes s) t) ?s"
    using assms(1) v by (simp add: CFTreeRemoveAllChildren_def assign_def Let_def)
  ultimately show ?thesis using assms(1) v by (auto simp: links_def fun_eq_iff)
qed

section \<open>Traversals\<close>

lemma sint_small: "n < 2 ^ 31 \<Longrightarrow> sint (of_nat n :: 32 word) = int n"
  by (subst signed_of_nat) (simp add: signed_take_bit_int_eq_self)

lemma path_nth: "path sb q xs \<Longrightarrow> i < length xs \<Longrightarrow> sb (xs ! i) = (if Suc i < length xs then xs ! Suc i else NULL)"
proof (induction xs arbitrary: q i)
  case (Cons x xs)
  then show ?case by (cases i; cases xs) auto
qed simp

lemma path_hd: "path sb q xs \<Longrightarrow> q = (if xs = [] then NULL else hd xs)"
  by (cases xs) auto

lemma count_siblings_ok:
  "path (sib (nodes s)) q xs \<Longrightarrow> set xs \<subseteq> dom (nodes s) \<Longrightarrow> count_siblings s q cnt = Some (sint (cnt + of_nat (length xs)))"
proof (induction xs arbitrary: q cnt)
  case (Cons x xs)
  obtain n where n: "nodes s x = Some n" using Cons.prems(2) by auto
  then show ?case using Cons view_node[OF n] by (subst count_siblings.simps) (auto simp: add_ac)
qed (subst count_siblings.simps, simp)

lemma sibling_at_ok:
  "path (sib (nodes s)) q xs \<Longrightarrow> set xs \<subseteq> dom (nodes s) \<Longrightarrow>
    sibling_at s q idx = Some (if 0 \<le> idx \<and> nat idx < length xs then xs ! nat idx else NULL)"
proof (induction xs arbitrary: q idx)
  case (Cons x xs)
  obtain n where n: "nodes s x = Some n" using Cons.prems(2) by auto
  show ?case
  proof (cases "idx = 0")
    case True
    then show ?thesis using Cons.prems by (subst sibling_at.simps) auto
  next
    case False
    have "sibling_at s q idx = sibling_at s (sib (nodes s) x) (idx - 1)"
      using Cons.prems(1) n view_node[OF n] False by (subst sibling_at.simps) auto
    also have "\<dots> = Some (if 0 \<le> idx - 1 \<and> nat (idx - 1) < length xs then xs ! nat (idx - 1) else NULL)"
      using Cons by auto
    finally show ?thesis using False by (auto simp: nth_Cons' nat_diff_distrib)
  qed
qed (subst sibling_at.simps, simp)

lemma copy_siblings_ok:
  "path (sib (nodes s)) q xs \<Longrightarrow> set xs \<subseteq> dom (nodes s) \<Longrightarrow> i + length xs \<le> length buf \<Longrightarrow> copy_siblings s q buf i = Some (put buf i xs)"
proof (induction xs arbitrary: q buf i)
  case (Cons x xs)
  obtain n where n: "nodes s x = Some n" using Cons.prems(2) by auto
  then show ?case using Cons view_node[OF n] put_Cons[of i xs buf x]
    by (subst copy_siblings.simps) (auto simp: store_def)
qed (subst copy_siblings.simps, simp)

primrec run_applier :: "(ptr \<Rightarrow> tree_store \<Rightarrow> tree_store option) \<Rightarrow> ptr list \<Rightarrow> tree_store \<Rightarrow> tree_store option" where
  "run_applier applier [] s = Some s"
| "run_applier applier (x # xs) s = do { s \<leftarrow> applier x s; run_applier applier xs s }"

lemma apply_siblings_ok:
  assumes "\<And>x s s'. applier x s = Some s' \<Longrightarrow> dom (nodes s') = dom (nodes s) \<and> sib (nodes s') = sib (nodes s)"
  shows "path (sib (nodes s)) q xs \<Longrightarrow> set xs \<subseteq> dom (nodes s) \<Longrightarrow> apply_siblings applier s q = run_applier applier xs s"
proof (induction xs arbitrary: q s)
  case (Cons x xs)
  show ?case
  proof (cases "applier x s")
    case None
    then show ?thesis using Cons.prems by (subst apply_siblings.simps) auto
  next
    case (Some s1)
    note keep = assms[OF Some]
    obtain n where n: "nodes s1 x = Some n" using Cons.prems(2) keep by auto
    then have "t_sibling n = sib (nodes s) x" using view_node[OF n] keep by simp
    then show ?thesis using Cons.IH[of s1 "sib (nodes s) x"] Cons.prems Some n keep by (subst apply_siblings.simps) auto
  qed
qed (subst apply_siblings.simps, simp)

lemma FindRoot_ok:
  assumes "tree_inv s K" "t \<in> dom (nodes s)"
  shows "\<exists>r. CFTreeFindRoot s t = Some r \<and> r \<in> dom (nodes s) \<and> par (nodes s) r = NULL \<and> (t, r) \<in> (ancestors (par (nodes s)))\<^sup>*"
proof -
  note F = forestD[OF assms(1)]
  let ?A = "ancestors (par (nodes s))"
  have "?A \<subseteq> dom (nodes s) \<times> dom (nodes s)" using F(10) by (auto simp: ancestors_def)
  then have "finite ?A" using F(1) finite_subset by blast
  then have "wf (?A\<inverse>)" using F(4) by (rule finite_acyclic_wf_converse)
  then show ?thesis using assms(2)
  proof (induction t)
    case (less t)
    then obtain n where n: "nodes s t = Some n" by auto
    show ?case
    proof (cases "par (nodes s) t = NULL")
      case True
      then show ?thesis using n view_node[OF n] less.prems by (subst CFTreeFindRoot.simps) auto
    next
      case False
      then have e: "(t, par (nodes s) t) \<in> ?A" "par (nodes s) t \<in> dom (nodes s)" using F(10)[of t] by (auto simp: ancestors_def)
      then obtain r where "CFTreeFindRoot s (par (nodes s) t) = Some r" "r \<in> dom (nodes s)" "par (nodes s) r = NULL" "(par (nodes s) t, r) \<in> ?A\<^sup>*"
        using less.IH[of "par (nodes s) t"] by auto
      then show ?thesis using n view_node[OF n] False e(1) by (subst CFTreeFindRoot.simps) (auto intro: converse_rtrancl_into_rtrancl)
    qed
  qed
qed


section \<open>Sorting children\<close>

fun chain :: "(ptr \<Rightarrow> ptr) \<Rightarrow> ptr list \<Rightarrow> (ptr \<Rightarrow> ptr)" where
  "chain sb (x # y # ys) = chain (sb(x := y)) (y # ys)"
| "chain sb xs = sb"

lemma chain_outside: "z \<notin> set xs \<Longrightarrow> chain sb xs z = sb z"
  by (induction sb xs rule: chain.induct) auto

lemma chain_head: "x \<notin> set xs \<Longrightarrow> xs \<noteq> [] \<Longrightarrow> chain sb (x # xs) x = hd xs"
  by (cases xs) (auto simp: chain_outside)

lemma chain_path: "distinct xs \<Longrightarrow> xs \<noteq> [] \<Longrightarrow> NULL \<notin> set xs \<Longrightarrow> path ((chain sb xs)(last xs := NULL)) (hd xs) xs"
proof (induction sb xs rule: chain.induct)
  case (1 sb x y ys)
  define F where "F = (chain (sb(x := y)) (y # ys))(last (y # ys) := NULL)"
  have "path F (hd (y # ys)) (y # ys)" unfolding F_def by (rule 1(1)) (use 1 in auto)
  moreover have "x \<noteq> last (y # ys)" using 1(2) by (metis distinct.simps(2) last_in_set list.distinct(1))
  then have "F x = y" using 1(2) unfolding F_def by (simp add: chain_outside)
  moreover have "(chain sb (x # y # ys))(last (x # y # ys) := NULL) = F" unfolding F_def by simp
  ultimately show ?case using 1(4) by (simp only: path.simps list.sel) auto
qed auto

lemma relink_ok:
  "xs = us @ x # ys \<Longrightarrow> set xs \<subseteq> dom (nodes s) \<Longrightarrow> \<exists>s'. relink xs (Suc (length us)) (length ys) s = Some s' \<and>
    links s [] (par (nodes s)) (chain (sib (nodes s)) (x # ys)) (chi (nodes s)) (rig (nodes s)) s'"
proof (induction ys arbitrary: us x s)
  case (Cons y ys)
  obtain n where n: "nodes s x = Some n" using Cons.prems by auto
  note v = view_node[OF n]
  let ?s = "s\<lparr>nodes := (nodes s)(x \<mapsto> n\<lparr>t_sibling := y\<rparr>)\<rparr>"
  have step: "relink xs (Suc (length us)) (length (y # ys)) s = relink xs (Suc (length (us @ [x]))) (length ys) ?s"
    using Cons.prems(1) n by (simp add: load_def assign_def nth_append)
  have p: "xs = (us @ [x]) @ y # ys" "set xs \<subseteq> dom (nodes ?s)" using Cons.prems by auto
  obtain s' where "relink xs (Suc (length (us @ [x]))) (length ys) ?s = Some s'"
    "links ?s [] (par (nodes ?s)) (chain (sib (nodes ?s)) (y # ys)) (chi (nodes ?s)) (rig (nodes ?s)) s'"
    using Cons.IH[OF p] by blast
  then show ?case using step n v by (auto simp: links_def)
qed (simp add: links_def)

lemma SortChildren_links:
  assumes "nodes s t = Some tn" "path (sib (nodes s)) (chi (nodes s) t) xs" "distinct xs" "set xs \<subseteq> dom (nodes s)" "length xs < 2 ^ 31"
    "total_preorder (cmp_le cmp)" "valid_schedule schedule"
  shows "\<exists>s' ys. CFTreeSortChildren t cmp schedule cores junk s = Some s' \<and> stable_sort_of (cmp_le cmp) xs ys \<and>
    (if length xs < 2 then s' = s else \<exists>sb. path sb (hd ys) ys \<and> (\<forall>x. x \<notin> set ys \<longrightarrow> sb x = sib (nodes s) x) \<and>
      links s [] (par (nodes s)) sb ((chi (nodes s))(t := hd ys)) ((rig (nodes s))(t := last ys)) s')"
proof (cases "length xs < 2")
  case True
  have "CFTreeGetChildCount t s = Some (int (length xs))"
    using count_siblings_ok[OF assms(2,4), of 0] assms(1) view_node[OF assms(1)] True
    by (cases xs) (auto simp: CFTreeGetChildCount_def)
  then show ?thesis using True stable_sort_small[of xs "cmp_le cmp"] by (auto simp: CFTreeSortChildren_def)
next
  case False
  note v = view_node[OF assms(1)]
  note sint = sint_small[OF assms(5)]
  have cnt: "CFTreeGetChildCount t s = Some (int (length xs))"
    using count_siblings_ok[OF assms(2,4), of 0] assms(1) v sint by (simp add: CFTreeGetChildCount_def)
  have "put (replicate (length xs) NULL) 0 xs = xs" by (simp add: put_def)
  then have copy: "copy_siblings s (chi (nodes s) t) (replicate (length xs) NULL) 0 = Some xs"
    using copy_siblings_ok[OF assms(2,4), of 0 "replicate (length xs) NULL"] by simp
  have small: "length xs \<le> INTPTR_MAX div 8" using assms(5) by (simp add: INTPTR_MAX_def)
  obtain ys where ys: "CFQSortArray cmp schedule cores junk xs (length xs) 8 = Some ys" "stable_sort_of (cmp_le cmp) xs ys"
    using CFQSortArray_ok[OF assms(6,7) small, of 8] by auto
  have perm: "length ys = length xs" "set ys = set xs" "distinct ys"
    using ys(2) assms(3) unfolding stable_sort_of_def stable_perm_def
    by (metis size_mset, metis mset_eq_setD, metis mset_eq_imp_distinct_iff)
  obtain y zs where y: "ys = y # zs" using perm(1) False by (cases ys) auto
  let ?s = "s\<lparr>nodes := (nodes s)(t \<mapsto> tn\<lparr>t_child := y\<rparr>)\<rparr>"
  have sub: "set ys \<subseteq> dom (nodes ?s)" using assms(4) perm(2) by auto
  obtain s1 where s1: "relink ys (Suc 0) (length zs) ?s = Some s1"
    "links ?s [] (par (nodes ?s)) (chain (sib (nodes ?s)) ys) (chi (nodes ?s)) (rig (nodes ?s)) s1"
    using relink_ok[OF _ sub, of "[]" y zs] y by auto
  have s1v: "dom (nodes s1) = dom (nodes s)" "events s1 = events s" "par (nodes s1) = par (nodes s)"
    "sib (nodes s1) = chain (sib (nodes s)) ys" "chi (nodes s1) = (chi (nodes s))(t := y)" "rig (nodes s1) = rig (nodes s)"
    using s1(2) assms(1) v unfolding links_def by (auto simp: fun_eq_iff)
  have "last ys \<in> dom (nodes s1)" using y s1v(1) perm(2) assms(4) last_in_set[of ys] by auto
  then obtain ln where ln: "nodes s1 (last ys) = Some ln" by auto
  let ?s2 = "s1\<lparr>nodes := (nodes s1)(last ys \<mapsto> ln\<lparr>t_sibling := NULL\<rparr>)\<rparr>"
  obtain tn2 where tn2: "nodes ?s2 t = Some tn2" using s1v(1) assms(1) ln by (cases "t = last ys") auto
  let ?s3 = "?s2\<lparr>nodes := (nodes ?s2)(t \<mapsto> tn2\<lparr>t_rightmostChild := last ys\<rparr>)\<rparr>"
  have run: "CFTreeSortChildren t cmp schedule cores junk s = Some ?s3"
  proof -
    have l: "load ys 0 = Some y" "load ys (length xs - 1) = Some (last ys)" "length xs - 1 = length zs"
      unfolding perm(1)[symmetric] y by (auto simp: load_def last_conv_nth nth_Cons')
    have a: "assign t (\<lambda>n. n\<lparr>t_child := y\<rparr>) s = Some ?s" "assign (last ys) (\<lambda>n. n\<lparr>t_sibling := NULL\<rparr>) s1 = Some ?s2"
      "assign t (\<lambda>n. n\<lparr>t_rightmostChild := last ys\<rparr>) ?s2 = Some ?s3"
      by (simp_all only: assign_Some[OF assms(1)] assign_Some[OF ln] assign_Some[OF tn2])
    have "relink ys 1 (length xs - 1) ?s = Some s1" using s1(1) l(3) by simp
    moreover have "1 < int (length xs)" using False by simp
    ultimately show ?thesis using cnt copy ys(1) assms(1) v a l(1,2)
      by (simp only: CFTreeSortChildren_def bind.bind_lunit nat_int if_True)
  qed
  have "NULL \<notin> set ys" using path_not_NULL[OF assms(2)] perm(2) by simp
  then have "path ((chain (sib (nodes s)) ys)(last ys := NULL)) (hd ys) ys" using chain_path[OF perm(3)] y by simp
  moreover have "links s [] (par (nodes s)) ((chain (sib (nodes s)) ys)(last ys := NULL)) ((chi (nodes s))(t := hd ys)) ((rig (nodes s))(t := last ys)) ?s3"
    using s1v view_node[OF ln] view_node[OF tn2] y ln assms(1) by (auto simp: links_def fun_eq_iff)
  moreover have "((chain (sib (nodes s)) ys)(last ys := NULL)) x = sib (nodes s) x" if "x \<notin> set ys" for x
    using that y last_in_set[of ys] by (auto simp: chain_outside)
  ultimately show ?thesis using run ys(2) False by (metis (no_types, lifting))
qed


section \<open>The properties\<close>

lemma FindRoot_root:
  assumes "tree_inv s K" "(t, c) \<in> (ancestors (par (nodes s)))\<^sup>*" "c \<in> dom (nodes s)" "par (nodes s) c = NULL"
  shows "CFTreeFindRoot s t = Some c"
  using assms(2)
proof (induction rule: converse_rtrancl_induct)
  case base
  obtain n where "nodes s c = Some n" using assms(3) by auto
  then show ?case using view_node[of s c n] assms(4) by (subst CFTreeFindRoot.simps) simp
next
  case (step y z)
  then have "par (nodes s) y = z" "z \<noteq> NULL" by (auto simp: ancestors_def)
  moreover then obtain n where "nodes s y = Some n" using forestD(10)[OF assms(1), of y] by auto
  ultimately show ?case using view_node[of s y n] step.IH by (subst CFTreeFindRoot.simps) simp
qed

lemma child_split:
  assumes "tree_inv s K" "par (nodes s) t = p" "p \<noteq> NULL"
  obtains us vs where "K p = us @ t # vs" "distinct (us @ t # vs)" "set (us @ t # vs) \<subseteq> dom (nodes s)"
    "path (sib (nodes s)) (chi (nodes s) p) (us @ t # vs)" "p \<in> dom (nodes s)" "p \<notin> set (us @ t # vs)"
proof -
  note F = forestD[OF assms(1)]
  have p: "p \<in> dom (nodes s)" "t \<in> set (K p)" using F(10)[of t] assms(2,3) by auto
  obtain us vs where K: "K p = us @ t # vs" using p(2) by (meson split_list)
  have "p \<notin> set (K p)"
  proof
    assume "p \<in> set (K p)"
    then have "(p, p) \<in> ancestors (par (nodes s))" using F(7)[OF p(1)] assms(3) by (auto simp: ancestors_def)
    then show False using F(4) by (auto simp: acyclic_def)
  qed
  then show ?thesis using that[of us vs] F(5,6,7)[OF p(1)] K p(1) by auto
qed

lemma rightmost_child:
  assumes "tree_inv s K" "t \<in> dom (nodes s)" "K t \<noteq> []"
  shows "rig (nodes s) t = last (K t)" "rig (nodes s) t \<in> set (K t)" "rig (nodes s) t \<in> dom (nodes s)" "par (nodes s) (rig (nodes s) t) = t"
  using forestD(7,8)[OF assms(1,2)] assms(3) by auto

lemma not_below:
  assumes "tree_inv s K" "c \<in> dom (nodes s)" "par (nodes s) c = NULL" "CFTreeFindRoot s t \<noteq> Some c"
  shows "(t, c) \<notin> (ancestors (par (nodes s)))\<^sup>*"
  using FindRoot_root[OF assms(1) _ assms(2,3)] assms(4) by blast

lemma Prepend_refines:
  assumes "tree_inv s K" "t \<in> dom (nodes s)" "c \<in> dom (nodes s)" "par (nodes s) c = NULL" "CFTreeFindRoot s t \<noteq> Some c"
  shows "\<exists>s'. CFTreePrependChild t c s = Some s' \<and> tree_inv s' (K(t := c # K t)) \<and> events s' = events s @ [CFRetain c]"
proof -
  obtain tn cn where n: "nodes s t = Some tn" "nodes s c = Some cn" using assms(2,3) by auto
  have anc: "(t, c) \<notin> (ancestors (par (nodes s)))\<^sup>*" by (rule not_below[OF assms(1,3-5)])
  then have "t \<noteq> c" by auto
  then show ?thesis using Prepend_links[OF n] links_inv[OF _ forest_prepend[OF assms(1-4) anc]] by blast
qed

lemma Append_refines:
  assumes "tree_inv s K" "t \<in> dom (nodes s)" "c \<in> dom (nodes s)" "par (nodes s) c = NULL" "CFTreeFindRoot s t \<noteq> Some c"
  shows "\<exists>s'. CFTreeAppendChild t c s = Some s' \<and> tree_inv s' (K(t := K t @ [c])) \<and> events s' = events s @ [CFRetain c]"
proof -
  note F = forestD[OF assms(1)]
  obtain tn cn where n: "nodes s t = Some tn" "nodes s c = Some cn" using assms(2,3) by auto
  have anc: "(t, c) \<notin> (ancestors (par (nodes s)))\<^sup>*" by (rule not_below[OF assms(1,3-5)])
  then have tc: "t \<noteq> c" by auto
  have tn0: "t \<noteq> NULL" "c \<noteq> NULL" using F(2) assms(2,3) by auto
  have nil: "chi (nodes s) t = NULL \<longleftrightarrow> K t = []" by (rule path_Nil[OF F(5)[OF assms(2)]])
  obtain rn where rn: "chi (nodes s) t \<noteq> NULL \<Longrightarrow> nodes s (rig (nodes s) t) = Some rn"
    using rightmost_child(3)[OF assms(1,2)] nil by (cases "K t = []") auto
  have r: "rig (nodes s) t \<noteq> c" "rig (nodes s) t \<noteq> t"
    using rightmost_child[OF assms(1,2)] F(8)[OF assms(2)] tn0 assms(4) child_split[OF assms(1), of "rig (nodes s) t" t] 
    by (cases "K t = []"; force)+
  show ?thesis using Append_links[OF n tc assms(4) rn r] links_inv[OF _ forest_append[OF assms(1-4) anc]] by blast
qed

lemma Insert_refines:
  assumes "tree_inv s K" "c \<in> dom (nodes s)" "par (nodes s) c = NULL" "CFTreeFindRoot s t \<noteq> Some c" "par (nodes s) t = p" "p \<noteq> NULL"
  shows "\<exists>s' us vs. K p = us @ t # vs \<and> CFTreeInsertSibling t c s = Some s' \<and>
      tree_inv s' (K(p := us @ t # c # vs)) \<and> events s' = events s @ [CFRetain c]"
proof -
  obtain us vs where K: "K p = us @ t # vs" "set (us @ t # vs) \<subseteq> dom (nodes s)" "p \<in> dom (nodes s)" "p \<notin> set (us @ t # vs)"
    by (rule child_split[OF assms(1,5,6)])
  obtain tn cn pn where n: "nodes s t = Some tn" "nodes s c = Some cn" "nodes s p = Some pn" using assms(2) K(2,3) by auto
  have "(t, c) \<notin> (ancestors (par (nodes s)))\<^sup>*" by (rule not_below[OF assms(1-4)])
  moreover have "(t, p) \<in> ancestors (par (nodes s))" using assms(5,6) by (simp add: ancestors_def)
  ultimately have anc: "(p, c) \<notin> (ancestors (par (nodes s)))\<^sup>*" "t \<noteq> c" by (auto dest: converse_rtrancl_into_rtrancl)
  then have "p \<noteq> c" "p \<noteq> t" using K(4) by auto
  then show ?thesis using Insert_links[OF n(1,2) anc(2) assms(5,6) n(3)] links_inv[OF _ forest_insert[OF assms(1,5,6,2,3) anc(1) K(1)]] K(1) by blast
qed

lemma Remove_refines:
  assumes "tree_inv s K" "par (nodes s) t = p" "p \<noteq> NULL"
  shows "\<exists>s'. CFTreeRemove t s = Some s' \<and> tree_inv s' (K(p := remove1 t (K p))) \<and> events s' = events s @ [CFRelease t]"
proof -
  obtain us vs where K: "K p = us @ t # vs" "distinct (us @ t # vs)" "set (us @ t # vs) \<subseteq> dom (nodes s)"
    "path (sib (nodes s)) (chi (nodes s) p) (us @ t # vs)" "p \<in> dom (nodes s)" "p \<notin> set (us @ t # vs)"
    by (rule child_split[OF assms])
  obtain tn pn where n: "nodes s t = Some tn" "nodes s p = Some pn" using K(3,5) by auto
  obtain un where un: "us \<noteq> [] \<Longrightarrow> nodes s (last us) = Some un"
    using K(3) last_in_set[of us] by (cases "us = []") (auto simp del: last_in_set)
  have nn: "us \<noteq> [] \<Longrightarrow> last us \<noteq> NULL" using path_not_NULL[OF K(4)] last_in_set[of us] by (auto simp del: last_in_set)
  have ne: "p \<noteq> t" "us \<noteq> [] \<Longrightarrow> last us \<noteq> t" "us \<noteq> [] \<Longrightarrow> p \<noteq> last us" using K(2,6) by auto
  have first: "chi (nodes s) p = t \<longleftrightarrow> us = []" by (rule path_first[OF K(4,2)])
  have prev: "us \<noteq> [] \<Longrightarrow> previous_sibling s t (chi (nodes s) p) = Some (last us)" using previous_sibling_ok[OF K(4) _ K(2)] K(3) by auto
  have nxt: "sib (nodes s) t = NULL \<longleftrightarrow> vs = []" by (rule path_next[OF K(4)])
  have rig: "rig (nodes s) p = t \<longleftrightarrow> vs = []" using forestD(8)[OF assms(1) K(5)] K(1,2) by auto
  have eq: "remove1 t (K p) = us @ vs" using K(1,2) by (simp add: remove1_append)
  show ?thesis using Remove_links[OF n(1) assms(2,3) n(2) ne(1,2) un ne(3) first prev nn nxt rig]
    links_inv[OF _ forest_remove[OF assms K(1)]] unfolding eq by blast
qed

lemma RemoveAll_refines:
  assumes "tree_inv s K" "t \<in> dom (nodes s)"
  shows "\<exists>s'. CFTreeRemoveAllChildren t s = Some s' \<and> tree_inv s' (K(t := [])) \<and> events s' = events s @ map CFRelease (K t) \<and>
    dom (nodes s') = dom (nodes s)"
proof -
  note F = forestD(5-7)[OF assms]
  obtain tn where tn: "nodes s t = Some tn" using assms(2) by auto
  have sub: "set (K t) \<subseteq> dom (nodes s)" using F(3) by auto
  show ?thesis using RemoveAll_links[OF tn F(1,2) sub] links_inv[OF _ forest_remove_all[OF assms]] by blast
qed

lemma SortChildren_refines:
  assumes "tree_inv s K" "t \<in> dom (nodes s)" "length (K t) < 2 ^ 31" "total_preorder (cmp_le cmp)" "valid_schedule schedule"
  shows "\<exists>s' ys. CFTreeSortChildren t cmp schedule cores junk s = Some s' \<and> stable_sort_of (cmp_le cmp) (K t) ys \<and>
    tree_inv s' (K(t := ys)) \<and> events s' = events s"
proof -
  note F = forestD(5-7)[OF assms(1,2)]
  obtain tn where tn: "nodes s t = Some tn" using assms(2) by auto
  have sub: "set (K t) \<subseteq> dom (nodes s)" using F(3) by auto
  obtain s' ys where s': "CFTreeSortChildren t cmp schedule cores junk s = Some s'" "stable_sort_of (cmp_le cmp) (K t) ys"
    "if length (K t) < 2 then s' = s else \<exists>sb. path sb (hd ys) ys \<and> (\<forall>x. x \<notin> set ys \<longrightarrow> sb x = sib (nodes s) x) \<and>
      links s [] (par (nodes s)) sb ((chi (nodes s))(t := hd ys)) ((rig (nodes s))(t := last ys)) s'"
    using SortChildren_links[OF tn F(1,2) sub assms(3-5)] by blast
  have m: "mset ys = mset (K t)" using s'(2) by (simp add: stable_sort_of_def stable_perm_def)
  show ?thesis
  proof (cases "length (K t) < 2")
    case True
    then have "ys = K t" using m by (cases "K t"; cases "tl (K t)") auto
    then show ?thesis using s' True assms(1) by auto
  next
    case False
    then have "ys \<noteq> []" "distinct ys" "set ys = set (K t)"
      using m F(2) by (metis list.size(3) mset_zero_iff_right zero_less_numeral, metis mset_eq_imp_distinct_iff, metis mset_eq_setD)
    then have re: "path sb (hd ys) ys \<Longrightarrow> (\<And>x. x \<notin> set ys \<Longrightarrow> sb x = sib (nodes s) x) \<Longrightarrow> 
        forest (dom (nodes s)) (par (nodes s)) sb ((chi (nodes s))(t := hd ys)) ((rig (nodes s))(t := last ys)) (K(t := ys))" for sb
      by (rule forest_reorder[OF assms(1,2)])
    obtain sb where "path sb (hd ys) ys" "\<And>x. x \<notin> set ys \<Longrightarrow> sb x = sib (nodes s) x"
      "links s [] (par (nodes s)) sb ((chi (nodes s))(t := hd ys)) ((rig (nodes s))(t := last ys)) s'"
      using s'(3) False by (auto simp: if_not_P)
    then show ?thesis using s'(1,2) links_inv[OF _ re] by (metis append_Nil2)
  qed
qed

text \<open>A tree with two children and a second root, to run the operations on.\<close>

definition link_node :: "ptr \<Rightarrow> ptr \<Rightarrow> ptr \<Rightarrow> ptr \<Rightarrow> CFTree" where
  "link_node p sb c r = \<lparr>t_parent = p, t_sibling = sb, t_child = c, t_rightmostChild = r, t_info = NULL,
     t_callbacks_type = HasNullCallBacks, t_callbacks = kCFNullTreeCallBacks\<rparr>"

lemma link_node_sel [simp]:
  "t_parent (link_node p sb c r) = p" "t_sibling (link_node p sb c r) = sb" "t_child (link_node p sb c r) = c"
  "t_rightmostChild (link_node p sb c r) = r"
  by (simp_all add: link_node_def)

definition family :: tree_store where
  "family = \<lparr>nodes = [1 \<mapsto> link_node NULL NULL 2 3, 2 \<mapsto> link_node 1 3 NULL NULL, 3 \<mapsto> link_node 1 NULL NULL NULL,
     4 \<mapsto> link_node NULL NULL NULL NULL], events = []\<rparr>"

definition family_children :: "ptr \<Rightarrow> ptr list" where
  "family_children p = (if p = 1 then [2, 3] else [])"

lemma view_empty [simp]: "par Map.empty = (\<lambda>_. NULL)" "sib Map.empty = (\<lambda>_. NULL)" "chi Map.empty = (\<lambda>_. NULL)" "rig Map.empty = (\<lambda>_. NULL)"
  by (auto simp: par_def sib_def chi_def rig_def)

lemma acyclic_rank:
  assumes "\<And>c. pa c \<noteq> NULL \<Longrightarrow> f c < (f (pa c) :: nat)"
  shows "acyclic (ancestors pa)"
proof -
  have "ancestors pa \<subseteq> inv_image less_than f" using assms by (auto simp: ancestors_def)
  then have "wf (ancestors pa)" using wf_subset wf_inv_image wf_less_than by blast
  then show ?thesis by (rule wf_acyclic)
qed

lemma family_inv: "tree_inv family family_children"
proof (rule forestI)
  show "acyclic (ancestors (par (nodes family)))"
    by (rule acyclic_rank[where f = "\<lambda>p. if p = 1 then 1 else 0"]) (auto simp: family_def split: if_splits)
qed (auto simp: family_def family_children_def split: if_splits)

lemma family_dom [simp]: "1 \<in> dom (nodes family)" "2 \<in> dom (nodes family)" "3 \<in> dom (nodes family)" "4 \<in> dom (nodes family)"
  by (simp_all add: family_def)

lemma family_par [simp]: "par (nodes family) 1 = NULL" "par (nodes family) 2 = 1" "par (nodes family) 3 = 1" "par (nodes family) 4 = NULL"
  by (simp_all add: family_def)

lemma family_roots: "CFTreeFindRoot family 1 = Some 1" "CFTreeFindRoot family 2 = Some 1"
proof -
  show r: "CFTreeFindRoot family 1 = Some 1" by (subst CFTreeFindRoot.simps) (simp add: family_def)
  show "CFTreeFindRoot family 2 = Some 1"
    using r by (subst CFTreeFindRoot.simps) (simp add: family_def)
qed

text \<open>C23: \<open>CFTreePrependChild\<close>, \<open>CFTreeAppendChild\<close> and \<open>CFTreeInsertSibling\<close> put a root that is not the root of the tree it
  joins first, last or right after its new sibling in the list of children, keep the forest, and retain the new child once.\<close>

theorem Tree_insertion_refines:
  assumes "tree_inv s K" "t \<in> dom (nodes s)" "c \<in> dom (nodes s)" "par (nodes s) c = NULL" "CFTreeFindRoot s t \<noteq> Some c"
  shows "(\<exists>s'. CFTreePrependChild t c s = Some s' \<and> tree_inv s' (K(t := c # K t)) \<and> events s' = events s @ [CFRetain c]) \<and>
    (\<exists>s'. CFTreeAppendChild t c s = Some s' \<and> tree_inv s' (K(t := K t @ [c])) \<and> events s' = events s @ [CFRetain c]) \<and>
    (\<forall>p. par (nodes s) t = p \<and> p \<noteq> NULL \<longrightarrow> (\<exists>s' us vs. K p = us @ t # vs \<and> CFTreeInsertSibling t c s = Some s' \<and>
      tree_inv s' (K(p := us @ t # c # vs)) \<and> events s' = events s @ [CFRetain c]))"
  using Prepend_refines[OF assms] Append_refines[OF assms] Insert_refines[OF assms(1,3,4,5)] by blast

theorem Tree_insertion_refines_witness:
  "(\<exists>s'. CFTreeAppendChild 2 4 family = Some s' \<and> tree_inv s' (family_children(2 := [4])) \<and> events s' = [CFRetain 4]) \<and>
   (\<exists>s'. CFTreeInsertSibling 2 4 family = Some s' \<and> tree_inv s' (family_children(1 := [2, 4, 3])) \<and> events s' = [CFRetain 4])"
proof -
  have "CFTreeFindRoot family 2 \<noteq> Some 4" by (simp add: family_roots)
  note T = Tree_insertion_refines[OF family_inv family_dom(2,4) family_par(4) this]
  have e: "events family = []" "family_children 2 = []" "family_children 1 = [2, 3]" by (simp_all add: family_def family_children_def)
  have "us = [] \<and> vs = [3]" if "[2, 3] = us @ 2 # vs" for us vs :: "ptr list" using that by (auto simp: Cons_eq_append_conv)
  moreover obtain s' us vs where "family_children 1 = us @ 2 # vs" "CFTreeInsertSibling 2 4 family = Some s'"
    "tree_inv s' (family_children(1 := us @ 2 # 4 # vs))" "events s' = events family @ [CFRetain 4]"
    using T by auto
  ultimately show ?thesis using T e by (metis append_Nil)
qed

text \<open>C24: \<open>CFTreeRemove\<close> takes a node out of its parent's list of children and makes it a root, \<open>CFTreeRemoveAllChildren\<close>
  empties the list, and both keep the forest and release each removed child once; a root is left as it is. Deallocating a
  node also calls the release callback on its info, after its children are released.\<close>

theorem Tree_removal_refines:
  assumes "tree_inv s K" "t \<in> dom (nodes s)"
  shows "(\<forall>p. par (nodes s) t = p \<and> p \<noteq> NULL \<longrightarrow>
      (\<exists>s'. CFTreeRemove t s = Some s' \<and> tree_inv s' (K(p := remove1 t (K p))) \<and> events s' = events s @ [CFRelease t])) \<and>
    (par (nodes s) t = NULL \<longrightarrow> CFTreeRemove t s = Some s) \<and>
    (\<exists>s'. CFTreeRemoveAllChildren t s = Some s' \<and> tree_inv s' (K(t := [])) \<and> events s' = events s @ map CFRelease (K t)) \<and>
    (\<exists>s' n cb. CFTreeDeallocate env t s = Some s' \<and> tree_inv s' (K(t := [])) \<and> nodes s' t = Some n \<and> cb = cb_release (CFTreeGetCallBacks env n) \<and>
      events s' = events s @ map CFRelease (K t) @ (if cb = NULL then [] else [CallRelease cb (t_info n)]))"
proof -
  obtain s' where s': "CFTreeRemoveAllChildren t s = Some s'" "tree_inv s' (K(t := []))" "events s' = events s @ map CFRelease (K t)"
    "dom (nodes s') = dom (nodes s)"
    using RemoveAll_refines[OF assms] by blast
  then obtain n where n: "nodes s' t = Some n" using assms(2) by auto
  let ?cb = "cb_release (CFTreeGetCallBacks env n)"
  let ?s = "if NULL \<noteq> ?cb then event (CallRelease ?cb (t_info n)) s' else s'"
  have "CFTreeDeallocate env t s = Some ?s" using s'(1) n by (simp add: CFTreeDeallocate_def Let_def)
  moreover have "tree_inv ?s (K(t := []))" "nodes ?s t = Some n"
    "events ?s = events s @ map CFRelease (K t) @ (if ?cb = NULL then [] else [CallRelease ?cb (t_info n)])"
    using s' n by auto
  moreover have "par (nodes s) t = NULL \<longrightarrow> CFTreeRemove t s = Some s"
  proof
    assume "par (nodes s) t = NULL"
    moreover obtain tn where tn: "nodes s t = Some tn" using assms(2) by auto
    ultimately show "CFTreeRemove t s = Some s" using view_node[OF tn] by (simp add: CFTreeRemove_def)
  qed
  ultimately show ?thesis using s' Remove_refines[OF assms(1)] by blast
qed

theorem Tree_removal_refines_witness:
  "\<exists>s'. CFTreeRemove 2 family = Some s' \<and> tree_inv s' (family_children(1 := [3])) \<and> events s' = [CFRelease 2]"
  using Tree_removal_refines[OF family_inv family_dom(2)] by (simp add: family_children_def) (simp add: family_def)

text \<open>C25: \<open>CFTreeSortChildren\<close> with a comparator that is a total preorder relinks the children in a stable sorted order,
  whatever order the concurrent parts of the sort run in, and keeps the forest without touching reference counts.\<close>

theorem Tree_SortChildren_refines:
  assumes "tree_inv s K" "t \<in> dom (nodes s)" "length (K t) < 2 ^ 31" "total_preorder (cmp_le cmp)" "valid_schedule schedule"
  shows "\<exists>s' ys. CFTreeSortChildren t cmp schedule cores junk s = Some s' \<and> tree_inv s' (K(t := ys)) \<and> events s' = events s \<and>
    mset ys = mset (K t) \<and> sorted_wrt (cmp_le cmp) ys \<and>
    (\<forall>z. filter (\<lambda>y. cmp_le cmp z y \<and> cmp_le cmp y z) ys = filter (\<lambda>y. cmp_le cmp z y \<and> cmp_le cmp y z) (K t))"
  using SortChildren_refines[OF assms] unfolding stable_sort_of_def stable_perm_def by blast

definition by_address :: "ptr \<Rightarrow> ptr \<Rightarrow> CFComparisonResult" where
  "by_address a b = (if b < a then kCFCompareLessThan else if a = b then kCFCompareEqualTo else kCFCompareGreaterThan)"

lemma by_address_preorder: "total_preorder (cmp_le by_address)"
  by (auto simp: total_preorder_def cmp_le_def by_address_def split: if_splits)

theorem Tree_SortChildren_refines_witness:
  "\<exists>s'. CFTreeSortChildren 1 by_address (\<lambda>n. rev [0..<n]) 4 7 family = Some s' \<and> tree_inv s' (family_children(1 := [3, 2]))"
proof -
  have "length (family_children 1) < 2 ^ 31" by (simp add: family_children_def)
  then obtain s' ys where s': "CFTreeSortChildren 1 by_address (\<lambda>n. rev [0..<n]) 4 7 family = Some s'" "tree_inv s' (family_children(1 := ys))"
    "mset ys = mset (family_children 1)" "sorted_wrt (cmp_le by_address) ys"
    using Tree_SortChildren_refines[OF family_inv family_dom(1) _ by_address_preorder backwards_valid, of 4 7] by blast
  have "length ys = 2" using s'(3) by (metis family_children_def length_Cons list.size(3) numeral_2_eq_2 size_mset)
  then obtain a b where ab: "ys = [a, b]" by (auto simp: length_Suc_conv numeral_2_eq_2)
  then have "ys = [3, 2]" using s'(3,4)
    by (auto simp: family_children_def add_eq_conv_ex cmp_le_def by_address_def split: if_splits)
  then show ?thesis using s'(1,2) by blast
qed

text \<open>C33: On a forest the readers return what the lists of children say: parent, first child, next sibling, number of
  children (as a 32 bit count), the child at any index and \<open>NULL\<close> out of range, all children in order into a buffer that is
  long enough, the root above a node; an applier that leaves the links alone is called on each child in order.\<close>

theorem Tree_traversals_correct:
  assumes "tree_inv s K" "t \<in> dom (nodes s)"
  shows "CFTreeGetParent t s = Some (par (nodes s) t) \<and>
    CFTreeGetFirstChild t s = Some (if K t = [] then NULL else hd (K t)) \<and>
    (\<forall>i < length (K t). CFTreeGetParent (K t ! i) s = Some t \<and>
       CFTreeGetNextSibling (K t ! i) s = Some (if Suc i < length (K t) then K t ! Suc i else NULL)) \<and>
    (length (K t) < 2 ^ 31 \<longrightarrow> CFTreeGetChildCount t s = Some (int (length (K t)))) \<and>
    CFTreeGetChildAtIndex t idx s = Some (if 0 \<le> idx \<and> nat idx < length (K t) then K t ! nat idx else NULL) \<and>
    (length (K t) \<le> length buf \<longrightarrow> CFTreeGetChildren t buf s = Some (K t @ drop (length (K t)) buf)) \<and>
    (\<exists>r \<in> dom (nodes s). CFTreeFindRoot s t = Some r \<and> par (nodes s) r = NULL \<and> (t, r) \<in> (ancestors (par (nodes s)))\<^sup>*) \<and>
    ((\<forall>x s s'. applier x s = Some s' \<longrightarrow> dom (nodes s') = dom (nodes s) \<and> sib (nodes s') = sib (nodes s)) \<longrightarrow>
       CFTreeApplyFunctionToChildren t applier s = run_applier applier (K t) s)"
proof -
  note F = forestD[OF assms(1)]
  obtain tn where tn: "nodes s t = Some tn" using assms(2) by auto
  note v = view_node[OF tn]
  have p: "path (sib (nodes s)) (chi (nodes s) t) (K t)" "set (K t) \<subseteq> dom (nodes s)" using F(5,7)[OF assms(2)] by auto
  have child: "CFTreeGetParent (K t ! i) s = Some t \<and>
      CFTreeGetNextSibling (K t ! i) s = Some (if Suc i < length (K t) then K t ! Suc i else NULL)" if "i < length (K t)" for i
  proof -
    have c: "K t ! i \<in> set (K t)" using that by simp
    then obtain n where n: "nodes s (K t ! i) = Some n" using p(2) by auto
    then show ?thesis using view_node[OF n] F(7)[OF assms(2) c] path_nth[OF p(1) that]
      by (simp add: CFTreeGetParent_def CFTreeGetNextSibling_def)
  qed
  have cnt: "CFTreeGetChildCount t s = Some (int (length (K t)))" if "length (K t) < 2 ^ 31"
    using count_siblings_ok[OF p, of 0] tn v sint_small[OF that] by (simp add: CFTreeGetChildCount_def)
  show ?thesis
    using tn v child cnt FindRoot_ok[OF assms] path_hd[OF p(1)] sibling_at_ok[OF p, of idx] copy_siblings_ok[OF p, of 0 buf]
      apply_siblings_ok[OF _ p, of applier]
    by (auto simp: CFTreeGetParent_def CFTreeGetFirstChild_def CFTreeGetChildAtIndex_def CFTreeGetChildren_def
        CFTreeApplyFunctionToChildren_def put_def)
qed

theorem Tree_traversals_correct_witness:
  "CFTreeGetChildCount 1 family = Some 2 \<and> CFTreeGetChildAtIndex 1 1 family = Some 3 \<and> CFTreeGetChildAtIndex 1 2 family = Some NULL \<and>
   CFTreeGetChildren 1 [7, 8, 9] family = Some [2, 3, 9]"
proof -
  note T = Tree_traversals_correct[OF family_inv family_dom(1)]
  show ?thesis using T[of 1 "[7, 8, 9]" "\<lambda>_ s. Some s"] T[of 2 "[7, 8, 9]" "\<lambda>_ s. Some s"] by (simp add: family_children_def)
qed

text \<open>What setting a context logs and stores.\<close>

definition context_events :: "tree_env \<Rightarrow> CFTreeContext \<Rightarrow> CFTree \<Rightarrow> tree_event list" where
  "context_events env c n =
     (if cb_retain (ctx_callbacks c) = NULL then [] else [CallRetain (cb_retain (ctx_callbacks c)) (ctx_info c)]) @
     (if cb_release (CFTreeGetCallBacks env n) = NULL then [] else [CallRelease (cb_release (CFTreeGetCallBacks env n)) (t_info n)])"

definition context_info :: "tree_env \<Rightarrow> CFTreeContext \<Rightarrow> ptr" where
  "context_info env c = (if cb_retain (ctx_callbacks c) = NULL then ctx_info c else call env (cb_retain (ctx_callbacks c)) (ctx_info c))"

lemma SetContext_ok:
  assumes "nodes s t = Some n"
  shows "\<exists>s'. CFTreeSetContext env t c s = Some s' \<and>
    CFTreeGetContext env t s' = Some \<lparr>ctx_info = context_info env c, ctx_callbacks = ctx_callbacks c\<rparr> \<and>
    links s (context_events env c n) (par (nodes s)) (sib (nodes s)) (chi (nodes s)) (rig (nodes s)) s'"
proof -
  have kind: "\<exists>n1. (if CFTreeCallBacksMatchNull c then assign t (\<lambda>n. n\<lparr>t_callbacks_type := HasNullCallBacks\<rparr>) s
      else if CFTreeCallBacksMatchCFType env c then assign t (\<lambda>n. n\<lparr>t_callbacks_type := HasCFTypeCallBacks\<rparr>) s
      else assign t (\<lambda>n. n\<lparr>t_callbacks := ctx_callbacks c, t_callbacks_type := HasCustomCallBacks\<rparr>) s) =
        Some (s\<lparr>nodes := (nodes s)(t \<mapsto> n1)\<rparr>) \<and> CFTreeGetCallBacks env n1 = ctx_callbacks c \<and> t_parent n1 = t_parent n \<and>
      t_sibling n1 = t_sibling n \<and> t_child n1 = t_child n \<and> t_rightmostChild n1 = t_rightmostChild n"
    using assms by (auto simp: assign_def CFTreeGetCallBacks_def CFTreeCallBacksMatchNull_def CFTreeCallBacksMatchCFType_def)
  then obtain n1 where n1: "(if CFTreeCallBacksMatchNull c then assign t (\<lambda>n. n\<lparr>t_callbacks_type := HasNullCallBacks\<rparr>) s
      else if CFTreeCallBacksMatchCFType env c then assign t (\<lambda>n. n\<lparr>t_callbacks_type := HasCFTypeCallBacks\<rparr>) s
      else assign t (\<lambda>n. n\<lparr>t_callbacks := ctx_callbacks c, t_callbacks_type := HasCustomCallBacks\<rparr>) s) =
        Some (s\<lparr>nodes := (nodes s)(t \<mapsto> n1)\<rparr>)" "CFTreeGetCallBacks env n1 = ctx_callbacks c" "t_parent n1 = t_parent n"
      "t_sibling n1 = t_sibling n" "t_child n1 = t_child n" "t_rightmostChild n1 = t_rightmostChild n"
    by blast
  have info: "CFTreeGetCallBacks env (n1\<lparr>t_info := i\<rparr>) = ctx_callbacks c" for i
    using n1(2) by (cases "t_callbacks_type n1") (simp_all add: CFTreeGetCallBacks_def)
  show ?thesis
    unfolding CFTreeSetContext_def Let_def using assms n1(2-) view_node[OF assms]
    by (simp add: n1(1) assign_def) (auto simp: CFTreeGetContext_def info context_info_def context_events_def links_def fun_eq_iff)
qed

lemma forest_create:
  assumes "forest D pa sb ch ri K" "c \<notin> D" "c \<noteq> NULL"
  shows "forest (insert c D) pa (sb(c := NULL)) (ch(c := NULL)) (ri(c := NULL)) (K(c := []))"
proof -
  note F = forestD[OF assms(1)]
  have c: "pa c = NULL" "\<And>p. p \<in> D \<Longrightarrow> c \<notin> set (K p)" using F(3)[of c] F(7) assms(2) by auto
  show ?thesis
  proof (rule forestI)
    show "path (sb(c := NULL)) ((ch(c := NULL)) p) ((K(c := [])) p)" if "p \<in> insert c D" for p
      using F(5)[of p] c(2)[of p] that by (auto simp: path_upd)
    show "x \<in> insert c D \<and> pa x = p" if "p \<in> insert c D" "x \<in> set ((K(c := [])) p)" for p x
      using F(7)[of p x] that by (auto split: if_splits)
    show "pa x \<in> insert c D \<and> x \<in> set ((K(c := [])) (pa x))" if "pa x \<noteq> NULL" for x using F(10)[of x] that assms(2) by auto
    show "acyclic (ancestors pa)" by (rule F(4))
  qed (use F(1-3,6,8,9) assms c in auto)
qed

text \<open>C37: After \<open>CFTreeSetContext\<close> the node has the callbacks of the context and the info its retain callback returns (the
  info itself without one), its links are untouched, the new info is retained before the old one is released, and
  \<open>CFTreeGetContext\<close> reads all this back. \<open>CFTreeCreate\<close> makes a childless root at a fresh address and fails without memory.\<close>

theorem Tree_context_roundtrip:
  assumes "tree_inv s K" "nodes s t = Some n" "nodes s m = None" "m \<noteq> NULL"
  shows "(\<exists>s'. CFTreeSetContext env t c s = Some s' \<and> tree_inv s' K \<and> events s' = events s @ context_events env c n \<and>
       CFTreeGetContext env t s' = Some \<lparr>ctx_info = context_info env c, ctx_callbacks = ctx_callbacks c\<rparr>) \<and>
    (\<exists>s'. CFTreeCreate env m c s = Some (s', m) \<and> tree_inv s' (K(m := [])) \<and>
       CFTreeGetContext env m s' = Some \<lparr>ctx_info = context_info env c, ctx_callbacks = ctx_callbacks c\<rparr>) \<and>
    CFTreeCreate env NULL c s = Some (s, NULL)"
proof -
  let ?n = "\<lparr>t_parent = NULL, t_sibling = NULL, t_child = NULL, t_rightmostChild = NULL, t_info = NULL,
     t_callbacks_type = HasNullCallBacks, t_callbacks = kCFNullTreeCallBacks\<rparr>"
  let ?s = "s\<lparr>nodes := (nodes s)(m \<mapsto> ?n)\<rparr>"
  have new: "nodes ?s m = Some ?n" by simp
  have "par (nodes s) m = NULL" using assms(3) by (simp add: par_def)
  then have "tree_inv ?s (K(m := []))" using forest_create[OF assms(1) _ assms(4)] assms(3) by (simp add: fun_upd_idem domIff)
  then have "\<exists>s'. CFTreeCreate env m c s = Some (s', m) \<and> tree_inv s' (K(m := [])) \<and>
       CFTreeGetContext env m s' = Some \<lparr>ctx_info = context_info env c, ctx_callbacks = ctx_callbacks c\<rparr>"
    using SetContext_ok[OF new, of env c] links_inv assms(4) unfolding CFTreeCreate_def Let_def by fastforce
  then show ?thesis using SetContext_ok[OF assms(2), of env c] links_inv[OF _ assms(1)] by (simp add: CFTreeCreate_def) blast
qed

definition counting_env :: tree_env where
  "counting_env = \<lparr>cf_type_callbacks = \<lparr>cb_retain = 100, cb_release = 101, cb_copyDescription = 102\<rparr>, call = (\<lambda>f x. x + 1)\<rparr>"

theorem Tree_context_roundtrip_witness:
  "\<exists>s'. CFTreeSetContext counting_env 2 \<lparr>ctx_info = 50, ctx_callbacks = \<lparr>cb_retain = 200, cb_release = 0, cb_copyDescription = 0\<rparr>\<rparr> family = Some s' \<and>
     tree_inv s' family_children \<and> events s' = [CallRetain 200 50] \<and>
     CFTreeGetContext counting_env 2 s' = Some \<lparr>ctx_info = 51, ctx_callbacks = \<lparr>cb_retain = 200, cb_release = 0, cb_copyDescription = 0\<rparr>\<rparr>"
proof -
  let ?c = "\<lparr>ctx_info = 50, ctx_callbacks = \<lparr>cb_retain = 200, cb_release = 0, cb_copyDescription = 0\<rparr>\<rparr>"
  have n: "nodes family 2 = Some (link_node 1 3 NULL NULL)" "nodes family 9 = None" "(9 :: ptr) \<noteq> NULL" by (simp_all add: family_def)
  have e: "context_events counting_env ?c (link_node 1 3 NULL NULL) = [CallRetain 200 50]" "context_info counting_env ?c = 51" "events family = []"
    by (simp_all add: context_events_def context_info_def counting_env_def CFTreeGetCallBacks_def link_node_def kCFNullTreeCallBacks_def family_def)
  show ?thesis using Tree_context_roundtrip[OF family_inv n, of counting_env ?c] unfolding e by simp
qed

end
