(* ===== verification/CF_Array.thy ===== *)
theory CF_Array
  imports CF_Sort
begin

text \<open>
  Arrays (RuntimeLoop/CFArray.c): immutable arrays with their values behind the header, and mutable arrays on a deque,
  a block of buckets with the values somewhere in the middle. Lengths and offsets are integers, an access outside a block
  is \<open>None\<close>, and so are dereferences of \<open>NULL\<close> and shifts out of the range of \<open>int\<close>. New blocks have arbitrary contents;
  allocations of blocks succeed. Arrays are CoreFoundation objects in a process without a garbage collector: the
  dispatch to Objective-C methods is not taken. The theory shows that the operations are list operations.
\<close>

section \<open>Memory\<close>

definition load_at :: "'a list \<Rightarrow> int \<Rightarrow> 'a option" where
  "load_at a i = (if 0 \<le> i then load a (nat i) else None)"

definition store_at :: "'a list \<Rightarrow> int \<Rightarrow> 'a \<Rightarrow> 'a list option" where
  "store_at a i v = (if 0 \<le> i then store a (nat i) v else None)"

definition move :: "'a list \<Rightarrow> int \<Rightarrow> 'a list \<Rightarrow> int \<Rightarrow> int \<Rightarrow> 'a list option" where
  "move dst doff src soff n = (if 0 \<le> doff \<and> 0 \<le> soff \<and> 0 \<le> n then memmove dst (nat doff) src (nat soff) (nat n) else None)"

definition clear :: "ptr list \<Rightarrow> int \<Rightarrow> int \<Rightarrow> ptr list option" where
  "clear a off n = move a off (replicate (nat n) NULL) 0 n"

text \<open>The quotient of C by two.\<close>

definition half :: "int \<Rightarrow> int" where
  "half x = (if 0 \<le> x then x div 2 else - (- x div 2))"

section \<open>Data\<close>

record CFArrayCallBacks =
  ac_retain :: ptr
  ac_release :: ptr
  ac_copyDescription :: ptr
  ac_equal :: ptr

text \<open>What the functions at an address do, the addresses of the CFType callbacks, and the contents of new memory.\<close>

record array_env =
  kCFTypeArrayCallBacks :: CFArrayCallBacks
  retain_at :: "ptr \<Rightarrow> ptr \<Rightarrow> ptr"
  equal_at :: "ptr \<Rightarrow> ptr \<Rightarrow> ptr \<Rightarrow> bool"
  fresh_cell :: "nat \<Rightarrow> ptr"

definition kCFNullArrayCallBacks :: CFArrayCallBacks where
  "kCFNullArrayCallBacks = \<lparr>ac_retain = NULL, ac_release = NULL, ac_copyDescription = NULL, ac_equal = NULL\<rparr>"

definition CFArrayDequeRoundUpCapacity :: "int \<Rightarrow> int option" where
  "CFArrayDequeRoundUpCapacity capacity =
     (if capacity < 4 then Some 4
      else if flsl (nat capacity) < 31 then Some (min (2 ^ flsl (nat capacity)) (2 ^ 63 - 1)) else None)"

record CFArrayDeque =
  dq_leftIdx :: int
  dq_capacity :: int
  dq_buckets :: "ptr list"

datatype CFArrayType = kCFArrayImmutable | kCFArrayDeque

datatype CFArrayCallBacksType = kCFArrayHasNullCallBacks | kCFArrayHasCFTypeCallBacks | kCFArrayHasCustomCallBacks

text \<open>The fields of \<open>struct __CFArray\<close>, the flag bits, what follows the header, and the log of callback calls.\<close>

record CFArray =
  arr_type :: CFArrayType
  arr_callbacks_type :: CFArrayCallBacksType
  arr_callbacks :: CFArrayCallBacks
  arr_inline :: "ptr list"
  arr_count :: int
  arr_mutations :: "64 word"
  arr_mutInProgress :: "32 word"
  arr_store :: "CFArrayDeque option"
  arr_log :: "cb_event list"

definition CFArrayGetSizeOfType :: "CFArrayCallBacksType \<Rightarrow> int" where
  "CFArrayGetSizeOfType t = 48 + (if t = kCFArrayHasCustomCallBacks then 40 else 0)"

definition CFArrayGetBucketsPtr :: "CFArray \<Rightarrow> (ptr list \<times> int) option" where
  "CFArrayGetBucketsPtr array =
     (case arr_type array of
        kCFArrayImmutable \<Rightarrow> Some (arr_inline array, 0)
      | kCFArrayDeque \<Rightarrow> (case arr_store array of None \<Rightarrow> None | Some deque \<Rightarrow> Some (dq_buckets deque, dq_leftIdx deque)))"

text \<open>Reading and writing the bucket at an index.\<close>

definition CFArrayGetBucketAtIndex :: "CFArray \<Rightarrow> int \<Rightarrow> ptr option" where
  "CFArrayGetBucketAtIndex array idx = do { (buckets, off) \<leftarrow> CFArrayGetBucketsPtr array; load_at buckets (off + idx) }"

definition set_buckets :: "CFArray \<Rightarrow> ptr list \<Rightarrow> CFArray" where
  "set_buckets array bs =
     (case arr_type array of
        kCFArrayImmutable \<Rightarrow> array\<lparr>arr_inline := bs\<rparr>
      | kCFArrayDeque \<Rightarrow> array\<lparr>arr_store := map_option (\<lambda>deque. deque\<lparr>dq_buckets := bs\<rparr>) (arr_store array)\<rparr>)"

definition set_item :: "CFArray \<Rightarrow> int \<Rightarrow> ptr \<Rightarrow> CFArray option" where
  "set_item array idx value =
     do { (buckets, off) \<leftarrow> CFArrayGetBucketsPtr array; bs \<leftarrow> store_at buckets (off + idx) value; Some (set_buckets array bs) }"

definition CFArrayGetCallBacks :: "array_env \<Rightarrow> CFArray \<Rightarrow> CFArrayCallBacks" where
  "CFArrayGetCallBacks env array =
     (case arr_callbacks_type array of
        kCFArrayHasNullCallBacks \<Rightarrow> kCFNullArrayCallBacks
      | kCFArrayHasCFTypeCallBacks \<Rightarrow> kCFTypeArrayCallBacks env
      | kCFArrayHasCustomCallBacks \<Rightarrow> arr_callbacks array)"

definition CFArrayCallBacksMatchNull :: "CFArrayCallBacks option \<Rightarrow> bool" where
  "CFArrayCallBacksMatchNull c = (case c of None \<Rightarrow> True | Some c \<Rightarrow> c = kCFNullArrayCallBacks)"

definition CFArrayCallBacksMatchCFType :: "array_env \<Rightarrow> CFArrayCallBacks option \<Rightarrow> bool" where
  "CFArrayCallBacksMatchCFType env c = (c = Some (kCFTypeArrayCallBacks env))"

definition log_event :: "cb_event list \<Rightarrow> CFArray \<Rightarrow> CFArray" where
  "log_event es array = array\<lparr>arr_log := arr_log array @ es\<rparr>"

text \<open>The retain callback as it is applied to a value, when there is one.\<close>

definition retaining :: "array_env \<Rightarrow> CFArray \<Rightarrow> (ptr \<Rightarrow> ptr) option" where
  "retaining env array =
     (if NULL \<noteq> ac_retain (CFArrayGetCallBacks env array) then Some (retain_at env (ac_retain (CFArrayGetCallBacks env array))) else None)"

definition releasing :: "array_env \<Rightarrow> CFArray \<Rightarrow> bool" where
  "releasing env array = (NULL \<noteq> ac_release (CFArrayGetCallBacks env array))"

section \<open>Releasing values\<close>

fun release_buckets :: "bool \<Rightarrow> ptr list \<Rightarrow> int \<Rightarrow> nat \<Rightarrow> (ptr list \<times> cb_event list) option" where
  "release_buckets rel buckets i 0 = Some (buckets, [])"
| "release_buckets rel buckets i (Suc n) =
     do { item \<leftarrow> load_at buckets i;
          buckets \<leftarrow> store_at buckets i NULL;
          (buckets, es) \<leftarrow> release_buckets rel buckets (i + 1) n;
          Some (buckets, (if rel then [Release item] else []) @ es) }"

definition release_range :: "bool \<Rightarrow> CFArray \<Rightarrow> int \<times> int \<Rightarrow> CFArray option" where
  "release_range rel array rng =
     do { (buckets, off) \<leftarrow> CFArrayGetBucketsPtr array;
          (bs, es) \<leftarrow> release_buckets rel buckets (off + fst rng) (nat (snd rng));
          Some (log_event es (set_buckets array bs)) }"

definition CFArrayReleaseValues :: "array_env \<Rightarrow> CFArray \<Rightarrow> int \<times> int \<Rightarrow> bool \<Rightarrow> CFArray option" where
  "CFArrayReleaseValues env array rng releaseStorageIfPossible =
     (case arr_type array of
        kCFArrayImmutable \<Rightarrow>
          (if releasing env array \<and> 0 < snd rng then release_range True array rng else Some array)
      | kCFArrayDeque \<Rightarrow>
          do { array \<leftarrow> (if 0 < snd rng \<and> arr_store array \<noteq> None then release_range (releasing env array) array rng else Some array);
               if releaseStorageIfPossible \<and> 0 = fst rng \<and> arr_count array = snd rng
               then Some (array\<lparr>arr_count := 0, arr_store := None\<rparr>)
               else Some array })"

definition CFArrayDeallocate :: "array_env \<Rightarrow> CFArray \<Rightarrow> CFArray option" where
  "CFArrayDeallocate env array = CFArrayReleaseValues env array (0, arr_count array) True"

section \<open>Creation\<close>

text \<open>
  \<open>memory\<close> tells whether the allocation succeeds, else \<open>NULL\<close> is returned. The size is computed in 32 bits; the values of
  an immutable array have the part of it behind the header.
\<close>

definition inline_cells :: "CFArrayCallBacksType \<Rightarrow> int \<Rightarrow> nat" where
  "inline_cells t capacity = (nat (((CFArrayGetSizeOfType t - 16) + capacity * 8) mod 2 ^ 32) - nat (CFArrayGetSizeOfType t - 16)) div 8"

definition CFArrayInit :: "array_env \<Rightarrow> bool \<Rightarrow> CFArrayType \<Rightarrow> int \<Rightarrow> CFArrayCallBacks option \<Rightarrow> CFArray option" where
  "CFArrayInit env memory flags capacity callBacks =
     (let t = (if CFArrayCallBacksMatchNull callBacks then kCFArrayHasNullCallBacks
               else if CFArrayCallBacksMatchCFType env callBacks then kCFArrayHasCFTypeCallBacks
               else kCFArrayHasCustomCallBacks) in
      if \<not> memory then None
      else Some \<lparr>arr_type = flags, arr_callbacks_type = t,
                 arr_callbacks = (case callBacks of Some c \<Rightarrow> if t = kCFArrayHasCustomCallBacks then c else kCFNullArrayCallBacks
                                                  | None \<Rightarrow> kCFNullArrayCallBacks),
                 arr_inline = (case flags of kCFArrayImmutable \<Rightarrow> map (fresh_cell env) [0..<inline_cells t capacity] | kCFArrayDeque \<Rightarrow> []),
                 arr_count = 0, arr_mutations = (case flags of kCFArrayImmutable \<Rightarrow> 0 | kCFArrayDeque \<Rightarrow> 1),
                 arr_mutInProgress = 0, arr_store = None, arr_log = []\<rparr>)"

text \<open>Copying values in, retained or as they are: the value at each index comes from \<open>get\<close>.\<close>

fun copy_in :: "(ptr \<Rightarrow> ptr) option \<Rightarrow> (int \<Rightarrow> ptr option) \<Rightarrow> int \<Rightarrow> nat \<Rightarrow> ptr list \<Rightarrow> (ptr list \<times> cb_event list) option" where
  "copy_in retain get idx 0 buckets = Some (buckets, [])"
| "copy_in retain get idx (Suc n) buckets =
     do { value \<leftarrow> get idx;
          buckets \<leftarrow> store_at buckets idx (case retain of Some f \<Rightarrow> f value | None \<Rightarrow> value);
          (buckets, es) \<leftarrow> copy_in retain get (idx + 1) n buckets;
          Some (buckets, (case retain of Some f \<Rightarrow> [Retain value] | None \<Rightarrow> []) @ es) }"

definition CFArrayCreateTransfer :: "array_env \<Rightarrow> bool \<Rightarrow> ptr list \<Rightarrow> int \<Rightarrow> CFArray option" where
  "CFArrayCreateTransfer env memory values numValues =
     (if \<not> memory then None
      else do { buckets \<leftarrow> move (map (fresh_cell env) [0..<inline_cells kCFArrayHasCFTypeCallBacks numValues]) 0 values 0 numValues;
                Some \<lparr>arr_type = kCFArrayImmutable, arr_callbacks_type = kCFArrayHasCFTypeCallBacks, arr_callbacks = kCFNullArrayCallBacks,
                      arr_inline = buckets, arr_count = numValues, arr_mutations = 0, arr_mutInProgress = 0, arr_store = None, arr_log = []\<rparr> })"

definition CFArrayCreate0 :: "array_env \<Rightarrow> bool \<Rightarrow> ptr list \<Rightarrow> int \<Rightarrow> CFArrayCallBacks option \<Rightarrow> CFArray option" where
  "CFArrayCreate0 env memory values numValues callBacks =
     do { result \<leftarrow> CFArrayInit env memory kCFArrayImmutable numValues callBacks;
          (bs, es) \<leftarrow> copy_in (retaining env result) (load_at values) 0 (nat numValues) (arr_inline result);
          Some (log_event es (result\<lparr>arr_inline := bs, arr_count := numValues\<rparr>)) }"

definition CFArrayCreateMutable0 :: "array_env \<Rightarrow> bool \<Rightarrow> int \<Rightarrow> CFArrayCallBacks option \<Rightarrow> CFArray option" where
  "CFArrayCreateMutable0 env memory capacity callBacks = CFArrayInit env memory kCFArrayDeque capacity callBacks"

section \<open>Reading\<close>

definition CFArrayGetCount :: "CFArray \<Rightarrow> int" where
  "CFArrayGetCount array = arr_count array"

definition CFArrayGetValueAtIndex :: "CFArray \<Rightarrow> int \<Rightarrow> ptr option" where
  "CFArrayGetValueAtIndex array idx = CFArrayGetBucketAtIndex array idx"

definition CFArrayCheckAndGetValueAtIndex :: "CFArray \<Rightarrow> int \<Rightarrow> ptr option" where
  "CFArrayCheckAndGetValueAtIndex array idx =
     (if 0 \<le> idx \<and> idx < arr_count array then CFArrayGetBucketAtIndex array idx else Some (-1))"

definition same_value :: "array_env \<Rightarrow> CFArray \<Rightarrow> ptr \<Rightarrow> ptr \<Rightarrow> bool" where
  "same_value env array value item =
     (let cb = CFArrayGetCallBacks env array in value = item \<or> NULL \<noteq> ac_equal cb \<and> equal_at env (ac_equal cb) value item)"

fun count_of_value :: "(ptr \<Rightarrow> bool) \<Rightarrow> CFArray \<Rightarrow> int \<Rightarrow> nat \<Rightarrow> int option" where
  "count_of_value same array idx 0 = Some 0"
| "count_of_value same array idx (Suc n) =
     do { item \<leftarrow> CFArrayGetValueAtIndex array idx;
          k \<leftarrow> count_of_value same array (idx + 1) n;
          Some (if same item then k + 1 else k) }"

definition CFArrayGetCountOfValue :: "array_env \<Rightarrow> CFArray \<Rightarrow> int \<times> int \<Rightarrow> ptr \<Rightarrow> int option" where
  "CFArrayGetCountOfValue env array rng value = count_of_value (same_value env array value) array (fst rng) (nat (snd rng))"

fun first_index :: "(ptr \<Rightarrow> bool) \<Rightarrow> CFArray \<Rightarrow> int \<Rightarrow> nat \<Rightarrow> int option" where
  "first_index same array idx 0 = Some (-1)"
| "first_index same array idx (Suc n) =
     do { item \<leftarrow> CFArrayGetValueAtIndex array idx; if same item then Some idx else first_index same array (idx + 1) n }"

definition CFArrayContainsValue :: "array_env \<Rightarrow> CFArray \<Rightarrow> int \<times> int \<Rightarrow> ptr \<Rightarrow> bool option" where
  "CFArrayContainsValue env array rng value =
     do { k \<leftarrow> first_index (same_value env array value) array (fst rng) (nat (snd rng)); Some (k \<noteq> -1) }"

definition CFArrayGetFirstIndexOfValue :: "array_env \<Rightarrow> CFArray \<Rightarrow> int \<times> int \<Rightarrow> ptr \<Rightarrow> int option" where
  "CFArrayGetFirstIndexOfValue env array rng value = first_index (same_value env array value) array (fst rng) (nat (snd rng))"

fun last_index :: "(ptr \<Rightarrow> bool) \<Rightarrow> CFArray \<Rightarrow> int \<Rightarrow> nat \<Rightarrow> int option" where
  "last_index same array loc 0 = Some (-1)"
| "last_index same array loc (Suc n) =
     do { item \<leftarrow> CFArrayGetValueAtIndex array (loc + int n);
          if same item then Some (int n + loc) else last_index same array loc n }"

definition CFArrayGetLastIndexOfValue :: "array_env \<Rightarrow> CFArray \<Rightarrow> int \<times> int \<Rightarrow> ptr \<Rightarrow> int option" where
  "CFArrayGetLastIndexOfValue env array rng value =
     (if snd rng < 0 then None else last_index (same_value env array value) array (fst rng) (nat (snd rng)))"

definition CFArrayGetValues :: "CFArray \<Rightarrow> int \<times> int \<Rightarrow> ptr list \<Rightarrow> ptr list option" where
  "CFArrayGetValues array rng values =
     (if 0 < snd rng
      then do { (buckets, off) \<leftarrow> CFArrayGetBucketsPtr array; move values 0 buckets (off + fst rng) (snd rng) }
      else Some values)"

text \<open>The values at \<open>itemsPtr\<close> are those from an offset on in the block of buckets; \<open>mutations\<close> is what \<open>mutationsPtr\<close> points to.\<close>

record fast_state =
  fs_atend :: bool
  fs_mutations :: "64 word"
  fs_items :: "ptr list \<times> int"

definition CFArrayFastEnumeration :: "CFArray \<Rightarrow> fast_state \<Rightarrow> (fast_state \<times> int) option" where
  "CFArrayFastEnumeration array state =
     (if arr_count array = 0 then Some (state, 0)
      else if \<not> fs_atend state
      then do { items \<leftarrow> CFArrayGetBucketsPtr array;
                Some (\<lparr>fs_atend = True,
                       fs_mutations = (case arr_type array of kCFArrayImmutable \<Rightarrow> 1 | kCFArrayDeque \<Rightarrow> arr_mutations array),
                       fs_items = items\<rparr>, arr_count array) }
      else Some (state, 0))"

fun apply_values :: "(ptr \<Rightarrow> 'c \<Rightarrow> 'c) \<Rightarrow> CFArray \<Rightarrow> int \<Rightarrow> nat \<Rightarrow> 'c \<Rightarrow> 'c option" where
  "apply_values applier array idx 0 c = Some c"
| "apply_values applier array idx (Suc n) c =
     do { item \<leftarrow> CFArrayGetValueAtIndex array idx; apply_values applier array (idx + 1) n (applier item c) }"

definition CFArrayApplyFunction :: "CFArray \<Rightarrow> int \<times> int \<Rightarrow> (ptr \<Rightarrow> 'c \<Rightarrow> 'c) \<Rightarrow> 'c \<Rightarrow> 'c option" where
  "CFArrayApplyFunction array rng applier c = apply_values applier array (fst rng) (nat (snd rng)) c"

fun equal_values :: "(ptr \<Rightarrow> ptr \<Rightarrow> bool) \<Rightarrow> CFArray \<Rightarrow> CFArray \<Rightarrow> int \<Rightarrow> nat \<Rightarrow> bool option" where
  "equal_values same array1 array2 idx 0 = Some True"
| "equal_values same array1 array2 idx (Suc n) =
     do { val1 \<leftarrow> CFArrayGetBucketAtIndex array1 idx;
          val2 \<leftarrow> CFArrayGetBucketAtIndex array2 idx;
          if same val1 val2 then equal_values same array1 array2 (idx + 1) n else Some False }"

text \<open>For two array objects.\<close>

definition CFArrayEqual :: "array_env \<Rightarrow> CFArray \<Rightarrow> CFArray \<Rightarrow> bool option" where
  "CFArrayEqual env array1 array2 =
     (if arr_count array1 \<noteq> arr_count array2 then Some False
      else if ac_equal (CFArrayGetCallBacks env array1) \<noteq> ac_equal (CFArrayGetCallBacks env array2) then Some False
      else if arr_count array1 = 0 then Some True
      else equal_values (same_value env array1) array1 array2 0 (nat (arr_count array1)))"

definition CFArrayHash :: "CFArray \<Rightarrow> 64 word" where
  "CFArrayHash array = of_int (arr_count array)"

section \<open>Changing\<close>

definition CFArrayRepositionDequeRegions :: "array_env \<Rightarrow> CFArrayDeque \<Rightarrow> int \<Rightarrow> int \<times> int \<Rightarrow> int \<Rightarrow> CFArrayDeque option" where
  "CFArrayRepositionDequeRegions env deque cnt rng newCount =
     (let buckets = dq_buckets deque;
          futureCnt = cnt - snd rng + newCount;
          L = dq_leftIdx deque; A = fst rng; B = snd rng; C = cnt - B - A; R = dq_capacity deque - cnt - L;
          numNewElems = newCount - B;
          wiggle = max 4 (dq_capacity deque div 2 ^ 17) in
      if dq_capacity deque < futureCnt mod 2 ^ 32 \<or> (cnt < futureCnt \<and> L + R < wiggle) then
        do { capacity \<leftarrow> CFArrayDequeRoundUpCapacity (futureCnt + wiggle);
             let newBuckets = map (fresh_cell env) [0..<nat capacity];
             let newL = half (capacity - futureCnt);
             newBuckets \<leftarrow> (if 0 < A then move newBuckets newL buckets L A else Some newBuckets);
             newBuckets \<leftarrow> (if 0 < C then move newBuckets (newL + A + newCount) buckets (L + A + B) C else Some newBuckets);
             Some \<lparr>dq_leftIdx = newL, dq_capacity = capacity, dq_buckets = newBuckets\<rparr> }
      else if (numNewElems < 0 \<and> C < A) \<or> (numNewElems \<le> R \<and> C < A) then
        do { let oldC0 = L + A + B;
             let newC0 = L + A + newCount;
             buckets \<leftarrow> (if 0 < C then move buckets newC0 buckets oldC0 C else Some buckets);
             buckets \<leftarrow> (if oldC0 > newC0 then clear buckets (newC0 + C) (oldC0 - newC0) else Some buckets);
             Some (deque\<lparr>dq_buckets := buckets\<rparr>) }
      else if numNewElems < 0 \<or> (numNewElems \<le> L \<and> A \<le> C) then
        do { let newL = L - numNewElems;
             buckets \<leftarrow> (if 0 < A then move buckets newL buckets L A else Some buckets);
             buckets \<leftarrow> (if newL > L then clear buckets L (newL - L) else Some buckets);
             Some (deque\<lparr>dq_leftIdx := newL, dq_buckets := buckets\<rparr>) }
      else
        do { let newL = half (L + R - numNewElems);
             let newL = newL - half newL;
             let oldC0 = L + A + B;
             let newC0 = newL + A + newCount;
             buckets \<leftarrow>
               (if newL < L then
                  do { buckets \<leftarrow> (if 0 < A then move buckets newL buckets L A else Some buckets);
                       buckets \<leftarrow> (if 0 < C then move buckets newC0 buckets oldC0 C else Some buckets);
                       if oldC0 > newC0 then clear buckets (newC0 + C) (oldC0 - newC0) else Some buckets }
                else
                  do { buckets \<leftarrow> (if 0 < C then move buckets newC0 buckets oldC0 C else Some buckets);
                       buckets \<leftarrow> (if 0 < A then move buckets newL buckets L A else Some buckets);
                       if newL > L then clear buckets L (newL - L) else Some buckets });
             Some (deque\<lparr>dq_leftIdx := newL, dq_buckets := buckets\<rparr>) })"

definition CFArraySetCapacity :: "array_env \<Rightarrow> CFArray \<Rightarrow> int \<Rightarrow> CFArray option" where
  "CFArraySetCapacity env array cap =
     (case arr_type array of
        kCFArrayImmutable \<Rightarrow> Some array
      | kCFArrayDeque \<Rightarrow>
          do { capacity \<leftarrow> CFArrayDequeRoundUpCapacity cap;
               let cells = map (fresh_cell env) [0..<nat capacity];
               case arr_store array of
                 None \<Rightarrow> Some (array\<lparr>arr_store := Some \<lparr>dq_leftIdx = half capacity, dq_capacity = capacity, dq_buckets = cells\<rparr>\<rparr>)
               | Some olddeque \<Rightarrow>
                   do { bs \<leftarrow> move cells 0 (dq_buckets olddeque) 0 (dq_capacity olddeque);
                        Some (array\<lparr>arr_store := Some \<lparr>dq_leftIdx = dq_leftIdx olddeque, dq_capacity = capacity, dq_buckets = bs\<rparr>\<rparr>) } })"

definition CFArrayReplaceValues :: "array_env \<Rightarrow> CFArray \<Rightarrow> int \<times> int \<Rightarrow> ptr list \<Rightarrow> int \<Rightarrow> CFArray option" where
  "CFArrayReplaceValues env array rng newValues newCount =
     do { let futureCnt = arr_count array - snd rng + newCount;
          (newv, array) \<leftarrow>
            (case retaining env array of
               Some f \<Rightarrow> do { (newv, es) \<leftarrow> copy_in (Some f) (load_at newValues) 0 (nat newCount) (map (fresh_cell env) [0..<nat newCount]);
                              Some (newv, log_event es array) }
             | None \<Rightarrow> Some (newValues, array));
          let array = array\<lparr>arr_mutations := arr_mutations array + 1\<rparr>;
          array \<leftarrow> (if 0 < snd rng then CFArrayReleaseValues env array rng False else Some array);
          array \<leftarrow>
            (case arr_store array of
               None \<Rightarrow>
                 if 0 \<le> futureCnt
                 then do { capacity \<leftarrow> CFArrayDequeRoundUpCapacity futureCnt;
                           Some (array\<lparr>arr_store := Some \<lparr>dq_leftIdx = half (capacity - newCount), dq_capacity = capacity,
                                        dq_buckets = map (fresh_cell env) [0..<nat capacity]\<rparr>\<rparr>) }
                 else Some array
             | Some deque \<Rightarrow>
                 if snd rng \<noteq> newCount
                 then do { deque \<leftarrow> CFArrayRepositionDequeRegions env deque (arr_count array) rng newCount;
                           Some (array\<lparr>arr_store := Some deque\<rparr>) }
                 else Some array);
          array \<leftarrow>
            (if 0 < newCount
             then do { deque \<leftarrow> arr_store array;
                       bs \<leftarrow> move (dq_buckets deque) (dq_leftIdx deque + fst rng) newv 0 newCount;
                       Some (array\<lparr>arr_store := Some (deque\<lparr>dq_buckets := bs\<rparr>)\<rparr>) }
             else Some array);
          Some (array\<lparr>arr_count := futureCnt\<rparr>) }"

definition CFArrayAppendValue :: "array_env \<Rightarrow> CFArray \<Rightarrow> ptr \<Rightarrow> CFArray option" where
  "CFArrayAppendValue env array value = CFArrayReplaceValues env array (arr_count array, 0) [value] 1"

definition CFArraySetValueAtIndex :: "array_env \<Rightarrow> CFArray \<Rightarrow> int \<Rightarrow> ptr \<Rightarrow> CFArray option" where
  "CFArraySetValueAtIndex env array idx value =
     (if idx = arr_count array then CFArrayReplaceValues env array (idx, 0) [value] 1
      else
        do { let (v, array) = (case retaining env array of Some f \<Rightarrow> (f value, log_event [Retain value] array) | None \<Rightarrow> (value, array));
             old_value \<leftarrow> CFArrayGetBucketAtIndex array idx;
             array \<leftarrow> set_item array idx v;
             let array = (if releasing env array then log_event [Release old_value] array else array);
             Some (array\<lparr>arr_mutations := arr_mutations array + 1\<rparr>) })"

definition CFArrayInsertValueAtIndex :: "array_env \<Rightarrow> CFArray \<Rightarrow> int \<Rightarrow> ptr \<Rightarrow> CFArray option" where
  "CFArrayInsertValueAtIndex env array idx value = CFArrayReplaceValues env array (idx, 0) [value] 1"

definition CFArrayExchangeValuesAtIndices :: "CFArray \<Rightarrow> int \<Rightarrow> int \<Rightarrow> CFArray option" where
  "CFArrayExchangeValuesAtIndices array idx1 idx2 =
     do { tmp \<leftarrow> CFArrayGetBucketAtIndex array idx1;
          item2 \<leftarrow> CFArrayGetBucketAtIndex array idx2;
          array \<leftarrow> set_item array idx1 item2;
          array \<leftarrow> set_item array idx2 tmp;
          Some (array\<lparr>arr_mutations := arr_mutations array + 1\<rparr>) }"

definition CFArrayRemoveValueAtIndex :: "array_env \<Rightarrow> CFArray \<Rightarrow> int \<Rightarrow> CFArray option" where
  "CFArrayRemoveValueAtIndex env array idx = CFArrayReplaceValues env array (idx, 1) [] 0"

definition CFArrayRemoveAllValues :: "array_env \<Rightarrow> CFArray \<Rightarrow> CFArray option" where
  "CFArrayRemoveAllValues env array =
     do { array \<leftarrow> CFArrayReleaseValues env array (0, arr_count array) True;
          Some (array\<lparr>arr_count := 0, arr_mutations := arr_mutations array + 1\<rparr>) }"

section \<open>Copies\<close>

definition CFArrayCreateCopy0 :: "array_env \<Rightarrow> bool \<Rightarrow> CFArray \<Rightarrow> CFArray option" where
  "CFArrayCreateCopy0 env memory array =
     do { let numValues = CFArrayGetCount array;
          result \<leftarrow> CFArrayInit env memory kCFArrayImmutable numValues (Some (CFArrayGetCallBacks env array));
          (bs, es) \<leftarrow> copy_in (retaining env result) (CFArrayGetValueAtIndex array) 0 (nat numValues) (arr_inline result);
          Some (log_event es (result\<lparr>arr_inline := bs, arr_count := numValues\<rparr>)) }"

fun append_values :: "array_env \<Rightarrow> (CFArray \<Rightarrow> CFArray) \<Rightarrow> int \<Rightarrow> nat \<Rightarrow> CFArray \<Rightarrow> CFArray option" where
  "append_values env other idx 0 array = Some array"
| "append_values env other idx (Suc n) array =
     do { value \<leftarrow> CFArrayGetValueAtIndex (other array) idx;
          array \<leftarrow> CFArrayAppendValue env array value;
          append_values env other (idx + 1) n array }"

definition CFArrayCreateMutableCopy0 :: "array_env \<Rightarrow> bool \<Rightarrow> int \<Rightarrow> CFArray \<Rightarrow> CFArray option" where
  "CFArrayCreateMutableCopy0 env memory capacity array =
     do { result \<leftarrow> CFArrayInit env memory kCFArrayDeque capacity (Some (CFArrayGetCallBacks env array));
          result \<leftarrow> (if 0 = capacity then CFArraySetCapacity env result (CFArrayGetCount array) else Some result);
          append_values env (\<lambda>_. array) 0 (nat (CFArrayGetCount array)) result }"

text \<open>The other array may be the array itself, \<open>None\<close>.\<close>

definition CFArrayAppendArray :: "array_env \<Rightarrow> CFArray \<Rightarrow> CFArray option \<Rightarrow> int \<times> int \<Rightarrow> CFArray option" where
  "CFArrayAppendArray env array otherArray otherRng =
     append_values env (case otherArray of None \<Rightarrow> (\<lambda>a. a) | Some a \<Rightarrow> (\<lambda>_. a)) (fst otherRng) (nat (snd otherRng)) array"

section \<open>Sorting and searching\<close>

fun zsort_pass :: "(ptr \<Rightarrow> ptr \<Rightarrow> CFComparisonResult) \<Rightarrow> CFArray \<Rightarrow> int \<Rightarrow> nat \<Rightarrow> CFArray option" where
  "zsort_pass comparator array idx 0 = Some array"
| "zsort_pass comparator array idx (Suc n) =
     do { a \<leftarrow> CFArrayGetValueAtIndex array idx;
          b \<leftarrow> CFArrayGetValueAtIndex array (idx + 1);
          array \<leftarrow> (if comparison_value (comparator b a) < 0 then CFArrayExchangeValuesAtIndices array idx (idx + 1) else Some array);
          zsort_pass comparator array (idx + 1) n }"

fun CFZSort :: "(ptr \<Rightarrow> ptr \<Rightarrow> CFComparisonResult) \<Rightarrow> CFArray \<Rightarrow> int \<Rightarrow> nat \<Rightarrow> CFArray option" where
  "CFZSort comparator array loc 0 = Some array"
| "CFZSort comparator array loc (Suc n) =
     (if 0 < n then do { array \<leftarrow> zsort_pass comparator array loc n; CFZSort comparator array loc n } else Some array)"

definition sort_by_copy ::
    "array_env \<Rightarrow> bool \<Rightarrow> (ptr \<Rightarrow> ptr \<Rightarrow> CFComparisonResult) \<Rightarrow> schedule \<Rightarrow> nat \<Rightarrow> nat \<Rightarrow> CFArray \<Rightarrow> int \<times> int \<Rightarrow> CFArray option" where
  "sort_by_copy env immutable comparator schedule cores junk array rng =
     do { values \<leftarrow> CFArrayGetValues array rng (map (fresh_cell env) [0..<nat (snd rng)]);
          values \<leftarrow> CFQSortArray comparator schedule cores junk values (nat (snd rng)) 8;
          if \<not> immutable then CFArrayReplaceValues env array rng values (snd rng) else Some array }"

definition CFArraySortValues_private ::
    "array_env \<Rightarrow> (ptr \<Rightarrow> ptr \<Rightarrow> CFComparisonResult) \<Rightarrow> schedule \<Rightarrow> nat \<Rightarrow> nat \<Rightarrow> CFArray \<Rightarrow> CFArray option" where
  "CFArraySortValues_private env comparator schedule cores junk array =
     (if CFArrayGetCount array < 2 then Some array
      else sort_by_copy env False comparator schedule cores junk array (0, CFArrayGetCount array))"

definition CFArraySortValues ::
    "array_env \<Rightarrow> (ptr \<Rightarrow> ptr \<Rightarrow> CFComparisonResult) \<Rightarrow> schedule \<Rightarrow> nat \<Rightarrow> nat \<Rightarrow> CFArray \<Rightarrow> int \<times> int \<Rightarrow> CFArray option" where
  "CFArraySortValues env comparator schedule cores junk array rng =
     (let immutable = (arr_type array = kCFArrayImmutable) in
      if \<not> immutable \<and> (retaining env array \<noteq> None) \<noteq> releasing env array
      then CFZSort comparator array (fst rng) (nat (snd rng))
      else if snd rng < 2 then Some array
      else sort_by_copy env immutable comparator schedule cores junk array rng)"

fun bsearch_probe :: "(ptr \<Rightarrow> bool) \<Rightarrow> CFArray \<Rightarrow> int \<Rightarrow> nat \<Rightarrow> int \<Rightarrow> int option" where
  "bsearch_probe below array loc 0 idx = Some idx"
| "bsearch_probe below array loc (Suc lg) idx =
     do { item \<leftarrow> CFArrayGetValueAtIndex array (loc + idx + 2 ^ lg);
          bsearch_probe below array loc lg (if below item then idx + 2 ^ lg else idx) }"

definition CFArrayBSearchValues :: "(ptr \<Rightarrow> ptr \<Rightarrow> CFComparisonResult) \<Rightarrow> CFArray \<Rightarrow> int \<times> int \<Rightarrow> ptr \<Rightarrow> int option" where
  "CFArrayBSearchValues comparator array rng value =
     (if snd rng \<le> 0 then Some (fst rng)
      else do { item \<leftarrow> CFArrayGetValueAtIndex array (fst rng + snd rng - 1);
                if comparison_value (comparator item value) < 0 then Some (fst rng + snd rng)
                else do { item \<leftarrow> CFArrayGetValueAtIndex array (fst rng);
                if comparison_value (comparator value item) < 0 then Some (fst rng)
                else do { let lg = flsl (nat (snd rng)) - 1;
                if 31 \<le> lg then None
                else do { item \<leftarrow> CFArrayGetValueAtIndex array (fst rng + -1 + 2 ^ lg);
                idx \<leftarrow> bsearch_probe (\<lambda>item. comparison_value (comparator item value) < 0) array (fst rng) lg
                         (if comparison_value (comparator item value) < 0 then snd rng - 2 ^ lg else -1);
                Some (idx + 1 + fst rng) } } } })"


section \<open>Cells\<close>

definition cell :: "'a list \<Rightarrow> int \<Rightarrow> 'a" where
  "cell bs i = bs ! nat i"

lemma load_at_cell: "0 \<le> i \<Longrightarrow> i < int (length bs) \<Longrightarrow> load_at bs i = Some (cell bs i)"
  by (simp add: load_at_def load_def cell_def nat_less_iff)

lemma store_at_cell:
  assumes "0 \<le> i" "i < int (length bs)"
  obtains bs' where "store_at bs i v = Some bs'" "length bs' = length bs"
    "\<And>j. 0 \<le> j \<Longrightarrow> j < int (length bs) \<Longrightarrow> cell bs' j = (if j = i then v else cell bs j)"
  using assms that[of "bs[nat i := v]"] by (simp add: store_at_def store_def cell_def nat_less_iff nth_list_update eq_nat_nat_iff)

lemma move_cell:
  assumes "0 \<le> d" "0 \<le> s" "0 \<le> n" "d + n \<le> int (length dst)" "s + n \<le> int (length src)"
  obtains bs where "move dst d src s n = Some bs" "length bs = length dst"
    "\<And>i. 0 \<le> i \<Longrightarrow> i < int (length dst) \<Longrightarrow> cell bs i = (if d \<le> i \<and> i < d + n then cell src (s + i - d) else cell dst i)"
proof -
  have le: "nat d + nat n \<le> length dst" "nat s + nat n \<le> length src" using assms by linarith+
  let ?bs = "put dst (nat d) (seg src (nat s) (nat n))"
  have "move dst d src s n = Some ?bs" using assms(1-3) le by (simp add: move_def memmove_put)
  moreover have "length ?bs = length dst" using le by simp
  moreover have "cell ?bs i = (if d \<le> i \<and> i < d + n then cell src (s + i - d) else cell dst i)" if "0 \<le> i" "i < int (length dst)" for i
  proof -
    have "nat i < length dst" "nat d \<le> nat i \<longleftrightarrow> d \<le> i" "nat i < nat d + nat n \<longleftrightarrow> i < d + n" using that assms(1,3) by linarith+
    moreover have "nat s + (nat i - nat d) = nat (s + i - d)" if "d \<le> i" using that assms(1,2) by linarith
    moreover have "nat i - nat d < nat n" if "d \<le> i" "i < d + n" using that assms(1,3) by linarith
    ultimately show ?thesis using le by (simp add: cell_def put_nth)
  qed
  ultimately show ?thesis by (rule that)
qed

text \<open>A move and a clearing of cells that the code skips when there is nothing to do.\<close>

lemma move_if:
  assumes "0 \<le> n" "0 < n \<Longrightarrow> 0 \<le> d \<and> 0 \<le> s \<and> d + n \<le> int (length dst) \<and> s + n \<le> int (length src)"
  obtains bs where "(if 0 < n then move dst d src s n else Some dst) = Some bs" "length bs = length dst"
    "\<And>i. 0 \<le> i \<Longrightarrow> i < int (length dst) \<Longrightarrow> cell bs i = (if d \<le> i \<and> i < d + n then cell src (s + i - d) else cell dst i)"
proof (cases "0 < n")
  case True
  then show ?thesis using move_cell[of d s n dst src] assms that by (metis order_less_imp_le)
next
  case False
  then show ?thesis using assms(1) by (intro that[of dst]) auto
qed

lemma clear_if:
  assumes "y < x \<Longrightarrow> 0 \<le> off \<and> off + (x - y) \<le> int (length bs)"
  obtains bs' where "(if y < x then clear bs off (x - y) else Some bs) = Some bs'" "length bs' = length bs"
    "\<And>i. 0 \<le> i \<Longrightarrow> i < int (length bs) \<Longrightarrow> \<not> (off \<le> i \<and> i < off + (x - y)) \<Longrightarrow> cell bs' i = cell bs i"
proof (cases "y < x")
  case True
  then obtain bs' where "move bs off (replicate (nat (x - y)) NULL) 0 (x - y) = Some bs'" "length bs' = length bs"
    "\<And>i. 0 \<le> i \<Longrightarrow> i < int (length bs) \<Longrightarrow> cell bs' i = (if off \<le> i \<and> i < off + (x - y) then cell (replicate (nat (x - y)) NULL) (0 + i - off) else cell bs i)"
    using move_cell[of off 0 "x - y" bs "replicate (nat (x - y)) NULL"] assms by auto
  then show ?thesis using True by (intro that[of bs']) (auto simp: clear_def)
next
  case False
  then show ?thesis by (intro that[of bs]) auto
qed

section \<open>Repositioning\<close>

definition deque_ok :: "CFArrayDeque \<Rightarrow> int \<Rightarrow> bool" where
  "deque_ok d n \<longleftrightarrow> 0 \<le> n \<and> 0 \<le> dq_leftIdx d \<and> dq_leftIdx d + n \<le> dq_capacity d \<and> int (length (dq_buckets d)) = dq_capacity d \<and>
     dq_capacity d \<le> 2 ^ 30"

lemma RoundUpCapacity_ok:
  assumes "c < 2 ^ 30"
  obtains cap where "CFArrayDequeRoundUpCapacity c = Some cap" "c \<le> cap" "4 \<le> cap" "cap \<le> 2 ^ 30"
proof (cases "c < 4")
  case False
  have "flsl (nat c) \<le> 30" using assms by (intro flsl_le) (simp add: nat_less_iff)
  moreover have "nat c < 2 ^ flsl (nat c)" by (rule flsl_bound)
  then have "c < 2 ^ flsl (nat c)" using False by (simp add: nat_less_iff)
  moreover have "(2 :: int) ^ flsl (nat c) \<le> 2 ^ 30" using calculation(1) by (rule power_increasing) simp
  ultimately show ?thesis using that[of "2 ^ flsl (nat c)"] False by (simp add: CFArrayDequeRoundUpCapacity_def)
qed (use that in \<open>simp add: CFArrayDequeRoundUpCapacity_def\<close>)

lemma half_bounds: "0 \<le> x \<Longrightarrow> 0 \<le> half x \<and> half x \<le> x \<and> 2 * half x \<le> x"
  by (auto simp: half_def)

text \<open>
  What repositioning achieves: \<open>d'\<close> has room for the new values, the values before the replaced ones and those after
  them are at their new places.
\<close>

definition repositioned :: "CFArrayDeque \<Rightarrow> CFArrayDeque \<Rightarrow> int \<Rightarrow> int \<Rightarrow> int \<Rightarrow> int \<Rightarrow> bool" where
  "repositioned d d' cnt A B m \<longleftrightarrow> deque_ok d' (cnt - B + m) \<and>
    (\<forall>i. 0 \<le> i \<and> i < A \<longrightarrow> cell (dq_buckets d') (dq_leftIdx d' + i) = cell (dq_buckets d) (dq_leftIdx d + i)) \<and>
    (\<forall>i. 0 \<le> i \<and> i < cnt - B - A \<longrightarrow> cell (dq_buckets d') (dq_leftIdx d' + A + m + i) = cell (dq_buckets d) (dq_leftIdx d + A + B + i))"

lemma reallocate_ok:
  assumes "deque_ok d cnt" "0 \<le> A" "0 \<le> B" "A + B \<le> cnt" "0 \<le> m" "cnt - B + m \<le> cap" "cap \<le> 2 ^ 30"
  defines "l \<equiv> half (cap - (cnt - B + m))"
  shows "\<exists>d'. do { new \<leftarrow> (if 0 < A then move (map f [0..<nat cap]) l (dq_buckets d) (dq_leftIdx d) A else Some (map f [0..<nat cap]));
      new \<leftarrow> (if 0 < cnt - B - A then move new (l + A + m) (dq_buckets d) (dq_leftIdx d + A + B) (cnt - B - A) else Some new);
      Some \<lparr>dq_leftIdx = l, dq_capacity = cap, dq_buckets = new\<rparr> } = Some d' \<and> repositioned d d' cnt A B m"
proof -
  let ?L = "dq_leftIdx d" and ?bs = "dq_buckets d" and ?C = "cnt - B - A" and ?new = "map f [0..<nat cap]"
  have d: "0 \<le> ?L" "?L + cnt \<le> dq_capacity d" "int (length ?bs) = dq_capacity d" using assms(1) by (simp_all add: deque_ok_def)
  have l: "0 \<le> l" "l + (cnt - B + m) \<le> cap" using half_bounds[of "cap - (cnt - B + m)"] assms(6) unfolding l_def by linarith+
  have len: "int (length ?new) = cap" using assms(2-6) by simp
  obtain b1 where b1: "(if 0 < A then move ?new l ?bs ?L A else Some ?new) = Some b1" "length b1 = length ?new"
    "\<And>i. 0 \<le> i \<Longrightarrow> i < int (length ?new) \<Longrightarrow> cell b1 i = (if l \<le> i \<and> i < l + A then cell ?bs (?L + i - l) else cell ?new i)"
    by (rule move_if[of A l ?L ?new ?bs]) (use assms(2-6) d l len in \<open>(linarith | blast)\<close>)+
  obtain b2 where b2: "(if 0 < ?C then move b1 (l + A + m) ?bs (?L + A + B) ?C else Some b1) = Some b2" "length b2 = length b1"
    "\<And>i. 0 \<le> i \<Longrightarrow> i < int (length b1) \<Longrightarrow> cell b2 i = (if l + A + m \<le> i \<and> i < l + A + m + ?C then cell ?bs (?L + A + B + i - (l + A + m)) else cell b1 i)"
    by (rule move_if[of ?C "l + A + m" "?L + A + B" b1 ?bs]) (use assms(2-6) d l len b1(2) in \<open>(linarith | blast)\<close>)+
  have bl: "int (length b1) = cap" "int (length b2) = cap" using b1(2) b2(2) len by simp_all
  have "cell b2 (l + i) = cell ?bs (?L + i)" if "0 \<le> i" "i < A" for i
    using b2(3)[of "l + i"] b1(3)[of "l + i"] that bl len l assms(2-6) by (simp add: algebra_simps)
  moreover have "cell b2 (l + A + m + i) = cell ?bs (?L + A + B + i)" if "0 \<le> i" "i < ?C" for i
    using b2(3)[of "l + A + m + i"] that bl l assms(2-6) by (simp add: algebra_simps)
  ultimately show ?thesis using b1(1) b2(1) l bl assms(2-7) by (simp add: repositioned_def deque_ok_def)
qed

lemma move_right_part:
  assumes "deque_ok d cnt" "0 \<le> A" "0 \<le> B" "A + B \<le> cnt" "0 \<le> m" "m - B \<le> dq_capacity d - cnt - dq_leftIdx d"
  defines "c \<equiv> dq_leftIdx d + A + B" and "n \<equiv> dq_leftIdx d + A + m"
  shows "\<exists>d'. do { bs \<leftarrow> (if 0 < cnt - B - A then move (dq_buckets d) n (dq_buckets d) c (cnt - B - A) else Some (dq_buckets d));
      bs \<leftarrow> (if n < c then clear bs (n + (cnt - B - A)) (c - n) else Some bs);
      Some (d\<lparr>dq_buckets := bs\<rparr>) } = Some d' \<and> repositioned d d' cnt A B m"
proof -
  let ?L = "dq_leftIdx d" and ?bs = "dq_buckets d" and ?cap = "dq_capacity d" and ?C = "cnt - B - A"
  have d: "0 \<le> ?L" "?L + cnt \<le> ?cap" "int (length ?bs) = ?cap" "?cap \<le> 2 ^ 30" using assms(1) by (simp_all add: deque_ok_def)
  have n: "0 \<le> n" "n + ?C \<le> ?cap" "0 \<le> c" "c + ?C \<le> ?cap" using assms(2-6) d unfolding n_def c_def by linarith+
  obtain b1 where b1: "(if 0 < ?C then move ?bs n ?bs c ?C else Some ?bs) = Some b1" "length b1 = length ?bs"
    "\<And>i. 0 \<le> i \<Longrightarrow> i < int (length ?bs) \<Longrightarrow> cell b1 i = (if n \<le> i \<and> i < n + ?C then cell ?bs (c + i - n) else cell ?bs i)"
    by (rule move_if[of ?C n c ?bs ?bs]) (use assms(2-6) d n in \<open>(linarith | blast)\<close>)+
  obtain b2 where b2: "(if n < c then clear b1 (n + ?C) (c - n) else Some b1) = Some b2" "length b2 = length b1"
    "\<And>i. 0 \<le> i \<Longrightarrow> i < int (length b1) \<Longrightarrow> \<not> (n + ?C \<le> i \<and> i < n + ?C + (c - n)) \<Longrightarrow> cell b2 i = cell b1 i"
    by (rule clear_if[of n c "n + ?C" b1]) (use assms(2-6) d n b1(2) in \<open>(linarith | blast)\<close>)+
  have bl: "int (length b1) = ?cap" "int (length b2) = ?cap" using b1(2) b2(2) d(3) by simp_all
  have "cell b2 (?L + i) = cell ?bs (?L + i)" if "0 \<le> i" "i < A" for i
    using b2(3)[of "?L + i"] b1(3)[of "?L + i"] that bl d assms(2-6) n_def by simp
  moreover have "cell b2 (n + i) = cell ?bs (c + i)" if "0 \<le> i" "i < ?C" for i
    using b2(3)[of "n + i"] b1(3)[of "n + i"] that bl d n by (simp add: algebra_simps)
  ultimately show ?thesis using b1(1) b2(1) bl d assms(2-6) unfolding n_def c_def by (simp add: repositioned_def deque_ok_def)
qed

lemma move_left_part:
  assumes "deque_ok d cnt" "0 \<le> A" "0 \<le> B" "A + B \<le> cnt" "0 \<le> m" "m - B \<le> dq_leftIdx d"
  defines "l \<equiv> dq_leftIdx d - (m - B)"
  shows "\<exists>d'. do { bs \<leftarrow> (if 0 < A then move (dq_buckets d) l (dq_buckets d) (dq_leftIdx d) A else Some (dq_buckets d));
      bs \<leftarrow> (if dq_leftIdx d < l then clear bs (dq_leftIdx d) (l - dq_leftIdx d) else Some bs);
      Some (d\<lparr>dq_leftIdx := l, dq_buckets := bs\<rparr>) } = Some d' \<and> repositioned d d' cnt A B m"
proof -
  let ?L = "dq_leftIdx d" and ?bs = "dq_buckets d" and ?cap = "dq_capacity d" and ?C = "cnt - B - A"
  have d: "0 \<le> ?L" "?L + cnt \<le> ?cap" "int (length ?bs) = ?cap" "?cap \<le> 2 ^ 30" using assms(1) by (simp_all add: deque_ok_def)
  have l: "0 \<le> l" "l + A + m + ?C \<le> ?cap" using d assms(2-6) unfolding l_def by linarith+
  obtain b1 where b1: "(if 0 < A then move ?bs l ?bs ?L A else Some ?bs) = Some b1" "length b1 = length ?bs"
    "\<And>i. 0 \<le> i \<Longrightarrow> i < int (length ?bs) \<Longrightarrow> cell b1 i = (if l \<le> i \<and> i < l + A then cell ?bs (?L + i - l) else cell ?bs i)"
    by (rule move_if[of A l ?L ?bs ?bs]) (use assms(2-6) d l in \<open>(linarith | blast)\<close>)+
  obtain b2 where b2: "(if ?L < l then clear b1 ?L (l - ?L) else Some b1) = Some b2" "length b2 = length b1"
    "\<And>i. 0 \<le> i \<Longrightarrow> i < int (length b1) \<Longrightarrow> \<not> (?L \<le> i \<and> i < ?L + (l - ?L)) \<Longrightarrow> cell b2 i = cell b1 i"
    by (rule clear_if[of ?L l ?L b1]) (use assms(2-6) d l b1(2) in \<open>(linarith | blast)\<close>)+
  have bl: "int (length b1) = ?cap" "int (length b2) = ?cap" using b1(2) b2(2) d(3) by simp_all
  have "cell b2 (l + i) = cell ?bs (?L + i)" if "0 \<le> i" "i < A" for i
    using b2(3)[of "l + i"] b1(3)[of "l + i"] that bl d l assms(2-6) by (simp add: algebra_simps)
  moreover have "cell b2 (l + A + m + i) = cell ?bs (?L + A + B + i)" if "0 \<le> i" "i < ?C" for i
  proof -
    have e: "?L + A + B + i = l + A + m + i" by (simp add: l_def)
    show ?thesis unfolding e using b2(3)[of "l + A + m + i"] b1(3)[of "l + A + m + i"] that bl d l assms(2-6) by simp
  qed
  ultimately show ?thesis using b1(1) b2(1) bl d l assms(2-6) by (simp add: repositioned_def deque_ok_def)
qed

text \<open>Centring again: the part that moves towards the other one goes last.\<close>

lemma recenter_left:
  assumes "deque_ok d cnt" "0 \<le> A" "0 \<le> B" "A + B \<le> cnt" "B \<le> m" "0 \<le> l" "l + (cnt - B + m) \<le> dq_capacity d" "l < dq_leftIdx d"
  defines "c \<equiv> dq_leftIdx d + A + B" and "n \<equiv> l + A + m"
  shows "\<exists>d'. do { bs \<leftarrow> do { bs \<leftarrow> (if 0 < A then move (dq_buckets d) l (dq_buckets d) (dq_leftIdx d) A else Some (dq_buckets d));
      bs \<leftarrow> (if 0 < cnt - B - A then move bs n bs c (cnt - B - A) else Some bs);
      if n < c then clear bs (n + (cnt - B - A)) (c - n) else Some bs };
      Some (d\<lparr>dq_leftIdx := l, dq_buckets := bs\<rparr>) } = Some d' \<and> repositioned d d' cnt A B m"
proof -
  let ?L = "dq_leftIdx d" and ?bs = "dq_buckets d" and ?cap = "dq_capacity d" and ?C = "cnt - B - A"
  have d: "0 \<le> ?L" "?L + cnt \<le> ?cap" "int (length ?bs) = ?cap" "?cap \<le> 2 ^ 30" using assms(1) by (simp_all add: deque_ok_def)
  have n: "0 \<le> n" "n + ?C \<le> ?cap" "0 \<le> c" "c + ?C \<le> ?cap" "l + A \<le> n" "l + A \<le> c" using assms(2-8) d unfolding n_def c_def by linarith+
  obtain b1 where b1: "(if 0 < A then move ?bs l ?bs ?L A else Some ?bs) = Some b1" "length b1 = length ?bs"
    "\<And>i. 0 \<le> i \<Longrightarrow> i < int (length ?bs) \<Longrightarrow> cell b1 i = (if l \<le> i \<and> i < l + A then cell ?bs (?L + i - l) else cell ?bs i)"
    by (rule move_if[of A l ?L ?bs ?bs]) (use assms(2-8) d in \<open>(linarith | blast)\<close>)+
  obtain b2 where b2: "(if 0 < ?C then move b1 n b1 c ?C else Some b1) = Some b2" "length b2 = length b1"
    "\<And>i. 0 \<le> i \<Longrightarrow> i < int (length b1) \<Longrightarrow> cell b2 i = (if n \<le> i \<and> i < n + ?C then cell b1 (c + i - n) else cell b1 i)"
    by (rule move_if[of ?C n c b1 b1]) (use assms(2-8) d n b1(2) in \<open>(linarith | blast)\<close>)+
  obtain b3 where b3: "(if n < c then clear b2 (n + ?C) (c - n) else Some b2) = Some b3" "length b3 = length b2"
    "\<And>i. 0 \<le> i \<Longrightarrow> i < int (length b2) \<Longrightarrow> \<not> (n + ?C \<le> i \<and> i < n + ?C + (c - n)) \<Longrightarrow> cell b3 i = cell b2 i"
    by (rule clear_if[of n c "n + ?C" b2]) (use assms(2-8) d n b1(2) b2(2) in \<open>(linarith | blast)\<close>)+
  have bl: "int (length b1) = ?cap" "int (length b2) = ?cap" "int (length b3) = ?cap" using b1(2) b2(2) b3(2) d(3) by simp_all
  have "cell b3 (l + i) = cell ?bs (?L + i)" if "0 \<le> i" "i < A" for i
    using b3(3)[of "l + i"] b2(3)[of "l + i"] b1(3)[of "l + i"] that bl d n assms(2-8) by (simp add: algebra_simps)
  moreover have "cell b3 (n + i) = cell ?bs (c + i)" if "0 \<le> i" "i < ?C" for i
    using b3(3)[of "n + i"] b2(3)[of "n + i"] b1(3)[of "c + i"] that bl d n assms(2-8) by (simp add: algebra_simps)
  ultimately show ?thesis using b1(1) b2(1) b3(1) bl d assms(2-8) unfolding n_def c_def by (simp add: repositioned_def deque_ok_def)
qed

lemma recenter_right:
  assumes "deque_ok d cnt" "0 \<le> A" "0 \<le> B" "A + B \<le> cnt" "B \<le> m" "0 \<le> l" "l + (cnt - B + m) \<le> dq_capacity d" "dq_leftIdx d \<le> l"
  defines "c \<equiv> dq_leftIdx d + A + B" and "n \<equiv> l + A + m"
  shows "\<exists>d'. do { bs \<leftarrow> do { bs \<leftarrow> (if 0 < cnt - B - A then move (dq_buckets d) n (dq_buckets d) c (cnt - B - A) else Some (dq_buckets d));
      bs \<leftarrow> (if 0 < A then move bs l bs (dq_leftIdx d) A else Some bs);
      if dq_leftIdx d < l then clear bs (dq_leftIdx d) (l - dq_leftIdx d) else Some bs };
      Some (d\<lparr>dq_leftIdx := l, dq_buckets := bs\<rparr>) } = Some d' \<and> repositioned d d' cnt A B m"
proof -
  let ?L = "dq_leftIdx d" and ?bs = "dq_buckets d" and ?cap = "dq_capacity d" and ?C = "cnt - B - A"
  have d: "0 \<le> ?L" "?L + cnt \<le> ?cap" "int (length ?bs) = ?cap" "?cap \<le> 2 ^ 30" using assms(1) by (simp_all add: deque_ok_def)
  have n: "0 \<le> n" "n + ?C \<le> ?cap" "0 \<le> c" "c + ?C \<le> ?cap" "l + A \<le> n" "?L + A \<le> n" using assms(2-8) d unfolding n_def c_def by linarith+
  obtain b1 where b1: "(if 0 < ?C then move ?bs n ?bs c ?C else Some ?bs) = Some b1" "length b1 = length ?bs"
    "\<And>i. 0 \<le> i \<Longrightarrow> i < int (length ?bs) \<Longrightarrow> cell b1 i = (if n \<le> i \<and> i < n + ?C then cell ?bs (c + i - n) else cell ?bs i)"
    by (rule move_if[of ?C n c ?bs ?bs]) (use assms(2-8) d n in \<open>(linarith | blast)\<close>)+
  obtain b2 where b2: "(if 0 < A then move b1 l b1 ?L A else Some b1) = Some b2" "length b2 = length b1"
    "\<And>i. 0 \<le> i \<Longrightarrow> i < int (length b1) \<Longrightarrow> cell b2 i = (if l \<le> i \<and> i < l + A then cell b1 (?L + i - l) else cell b1 i)"
    by (rule move_if[of A l ?L b1 b1]) (use assms(2-8) d b1(2) in \<open>(linarith | blast)\<close>)+
  obtain b3 where b3: "(if ?L < l then clear b2 ?L (l - ?L) else Some b2) = Some b3" "length b3 = length b2"
    "\<And>i. 0 \<le> i \<Longrightarrow> i < int (length b2) \<Longrightarrow> \<not> (?L \<le> i \<and> i < ?L + (l - ?L)) \<Longrightarrow> cell b3 i = cell b2 i"
    by (rule clear_if[of ?L l ?L b2]) (use assms(2-8) d b1(2) b2(2) in \<open>(linarith | blast)\<close>)+
  have bl: "int (length b1) = ?cap" "int (length b2) = ?cap" "int (length b3) = ?cap" using b1(2) b2(2) b3(2) d(3) by simp_all
  have "cell b3 (l + i) = cell ?bs (?L + i)" if "0 \<le> i" "i < A" for i
    using b3(3)[of "l + i"] b2(3)[of "l + i"] b1(3)[of "?L + i"] that bl d n assms(2-8) by (simp add: algebra_simps)
  moreover have "cell b3 (n + i) = cell ?bs (c + i)" if "0 \<le> i" "i < ?C" for i
    using b3(3)[of "n + i"] b2(3)[of "n + i"] b1(3)[of "n + i"] that bl d n assms(2-8) by (simp add: algebra_simps)
  ultimately show ?thesis using b1(1) b2(1) b3(1) bl d assms(2-8) unfolding n_def c_def by (simp add: repositioned_def deque_ok_def)
qed

lemma Reposition_ok:
  assumes "deque_ok d cnt" "0 \<le> A" "0 \<le> B" "A + B \<le> cnt" "0 \<le> m" "cnt - B + m \<le> 2 ^ 29"
  shows "\<exists>d'. CFArrayRepositionDequeRegions env d cnt (A, B) m = Some d' \<and> repositioned d d' cnt A B m"
proof -
  let ?L = "dq_leftIdx d" and ?cap = "dq_capacity d" and ?F = "cnt - B + m" and ?C = "cnt - B - A"
  let ?R = "?cap - cnt - ?L"
  define w where "w = max 4 (?cap div 2 ^ 17)"
  have d: "0 \<le> ?L" "?L + cnt \<le> ?cap" "?cap \<le> 2 ^ 30" using assms(1) by (simp_all add: deque_ok_def)
  have w: "4 \<le> w" "w \<le> 2 ^ 13" using d(3) unfolding w_def by auto
  have mod: "?F mod 2 ^ 32 = ?F" using assms(2,4-6) by (intro mod_pos_pos_trivial) auto
  note def = CFArrayRepositionDequeRegions_def Let_def fst_conv snd_conv mod w_def[symmetric]
  show ?thesis
  proof (cases "?cap < ?F \<or> (cnt < ?F \<and> ?L + ?R < w)")
    case True
    obtain cap where cap: "CFArrayDequeRoundUpCapacity (?F + w) = Some cap" "?F + w \<le> cap" "cap \<le> 2 ^ 30"
      using RoundUpCapacity_ok[of "?F + w"] assms(6) w(2) by auto
    then show ?thesis using reallocate_ok[OF assms(1-5), of cap "fresh_cell env"] w(1) unfolding def if_P[OF True] by (simp only: cap(1) bind.bind_lunit)
  next
    case fits: False
    note F = def if_not_P[OF fits]
    consider (right) "(m - B < 0 \<and> ?C < A) \<or> (m - B \<le> ?R \<and> ?C < A)"
      | (left) "\<not> ((m - B < 0 \<and> ?C < A) \<or> (m - B \<le> ?R \<and> ?C < A))" "m - B < 0 \<or> (m - B \<le> ?L \<and> A \<le> ?C)"
      | (centre) "\<not> ((m - B < 0 \<and> ?C < A) \<or> (m - B \<le> ?R \<and> ?C < A))" "\<not> (m - B < 0 \<or> (m - B \<le> ?L \<and> A \<le> ?C))"
      by blast
    then show ?thesis
    proof cases
      case right
      then have "m - B \<le> ?R" using d assms by linarith
      then show ?thesis using move_right_part[OF assms(1-5)] unfolding F if_P[OF right] by (simp only:)
    next
      case left
      then have "m - B \<le> ?L" using d by linarith
      then show ?thesis using move_left_part[OF assms(1-5)] unfolding F if_not_P[OF left(1)] if_P[OF left(2)] by (simp only:)
    next
      case centre
      have grow: "B \<le> m" "0 \<le> ?L + ?R - (m - B)" using centre(2) fits by linarith+
      define l where "l = half (?L + ?R - (m - B)) - half (half (?L + ?R - (m - B)))"
      have l: "0 \<le> l" "l + ?F \<le> ?cap"
        using half_bounds[of "?L + ?R - (m - B)"] half_bounds[of "half (?L + ?R - (m - B))"] grow unfolding l_def by linarith+
      note F = F if_not_P[OF centre(1)] if_not_P[OF centre(2)] l_def[symmetric]
      show ?thesis
      proof (cases "l < ?L")
        case True
        show ?thesis using recenter_left[OF assms(1-4) grow(1) l True] unfolding F if_P[OF True] by (simp only:)
      next
        case False
        then have "?L \<le> l" by simp
        then show ?thesis using recenter_right[OF assms(1-4) grow(1) l] unfolding F if_not_P[OF False] by (simp only:)
      qed
    qed
  qed
qed

section \<open>Contents\<close>

definition arr_contents :: "CFArray \<Rightarrow> ptr list" where
  "arr_contents a = (case CFArrayGetBucketsPtr a of None \<Rightarrow> [] | Some (bs, off) \<Rightarrow> map (\<lambda>i. cell bs (off + int i)) [0..<nat (arr_count a)])"

definition arr_inv :: "CFArray \<Rightarrow> bool" where
  "arr_inv a \<longleftrightarrow> 0 \<le> arr_count a \<and>
     (case arr_type a of
        kCFArrayImmutable \<Rightarrow> arr_count a \<le> int (length (arr_inline a))
      | kCFArrayDeque \<Rightarrow> (case arr_store a of None \<Rightarrow> arr_count a = 0 | Some d \<Rightarrow> deque_ok d (arr_count a)))"

text \<open>Another array of the same kind with the same callbacks.\<close>

definition alike :: "CFArray \<Rightarrow> CFArray \<Rightarrow> bool" where
  "alike a a' \<longleftrightarrow> arr_type a' = arr_type a \<and> arr_callbacks_type a' = arr_callbacks_type a \<and> arr_callbacks a' = arr_callbacks a"

lemma alike_refl [simp]: "alike a a"
  by (simp add: alike_def)

lemma alike_trans: "alike a b \<Longrightarrow> alike b c \<Longrightarrow> alike a c"
  by (simp add: alike_def)

lemma alike_callbacks:
  assumes "alike a a'"
  shows "CFArrayGetCallBacks env a' = CFArrayGetCallBacks env a" "retaining env a' = retaining env a" "releasing env a' = releasing env a"
    "same_value env a' = same_value env a"
  using assms by (auto simp: alike_def CFArrayGetCallBacks_def retaining_def releasing_def same_value_def fun_eq_iff cong: CFArrayCallBacksType.case_cong)

lemma length_contents: "arr_inv a \<Longrightarrow> int (length (arr_contents a)) = arr_count a"
  by (auto simp: arr_inv_def arr_contents_def CFArrayGetBucketsPtr_def split: CFArrayType.splits option.splits)

lemma count_contents: "arr_inv a \<Longrightarrow> arr_count a = int (length (arr_contents a))"
  by (simp add: length_contents)

lemma window:
  assumes "arr_inv a" "arr_contents a \<noteq> []"
  obtains bs off where "CFArrayGetBucketsPtr a = Some (bs, off)" "0 \<le> off" "off + arr_count a \<le> int (length bs)"
    "\<And>i. i < length (arr_contents a) \<Longrightarrow> arr_contents a ! i = cell bs (off + int i)"
  using assms that
  by (auto simp: arr_inv_def arr_contents_def CFArrayGetBucketsPtr_def deque_ok_def split: CFArrayType.splits option.splits)

lemma GetValueAtIndex_ok:
  assumes "arr_inv a" "i < length (arr_contents a)"
  shows "CFArrayGetValueAtIndex a (int i) = Some (arr_contents a ! i)"
proof -
  have "arr_contents a \<noteq> []" using assms(2) by auto
  then obtain bs off where w: "CFArrayGetBucketsPtr a = Some (bs, off)" "0 \<le> off" "off + arr_count a \<le> int (length bs)"
    "\<And>i. i < length (arr_contents a) \<Longrightarrow> arr_contents a ! i = cell bs (off + int i)"
    using window[OF assms(1)] by blast
  then show ?thesis using assms(2) count_contents[OF assms(1)]
    by (simp add: CFArrayGetValueAtIndex_def CFArrayGetBucketAtIndex_def load_at_cell)
qed

text \<open>Writing other buckets into the window.\<close>

lemma set_buckets_ok:
  assumes "arr_inv a" "CFArrayGetBucketsPtr a = Some (bs, off)" "length bs' = length bs"
  shows "arr_inv (set_buckets a bs')" "alike a (set_buckets a bs')" "arr_count (set_buckets a bs') = arr_count a"
    "CFArrayGetBucketsPtr (set_buckets a bs') = Some (bs', off)" "arr_log (set_buckets a bs') = arr_log a"
    "arr_mutations (set_buckets a bs') = arr_mutations a"
    "arr_contents (set_buckets a bs') = map (\<lambda>i. cell bs' (off + int i)) [0..<length (arr_contents a)]"
  using assms arg_cong[OF length_contents[OF assms(1)], of nat]
  by (auto simp: arr_inv_def set_buckets_def CFArrayGetBucketsPtr_def alike_def deque_ok_def arr_contents_def split: CFArrayType.splits option.splits)

lemma set_item_ok:
  assumes "arr_inv a" "i < length (arr_contents a)"
  shows "\<exists>a'. set_item a (int i) v = Some a' \<and> arr_inv a' \<and> alike a a' \<and> arr_contents a' = (arr_contents a)[i := v] \<and>
    arr_count a' = arr_count a \<and> arr_log a' = arr_log a \<and> arr_mutations a' = arr_mutations a"
proof -
  have "arr_contents a \<noteq> []" using assms(2) by auto
  then obtain bs off where w: "CFArrayGetBucketsPtr a = Some (bs, off)" "0 \<le> off" "off + arr_count a \<le> int (length bs)"
    "\<And>i. i < length (arr_contents a) \<Longrightarrow> arr_contents a ! i = cell bs (off + int i)"
    using window[OF assms(1)] by blast
  have in_range: "off + int j < int (length bs)" if "j < length (arr_contents a)" for j
    using that w(2,3) count_contents[OF assms(1)] by linarith
  obtain bs' where bs': "store_at bs (off + int i) v = Some bs'" "length bs' = length bs"
    "\<And>j. 0 \<le> j \<Longrightarrow> j < int (length bs) \<Longrightarrow> cell bs' j = (if j = off + int i then v else cell bs j)"
    using store_at_cell[of "off + int i" bs v] w(2) in_range[OF assms(2)] by auto
  note S = set_buckets_ok[OF assms(1) w(1) bs'(2)]
  have "arr_contents (set_buckets a bs') = (arr_contents a)[i := v]"
    unfolding S(7) by (rule nth_equalityI) (use bs'(3) in_range w(2,4) in \<open>auto simp: nth_list_update\<close>)
  then show ?thesis using S w(1) bs'(1) by (simp add: set_item_def)
qed

lemma log_event_simps [simp]:
  "arr_inv (log_event es a) = arr_inv a" "arr_contents (log_event es a) = arr_contents a" "arr_count (log_event es a) = arr_count a"
  "arr_log (log_event es a) = arr_log a @ es" "arr_store (log_event es a) = arr_store a" "arr_type (log_event es a) = arr_type a"
  "alike a' (log_event es a) = alike a' a" "arr_mutations (log_event es a) = arr_mutations a" "CFArrayGetBucketsPtr (log_event es a) = CFArrayGetBucketsPtr a"
  by (simp_all add: log_event_def arr_inv_def arr_contents_def CFArrayGetBucketsPtr_def alike_def cong: CFArrayType.case_cong option.case_cong)

lemma mutations_simps [simp]:
  "arr_inv (a\<lparr>arr_mutations := k\<rparr>) = arr_inv a" "arr_contents (a\<lparr>arr_mutations := k\<rparr>) = arr_contents a"
  "alike a' (a\<lparr>arr_mutations := k\<rparr>) = alike a' a" "CFArrayGetBucketsPtr (a\<lparr>arr_mutations := k\<rparr>) = CFArrayGetBucketsPtr a"
  by (simp_all add: arr_inv_def arr_contents_def CFArrayGetBucketsPtr_def alike_def cong: CFArrayType.case_cong option.case_cong)

section \<open>Releasing and copying values\<close>

lemma release_buckets_ok:
  "0 \<le> i \<Longrightarrow> i + int n \<le> int (length bs) \<Longrightarrow> \<exists>bs'. release_buckets rel bs i n = Some (bs', if rel then map (\<lambda>k. Release (cell bs (i + int k))) [0..<n] else []) \<and>
    length bs' = length bs \<and> (\<forall>j. 0 \<le> j \<and> j < int (length bs) \<longrightarrow> cell bs' j = (if i \<le> j \<and> j < i + int n then NULL else cell bs j))"
proof (induction n arbitrary: i bs)
  case (Suc n)
  have i: "i < int (length bs)" using Suc.prems by simp
  obtain b1 where b1: "store_at bs i NULL = Some b1" "length b1 = length bs"
    "\<And>j. 0 \<le> j \<Longrightarrow> j < int (length bs) \<Longrightarrow> cell b1 j = (if j = i then NULL else cell bs j)"
    using store_at_cell[OF Suc.prems(1) i] by blast
  obtain b2 where b2: "release_buckets rel b1 (i + 1) n = Some (b2, if rel then map (\<lambda>k. Release (cell b1 (i + 1 + int k))) [0..<n] else [])"
    "length b2 = length b1" "\<And>j. 0 \<le> j \<Longrightarrow> j < int (length b1) \<Longrightarrow> cell b2 j = (if i + 1 \<le> j \<and> j < i + 1 + int n then NULL else cell b1 j)"
    using Suc.IH[of "i + 1" b1] Suc.prems b1(2) by auto
  have "map (\<lambda>k. Release (cell b1 (i + 1 + int k))) [0..<n] = map (\<lambda>k. Release (cell bs (i + int k))) [1..<Suc n]"
    using b1(3) Suc.prems by (auto simp: map_Suc_upt[symmetric] simp del: upt_Suc intro!: map_cong) (simp add: algebra_simps)
  then have "map (\<lambda>k. Release (cell bs (i + int k))) [0..<Suc n] = Release (cell bs i) # map (\<lambda>k. Release (cell b1 (i + 1 + int k))) [0..<n]"
    by (simp add: upt_conv_Cons del: upt_Suc)
  then show ?case using b1 b2 load_at_cell[OF Suc.prems(1) i] by (auto simp del: upt_Suc)
qed auto

lemma release_range_ok:
  assumes "arr_inv a" "l + n \<le> length (arr_contents a)" "0 < n"
  shows "\<exists>a'. release_range rel a (int l, int n) = Some a' \<and> arr_inv a' \<and> alike a a' \<and> arr_count a' = arr_count a \<and>
    arr_mutations a' = arr_mutations a \<and> (arr_store a' = None \<longleftrightarrow> arr_store a = None) \<and>
    arr_log a' = arr_log a @ (if rel then map Release (take n (drop l (arr_contents a))) else []) \<and>
    arr_contents a' = take l (arr_contents a) @ replicate n NULL @ drop (l + n) (arr_contents a)"
proof -
  let ?xs = "arr_contents a"
  have "?xs \<noteq> []" using assms(2,3) by auto
  then obtain bs off where w: "CFArrayGetBucketsPtr a = Some (bs, off)" "0 \<le> off" "off + arr_count a \<le> int (length bs)"
    "\<And>i. i < length ?xs \<Longrightarrow> ?xs ! i = cell bs (off + int i)"
    using window[OF assms(1)] by blast
  have cnt: "off + int (length ?xs) \<le> int (length bs)" using w(3) count_contents[OF assms(1)] by simp
  obtain bs' where bs': "release_buckets rel bs (off + int l) n = Some (bs', if rel then map (\<lambda>k. Release (cell bs (off + int l + int k))) [0..<n] else [])"
    "length bs' = length bs" "\<And>j. 0 \<le> j \<Longrightarrow> j < int (length bs) \<Longrightarrow> cell bs' j = (if off + int l \<le> j \<and> j < off + int l + int n then NULL else cell bs j)"
    using release_buckets_ok[of "off + int l" n bs rel] w(2) cnt assms(2) by auto
  note S = set_buckets_ok[OF assms(1) w(1) bs'(2)]
  have "map (\<lambda>k. Release (cell bs (off + int l + int k))) [0..<n] = map Release (take n (drop l ?xs))"
    by (rule nth_equalityI) (use assms(2) w(4) in \<open>auto simp: algebra_simps\<close>)
  moreover have "arr_contents (set_buckets a bs') = take l ?xs @ replicate n NULL @ drop (l + n) ?xs"
    unfolding S(7) by (rule nth_equalityI) (use assms(2) w(2,4) cnt bs'(3) in \<open>auto simp: nth_append\<close>)
  moreover have "arr_store (set_buckets a bs') = None \<longleftrightarrow> arr_store a = None" by (simp add: set_buckets_def split: CFArrayType.splits)
  ultimately show ?thesis using S w(1) bs'(1) by (auto simp: release_range_def)
qed

definition stored :: "(ptr \<Rightarrow> ptr) option \<Rightarrow> ptr \<Rightarrow> ptr" where
  "stored retain v = (case retain of Some f \<Rightarrow> f v | None \<Rightarrow> v)"

definition retains :: "(ptr \<Rightarrow> ptr) option \<Rightarrow> ptr list \<Rightarrow> cb_event list" where
  "retains retain vs = (case retain of Some f \<Rightarrow> map Retain vs | None \<Rightarrow> [])"

definition releases :: "bool \<Rightarrow> ptr list \<Rightarrow> cb_event list" where
  "releases rel vs = (if rel then map Release vs else [])"

lemma copy_in_ok:
  assumes "\<And>k. k < i + n \<Longrightarrow> get (int k) = Some (v k)" "i + n \<le> length bs"
  shows "copy_in r get (int i) n bs = Some (put bs i (map (\<lambda>k. stored r (v k)) [i..<i + n]), retains r (map v [i..<i + n]))"
  using assms
proof (induction n arbitrary: i bs)
  case 0
  then show ?case by (simp add: retains_def split: option.splits)
next
  case (Suc n)
  have "copy_in r get (int (Suc i)) n (bs[i := stored r (v i)]) =
    Some (put (bs[i := stored r (v i)]) (Suc i) (map (\<lambda>k. stored r (v k)) [Suc i..<Suc i + n]), retains r (map v [Suc i..<Suc i + n]))"
    by (rule Suc.IH) (use Suc.prems in auto)
  then show ?case using Suc.prems(2) Suc.prems(1)[of i] put_Cons[of i "map (\<lambda>k. stored r (v k)) [Suc i..<Suc i + n]" bs]
    by (auto simp: upt_conv_Cons store_at_def store_def stored_def[symmetric] add.commute retains_def split: option.splits simp del: upt_Suc)
qed

section \<open>Replacing values\<close>

lemma make_room:
  fixes a env l n m
  defines "xs \<equiv> arr_contents a"
  assumes "arr_inv a" "arr_type a = kCFArrayDeque" "l + n \<le> length xs" "length xs - n + m \<le> 2 ^ 29"
  shows "\<exists>d. (case arr_store a of
       None \<Rightarrow>
         if 0 \<le> arr_count a - int n + int m
         then do { capacity \<leftarrow> CFArrayDequeRoundUpCapacity (arr_count a - int n + int m);
                   Some (a\<lparr>arr_store := Some \<lparr>dq_leftIdx = half (capacity - int m), dq_capacity = capacity,
                                dq_buckets = map (fresh_cell env) [0..<nat capacity]\<rparr>\<rparr>) }
         else Some a
     | Some deque \<Rightarrow>
         if int n \<noteq> int m
         then do { deque \<leftarrow> CFArrayRepositionDequeRegions env deque (arr_count a) (int l, int n) (int m);
                   Some (a\<lparr>arr_store := Some deque\<rparr>) }
         else Some a) = Some (a\<lparr>arr_store := Some d\<rparr>) \<and>
    deque_ok d (int (length xs - n + m)) \<and>
    (\<forall>i < l. cell (dq_buckets d) (dq_leftIdx d + int i) = xs ! i) \<and>
    (\<forall>i < length xs - n - l. cell (dq_buckets d) (dq_leftIdx d + int (l + m + i)) = xs ! (l + n + i))"
proof (cases "arr_store a")
  case None
  then have xs: "xs = []" "arr_count a = 0" using assms(2,3) unfolding xs_def by (simp_all add: arr_inv_def arr_contents_def CFArrayGetBucketsPtr_def)
  obtain cap where cap: "CFArrayDequeRoundUpCapacity (int m) = Some cap" "int m \<le> cap" "cap \<le> 2 ^ 30"
    using RoundUpCapacity_ok[of "int m"] assms(5) by auto
  have "deque_ok \<lparr>dq_leftIdx = half (cap - int m), dq_capacity = cap, dq_buckets = map (fresh_cell env) [0..<nat cap]\<rparr> (int m)"
    using half_bounds[of "cap - int m"] cap(2,3) by (simp add: deque_ok_def)
  then show ?thesis using None xs cap(1) assms(4) by (auto simp: xs(1))
next
  case (Some d)
  have cnt: "arr_count a = int (length xs)" unfolding xs_def by (rule count_contents[OF assms(2)])
  have d: "deque_ok d (int (length xs))" using assms(2,3) Some cnt by (simp add: arr_inv_def)
  have cells: "xs ! i = cell (dq_buckets d) (dq_leftIdx d + int i)" if "i < length xs" for i
    using that Some assms(3) unfolding xs_def by (auto simp: arr_contents_def CFArrayGetBucketsPtr_def)
  have F: "int (length xs - n + m) = int (length xs) - int n + int m" using assms(4) by simp
  show ?thesis
  proof (cases "n = m")
    case True
    have "a = a\<lparr>arr_store := Some d\<rparr>" using Some by (cases a) simp
    then show ?thesis using Some True d cells assms(4) by (intro exI[of _ d]) (auto simp: F)
  next
    case False
    have bound: "int (length xs) - int n + int m \<le> 2 ^ 29"
      unfolding F[symmetric] using assms(5) by (metis of_nat_le_iff of_nat_numeral of_nat_power)
    obtain d' where d': "CFArrayRepositionDequeRegions env d (int (length xs)) (int l, int n) (int m) = Some d'"
      "repositioned d d' (int (length xs)) (int l) (int n) (int m)"
      using Reposition_ok[OF d, of "int l" "int n" "int m" env] assms(4) bound by auto
    have "cell (dq_buckets d') (dq_leftIdx d' + int i) = xs ! i" if "i < l" for i
      using d'(2) cells[of i] that assms(4) by (simp add: repositioned_def)
    moreover have "cell (dq_buckets d') (dq_leftIdx d' + int (l + m + i)) = xs ! (l + n + i)" if "i < length xs - n - l" for i
    proof -
      have "cell (dq_buckets d') (dq_leftIdx d' + int l + int m + int i) = cell (dq_buckets d) (dq_leftIdx d + int l + int n + int i)"
        using d'(2) that unfolding repositioned_def by auto
      then show ?thesis using cells[of "l + n + i"] that by (simp add: algebra_simps)
    qed
    moreover have "deque_ok d' (int (length xs - n + m))" using d'(2) unfolding repositioned_def F by simp
    ultimately show ?thesis using Some False d'(1) cnt by (intro exI[of _ d']) auto
  qed
qed

lemma store_window:
  assumes "deque_ok d (int k)" "arr_type a = kCFArrayDeque"
  shows "arr_inv (a\<lparr>arr_store := Some d, arr_count := int k\<rparr>)"
    "arr_contents (a\<lparr>arr_store := Some d, arr_count := int k\<rparr>) = map (\<lambda>i. cell (dq_buckets d) (dq_leftIdx d + int i)) [0..<k]"
    "alike a (a\<lparr>arr_store := Some d, arr_count := int k\<rparr>)"
  using assms by (simp_all add: arr_inv_def deque_ok_def arr_contents_def CFArrayGetBucketsPtr_def alike_def)

lemma fill_room:
  assumes "deque_ok d (int k)" "l + m \<le> k" "m \<le> length newv"
  shows "\<exists>d'. (if 0 < int m
       then do { deque \<leftarrow> arr_store (a\<lparr>arr_store := Some d\<rparr>);
                 bs \<leftarrow> move (dq_buckets deque) (dq_leftIdx deque + int l) newv 0 (int m);
                 Some (a\<lparr>arr_store := Some d\<rparr>\<lparr>arr_store := Some (deque\<lparr>dq_buckets := bs\<rparr>)\<rparr>) }
       else Some (a\<lparr>arr_store := Some d\<rparr>)) = Some (a\<lparr>arr_store := Some d'\<rparr>) \<and> deque_ok d' (int k) \<and>
    (\<forall>i < k. cell (dq_buckets d') (dq_leftIdx d' + int i) =
       (if l \<le> i \<and> i < l + m then newv ! (i - l) else cell (dq_buckets d) (dq_leftIdx d + int i)))"
proof (cases "m = 0")
  case False
  have d: "0 \<le> dq_leftIdx d" "dq_leftIdx d + int k \<le> int (length (dq_buckets d))" using assms(1) by (simp_all add: deque_ok_def)
  obtain bs where bs: "move (dq_buckets d) (dq_leftIdx d + int l) newv 0 (int m) = Some bs" "length bs = length (dq_buckets d)"
    "\<And>i. 0 \<le> i \<Longrightarrow> i < int (length (dq_buckets d)) \<Longrightarrow>
      cell bs i = (if dq_leftIdx d + int l \<le> i \<and> i < dq_leftIdx d + int l + int m then cell newv (0 + i - (dq_leftIdx d + int l)) else cell (dq_buckets d) i)"
    by (rule move_cell[of "dq_leftIdx d + int l" 0 "int m" "dq_buckets d" newv]) (use d assms in auto)
  have "cell bs (dq_leftIdx d + int i) = (if l \<le> i \<and> i < l + m then newv ! (i - l) else cell (dq_buckets d) (dq_leftIdx d + int i))" if "i < k" for i
    using bs(3)[of "dq_leftIdx d + int i"] that d by (auto simp: cell_def nat_diff_distrib')
  then show ?thesis using False bs(1,2) assms(1) by (intro exI[of _ "d\<lparr>dq_buckets := bs\<rparr>"]) (simp add: deque_ok_def)
qed (use assms in auto)

lemma retain_new_values:
  assumes "m \<le> length vals"
  shows "\<exists>newv. (case r of
       Some f \<Rightarrow> do { (newv, es) \<leftarrow> copy_in (Some f) (load_at vals) 0 (nat (int m)) (map (fresh_cell env) [0..<nat (int m)]); Some (newv, log_event es a) }
     | None \<Rightarrow> Some (vals, a)) = Some (newv, log_event (retains r (take m vals)) a) \<and> m \<le> length newv \<and> take m newv = map (stored r) (take m vals)"
proof (cases r)
  case None
  then show ?thesis using assms by (auto simp: retains_def stored_def log_event_def map_idI)
next
  case (Some f)
  have "load_at vals (int k) = Some (vals ! k)" if "k < m" for k using that assms by (simp add: load_at_def load_def)
  then have "copy_in (Some f) (load_at vals) 0 m (map (fresh_cell env) [0..<m]) =
      Some (put (map (fresh_cell env) [0..<m]) 0 (map (\<lambda>k. stored (Some f) (vals ! k)) [0..<m]), retains (Some f) (map ((!) vals) [0..<m]))"
    using copy_in_ok[of 0 m "load_at vals" "(!) vals" "map (fresh_cell env) [0..<m]" "Some f"] by simp
  moreover have "map ((!) vals) [0..<m] = take m vals" using assms by (intro nth_equalityI) auto
  moreover have "map (\<lambda>k. stored (Some f) (vals ! k)) [0..<m] = map (stored (Some f)) (map ((!) vals) [0..<m])" by simp
  ultimately show ?thesis using Some assms by (simp add: put_def del: map_map)
qed

lemma release_old_values:
  assumes "arr_inv a" "arr_type a = kCFArrayDeque" "l + n \<le> length (arr_contents a)"
  shows "\<exists>a'. (if 0 < int n then CFArrayReleaseValues env a (int l, int n) False else Some a) = Some a' \<and> arr_inv a' \<and> alike a a' \<and>
    arr_count a' = arr_count a \<and> arr_mutations a' = arr_mutations a \<and>
    arr_log a' = arr_log a @ releases (releasing env a) (take n (drop l (arr_contents a))) \<and>
    arr_contents a' = take l (arr_contents a) @ replicate n NULL @ drop (l + n) (arr_contents a)"
proof (cases "n = 0")
  case True
  then show ?thesis using assms by (simp add: releases_def)
next
  case False
  then have "arr_contents a \<noteq> []" using assms(3) by auto
  then have "arr_store a \<noteq> None" using assms(2) by (cases "arr_store a") (simp_all add: arr_contents_def CFArrayGetBucketsPtr_def)
  then show ?thesis using release_range_ok[OF assms(1,3), of "releasing env a"] False assms(2)
    by (auto simp: CFArrayReleaseValues_def releases_def)
qed

text \<open>The result of a number of mutations: other contents and further callback calls.\<close>

definition updates :: "nat \<Rightarrow> CFArray \<Rightarrow> CFArray \<Rightarrow> ptr list \<Rightarrow> cb_event list \<Rightarrow> bool" where
  "updates k a a' xs es \<longleftrightarrow> arr_inv a' \<and> alike a a' \<and> arr_contents a' = xs \<and> arr_log a' = arr_log a @ es \<and>
     arr_mutations a' = arr_mutations a + of_nat k"

lemma spliced:
  assumes "l + n \<le> length xs" "m \<le> length ys" "length zs = length xs - n + m" "\<And>i. i < l \<Longrightarrow> zs ! i = xs ! i"
    "\<And>i. i < m \<Longrightarrow> zs ! (l + i) = ys ! i" "\<And>i. i < length xs - n - l \<Longrightarrow> zs ! (l + m + i) = xs ! (l + n + i)"
  shows "zs = take l xs @ take m ys @ drop (l + n) xs"
proof (rule nth_equalityI)
  fix i assume i: "i < length zs"
  consider "i < l" | j where "i = l + j" "j < m" | j where "i = l + m + j" "j < length xs - n - l"
  proof (cases "i < l + m")
    case True
    then show ?thesis using that(1) that(2)[of "i - l"] by (cases "i < l") auto
  next
    case False
    then show ?thesis using that(3)[of "i - l - m"] i assms(3) by auto
  qed
  then show "zs ! i = (take l xs @ take m ys @ drop (l + n) xs) ! i"
    by cases (use assms in \<open>auto simp: nth_append\<close>)
qed (use assms in auto)

lemma ReplaceValues_ok:
  assumes "arr_inv a" "arr_type a = kCFArrayDeque" "l + n \<le> length (arr_contents a)" "m \<le> length vals"
    "length (arr_contents a) - n + m \<le> 2 ^ 29"
  shows "\<exists>a'. CFArrayReplaceValues env a (int l, int n) vals (int m) = Some a' \<and>
    updates 1 a a' (take l (arr_contents a) @ map (stored (retaining env a)) (take m vals) @ drop (l + n) (arr_contents a))
      (retains (retaining env a) (take m vals) @ releases (releasing env a) (take n (drop l (arr_contents a))))"
proof -
  let ?xs = "arr_contents a" and ?r = "retaining env a"
  obtain newv where newv: "(case ?r of
       Some f \<Rightarrow> do { (newv, es) \<leftarrow> copy_in (Some f) (load_at vals) 0 (nat (int m)) (map (fresh_cell env) [0..<nat (int m)]); Some (newv, log_event es a) }
     | None \<Rightarrow> Some (vals, a)) = Some (newv, log_event (retains ?r (take m vals)) a)" "m \<le> length newv" "take m newv = map (stored ?r) (take m vals)"
    using retain_new_values[OF assms(4)] by blast
  define a1 where "a1 = (log_event (retains ?r (take m vals)) a)\<lparr>arr_mutations := arr_mutations (log_event (retains ?r (take m vals)) a) + 1\<rparr>"
  have a1: "arr_inv a1" "arr_type a1 = kCFArrayDeque" "arr_contents a1 = ?xs" "arr_count a1 = arr_count a" "alike a a1"
    "arr_mutations a1 = arr_mutations a + 1" "arr_log a1 = arr_log a @ retains ?r (take m vals)"
    using assms(1,2) unfolding a1_def by simp_all
  obtain a2 where a2: "(if 0 < int n then CFArrayReleaseValues env a1 (int l, int n) False else Some a1) = Some a2" "arr_inv a2" "alike a1 a2"
    "arr_count a2 = arr_count a" "arr_mutations a2 = arr_mutations a + 1"
    "arr_log a2 = arr_log a1 @ releases (releasing env a) (take n (drop l ?xs))"
    "arr_contents a2 = take l ?xs @ replicate n NULL @ drop (l + n) ?xs"
    using release_old_values[OF a1(1,2), of l n env] a1 assms(3) alike_callbacks[OF a1(5)] by auto
  have len: "length (arr_contents a2) = length ?xs" using a2(7) assms(3) by simp
  have ty: "arr_type a2 = kCFArrayDeque" using a2(3) a1(2) by (simp add: alike_def)
  obtain d where d: "(case arr_store a2 of
       None \<Rightarrow>
         if 0 \<le> arr_count a - int n + int m
         then do { capacity \<leftarrow> CFArrayDequeRoundUpCapacity (arr_count a - int n + int m);
                   Some (a2\<lparr>arr_store := Some \<lparr>dq_leftIdx = half (capacity - int m), dq_capacity = capacity,
                                dq_buckets = map (fresh_cell env) [0..<nat capacity]\<rparr>\<rparr>) }
         else Some a2
     | Some deque \<Rightarrow>
         if int n \<noteq> int m
         then do { deque \<leftarrow> CFArrayRepositionDequeRegions env deque (arr_count a2) (int l, int n) (int m);
                   Some (a2\<lparr>arr_store := Some deque\<rparr>) }
         else Some a2) = Some (a2\<lparr>arr_store := Some d\<rparr>)" "deque_ok d (int (length ?xs - n + m))"
    "\<And>i. i < l \<Longrightarrow> cell (dq_buckets d) (dq_leftIdx d + int i) = arr_contents a2 ! i"
    "\<And>i. i < length ?xs - n - l \<Longrightarrow> cell (dq_buckets d) (dq_leftIdx d + int (l + m + i)) = arr_contents a2 ! (l + n + i)"
    using make_room[OF a2(2) ty, of l n m env] assms(3,5) unfolding len a2(4) by blast
  have room: "l + m \<le> length ?xs - n + m" using assms(3) by simp
  obtain d' where d': "(if 0 < int m
       then do { deque \<leftarrow> arr_store (a2\<lparr>arr_store := Some d\<rparr>);
                 bs \<leftarrow> move (dq_buckets deque) (dq_leftIdx deque + int l) newv 0 (int m);
                 Some (a2\<lparr>arr_store := Some d\<rparr>\<lparr>arr_store := Some (deque\<lparr>dq_buckets := bs\<rparr>)\<rparr>) }
       else Some (a2\<lparr>arr_store := Some d\<rparr>)) = Some (a2\<lparr>arr_store := Some d'\<rparr>)" "deque_ok d' (int (length ?xs - n + m))"
    "\<And>i. i < length ?xs - n + m \<Longrightarrow> cell (dq_buckets d') (dq_leftIdx d' + int i) =
       (if l \<le> i \<and> i < l + m then newv ! (i - l) else cell (dq_buckets d) (dq_leftIdx d + int i))"
    using fill_room[OF d(2) room newv(2)] by blast
  let ?a = "a2\<lparr>arr_store := Some d', arr_count := int (length ?xs - n + m)\<rparr>"
  have fut: "arr_count a - int n + int m = int (length ?xs - n + m)" using count_contents[OF assms(1)] assms(3) by simp
  have run: "CFArrayReplaceValues env a (int l, int n) vals (int m) = Some ?a"
    unfolding CFArrayReplaceValues_def Let_def fst_conv snd_conv newv(1) bind.bind_lunit prod.case a1_def[symmetric] a2(1) d(1) d'(1)
    by (simp only: fut)
  have c: "arr_contents ?a ! i = cell (dq_buckets d') (dq_leftIdx d' + int i)" if "i < length ?xs - n + m" for i
    using store_window(2)[OF d'(2) ty] that by simp
  have "arr_contents ?a = take l ?xs @ take m newv @ drop (l + n) ?xs"
  proof (rule spliced[OF assms(3) newv(2)])
    show "length (arr_contents ?a) = length ?xs - n + m" using store_window(2)[OF d'(2) ty] by simp
    show "arr_contents ?a ! i = ?xs ! i" if "i < l" for i using that c[of i] d'(3)[of i] d(3)[of i] a2(7) assms(3) by (simp add: nth_append)
    show "arr_contents ?a ! (l + i) = newv ! i" if "i < m" for i using that c[of "l + i"] d'(3)[of "l + i"] assms(3) by simp
    show "arr_contents ?a ! (l + m + i) = ?xs ! (l + n + i)" if "i < length ?xs - n - l" for i
      using that c[of "l + m + i"] d'(3)[of "l + m + i"] d(4)[of i] a2(7) assms(3) by (simp add: nth_append)
  qed
  moreover have "alike a ?a" using a1(5) a2(3) store_window(3)[OF d'(2) ty] alike_trans by blast
  ultimately show ?thesis using run store_window(1)[OF d'(2) ty] a1(7) a2(5,6) newv(3) by (simp add: updates_def)
qed

end
