(* ===== verification/CF_Array_Ops.thy ===== *)
theory CF_Array_Ops
  imports CF_Array
begin

text \<open>
  The operations of RuntimeLoop/CFArray.c as list operations: changing single values, searching, copying, appending other
  arrays, sorting and binary search.
\<close>

section \<open>Changing values\<close>

lemma updatesD:
  assumes "updates k a a' xs es"
  shows "arr_inv a'" "alike a a'" "arr_contents a' = xs" "arr_log a' = arr_log a @ es" "arr_mutations a' = arr_mutations a + of_nat k"
    "arr_type a' = arr_type a" "retaining env a' = retaining env a" "releasing env a' = releasing env a"
  using assms alike_callbacks[of a a' env] unfolding updates_def by (simp_all add: alike_def)

lemma updates_trans: "updates j a b xs es \<Longrightarrow> updates k b c ys fs \<Longrightarrow> updates (j + k) a c ys (es @ fs)"
  using alike_trans[of a b c] by (simp add: updates_def)

lemma retains_simps [simp]: "retains r [] = []" "retains r xs @ retains r ys = retains r (xs @ ys)"
  by (auto simp: retains_def split: option.splits)

lemma releases_Nil [simp]: "releases rel [] = []"
  by (simp add: releases_def)

lemma Insert_ok:
  assumes "arr_inv a" "arr_type a = kCFArrayDeque" "i \<le> length (arr_contents a)" "length (arr_contents a) < 2 ^ 29"
  shows "\<exists>a'. CFArrayInsertValueAtIndex env a (int i) v = Some a' \<and>
    updates 1 a a' (take i (arr_contents a) @ [stored (retaining env a) v] @ drop i (arr_contents a)) (retains (retaining env a) [v])"
  using ReplaceValues_ok[OF assms(1,2), of i 0 1 "[v]" env] assms(3,4) by (simp add: CFArrayInsertValueAtIndex_def)

lemma Append_ok:
  assumes "arr_inv a" "arr_type a = kCFArrayDeque" "length (arr_contents a) < 2 ^ 29"
  shows "\<exists>a'. CFArrayAppendValue env a v = Some a' \<and>
    updates 1 a a' (arr_contents a @ [stored (retaining env a) v]) (retains (retaining env a) [v])"
  using Insert_ok[OF assms(1,2) order_refl assms(3), of env v] count_contents[OF assms(1)]
  by (simp add: CFArrayInsertValueAtIndex_def CFArrayAppendValue_def)

lemma Remove_ok:
  assumes "arr_inv a" "arr_type a = kCFArrayDeque" "i < length (arr_contents a)" "length (arr_contents a) \<le> 2 ^ 29"
  shows "\<exists>a'. CFArrayRemoveValueAtIndex env a (int i) = Some a' \<and>
    updates 1 a a' (take i (arr_contents a) @ drop (Suc i) (arr_contents a)) (releases (releasing env a) [arr_contents a ! i])"
  using ReplaceValues_ok[OF assms(1,2), of i 1 0 "[]" env] assms(3,4)
  by (simp add: CFArrayRemoveValueAtIndex_def take_Suc hd_drop_conv_nth)

lemma SetValue_ok:
  assumes "arr_inv a" "arr_type a = kCFArrayDeque" "i < length (arr_contents a)"
  shows "\<exists>a'. CFArraySetValueAtIndex env a (int i) v = Some a' \<and>
    updates 1 a a' ((arr_contents a)[i := stored (retaining env a) v])
      (retains (retaining env a) [v] @ releases (releasing env a) [arr_contents a ! i])"
proof -
  define b where "b = log_event (retains (retaining env a) [v]) a"
  have b: "arr_inv b" "arr_contents b = arr_contents a" "alike a b" "arr_log b = arr_log a @ retains (retaining env a) [v]"
    "arr_mutations b = arr_mutations a"
    using assms(1) unfolding b_def by simp_all
  have start: "(case retaining env a of Some f \<Rightarrow> (f v, log_event [Retain v] a) | None \<Rightarrow> (v, a)) = (stored (retaining env a) v, b)"
    unfolding b_def by (auto simp: stored_def retains_def log_event_def split: option.splits)
  have i: "i < length (arr_contents b)" using assms(3) b(2) by simp
  obtain c where c: "set_item b (int i) (stored (retaining env a) v) = Some c" "arr_inv c" "alike b c"
    "arr_contents c = (arr_contents b)[i := stored (retaining env a) v]" "arr_log c = arr_log b" "arr_mutations c = arr_mutations b"
    using set_item_ok[OF b(1) i] by blast
  have "alike a c" using b(3) c(3) by (rule alike_trans)
  moreover have "releasing env c = releasing env a" using alike_callbacks(3)[OF calculation] .
  moreover have "CFArrayGetBucketAtIndex b (int i) = Some (arr_contents a ! i)"
    using GetValueAtIndex_ok[OF b(1) i] b(2) by (simp add: CFArrayGetValueAtIndex_def)
  moreover have "int i \<noteq> arr_count a" using count_contents[OF assms(1)] assms(3) by simp
  ultimately show ?thesis using b c
    unfolding CFArraySetValueAtIndex_def start by (auto simp: updates_def releases_def)
qed

lemma SetValue_end:
  assumes "arr_inv a" "arr_type a = kCFArrayDeque" "length (arr_contents a) < 2 ^ 29"
  shows "CFArraySetValueAtIndex env a (int (length (arr_contents a))) v = CFArrayAppendValue env a v"
  using count_contents[OF assms(1)] by (simp add: CFArraySetValueAtIndex_def CFArrayAppendValue_def)

lemma Exchange_ok:
  assumes "arr_inv a" "i < length (arr_contents a)" "j < length (arr_contents a)"
  shows "\<exists>a'. CFArrayExchangeValuesAtIndices a (int i) (int j) = Some a' \<and>
    updates 1 a a' ((arr_contents a)[i := arr_contents a ! j, j := arr_contents a ! i]) []"
proof -
  let ?xs = "arr_contents a"
  obtain b where b: "set_item a (int i) (?xs ! j) = Some b" "arr_inv b" "alike a b" "arr_contents b = ?xs[i := ?xs ! j]"
    "arr_log b = arr_log a" "arr_mutations b = arr_mutations a"
    using set_item_ok[OF assms(1,2)] by blast
  have j: "j < length (arr_contents b)" using b(4) assms(3) by simp
  obtain c where c: "set_item b (int j) (?xs ! i) = Some c" "arr_inv c" "alike b c" "arr_contents c = (arr_contents b)[j := ?xs ! i]"
    "arr_log c = arr_log b" "arr_mutations c = arr_mutations b"
    using set_item_ok[OF b(2) j] by blast
  have "alike a c" using b(3) c(3) by (rule alike_trans)
  then show ?thesis using b c GetValueAtIndex_ok[OF assms(1,2)] GetValueAtIndex_ok[OF assms(1,3)]
    by (simp add: CFArrayExchangeValuesAtIndices_def CFArrayGetValueAtIndex_def updates_def)
qed

lemma RemoveAll_ok:
  assumes "arr_inv a" "arr_type a = kCFArrayDeque"
  shows "\<exists>a'. CFArrayRemoveAllValues env a = Some a' \<and> updates 1 a a' [] (releases (releasing env a) (arr_contents a)) \<and> arr_store a' = None"
proof -
  let ?xs = "arr_contents a"
  have cnt: "arr_count a = int (length ?xs)" by (rule count_contents[OF assms(1)])
  obtain b where b: "(if 0 < arr_count a \<and> arr_store a \<noteq> None then release_range (releasing env a) a (0, arr_count a) else Some a) = Some b"
    "arr_log b = arr_log a @ releases (releasing env a) ?xs" "alike a b" "arr_count b = arr_count a" "arr_mutations b = arr_mutations a"
  proof (cases "?xs = []")
    case True
    then show ?thesis using that[of a] cnt by simp
  next
    case False
    then have "arr_store a \<noteq> None" using assms(2) by (cases "arr_store a") (simp_all add: arr_contents_def CFArrayGetBucketsPtr_def)
    then show ?thesis using release_range_ok[OF assms(1), of 0 "length ?xs" "releasing env a"] False that cnt by (auto simp: releases_def)
  qed
  have "CFArrayReleaseValues env a (0, arr_count a) True = Some (b\<lparr>arr_count := 0, arr_store := None\<rparr>)"
    using b(1,4) assms(2) by (simp add: CFArrayReleaseValues_def del: not_None_eq)
  moreover have "updates 1 a (b\<lparr>arr_store := None, arr_count := 0, arr_mutations := arr_mutations b + 1\<rparr>) [] (releases (releasing env a) ?xs)"
    using b assms(2) by (simp add: updates_def alike_def arr_inv_def arr_contents_def CFArrayGetBucketsPtr_def)
  ultimately show ?thesis by (simp add: CFArrayRemoveAllValues_def)
qed

section \<open>Searching\<close>

lemma Get_drop:
  assumes "arr_inv a" "l + n \<le> length (arr_contents a)" "k < n"
  shows "CFArrayGetValueAtIndex a (int (l + k)) = Some (arr_contents a ! (l + k))"
  using GetValueAtIndex_ok[OF assms(1), of "l + k"] assms(2,3) by simp

lemma count_of_value_ok:
  "arr_inv a \<Longrightarrow> l + n \<le> length (arr_contents a) \<Longrightarrow>
    count_of_value same a (int l) n = Some (int (length (filter same (take n (drop l (arr_contents a))))))"
proof (induction n arbitrary: l)
  case (Suc n)
  have "take (Suc n) (drop l (arr_contents a)) = arr_contents a ! l # take n (drop (Suc l) (arr_contents a))"
    using Suc.prems(2) by (simp add: Cons_nth_drop_Suc[symmetric])
  then show ?case using Suc.IH[of "Suc l"] Suc.prems GetValueAtIndex_ok[OF Suc.prems(1), of l] by (simp add: add.commute)
qed simp

lemma first_index_ok:
  "arr_inv a \<Longrightarrow> l + n \<le> length (arr_contents a) \<Longrightarrow> \<exists>r. first_index same a (int l) n = Some r \<and>
    (r = -1 \<and> (\<forall>k < n. \<not> same (arr_contents a ! (l + k))) \<or>
     (\<exists>k < n. r = int (l + k) \<and> same (arr_contents a ! (l + k)) \<and> (\<forall>j < k. \<not> same (arr_contents a ! (l + j)))))"
proof (induction n arbitrary: l)
  case (Suc n)
  have g: "CFArrayGetValueAtIndex a (int l) = Some (arr_contents a ! l)" using GetValueAtIndex_ok[OF Suc.prems(1), of l] Suc.prems(2) by simp
  show ?case
  proof (cases "same (arr_contents a ! l)")
    case True
    then show ?thesis using g by (intro exI[of _ "int l"]) auto
  next
    case False
    have all: "(\<forall>k < Suc m. P k) \<longleftrightarrow> P 0 \<and> (\<forall>k < m. P (Suc k))" for P and m by (auto simp: less_Suc_eq_0_disj)
    obtain r where r: "first_index same a (int (Suc l)) n = Some r"
      "r = -1 \<and> (\<forall>k < n. \<not> same (arr_contents a ! (Suc l + k))) \<or>
       (\<exists>k < n. r = int (Suc l + k) \<and> same (arr_contents a ! (Suc l + k)) \<and> (\<forall>j < k. \<not> same (arr_contents a ! (Suc l + j))))"
      using Suc.IH[of "Suc l"] Suc.prems by auto
    have "first_index same a (int l) (Suc n) = Some r" using g False r(1) by (simp add: add.commute)
    moreover from r(2) have "r = -1 \<and> (\<forall>k < Suc n. \<not> same (arr_contents a ! (l + k))) \<or>
     (\<exists>k < Suc n. r = int (l + k) \<and> same (arr_contents a ! (l + k)) \<and> (\<forall>j < k. \<not> same (arr_contents a ! (l + j))))"
    proof (elim disjE exE conjE)
      fix k assume "k < n" "r = int (Suc l + k)" "same (arr_contents a ! (Suc l + k))" "\<forall>j < k. \<not> same (arr_contents a ! (Suc l + j))"
      then show ?thesis using False by (intro disjI2 exI[of _ "Suc k"]) (simp add: all)
    qed (use False in \<open>simp add: all\<close>)
    ultimately show ?thesis by blast
  qed
qed simp

lemma last_index_ok:
  "arr_inv a \<Longrightarrow> l + n \<le> length (arr_contents a) \<Longrightarrow> \<exists>r. last_index same a (int l) n = Some r \<and>
    (r = -1 \<and> (\<forall>k < n. \<not> same (arr_contents a ! (l + k))) \<or>
     (\<exists>k < n. r = int (l + k) \<and> same (arr_contents a ! (l + k)) \<and> (\<forall>j. k < j \<and> j < n \<longrightarrow> \<not> same (arr_contents a ! (l + j)))))"
proof (induction n)
  case (Suc n)
  have g: "CFArrayGetValueAtIndex a (int l + int n) = Some (arr_contents a ! (l + n))"
    using GetValueAtIndex_ok[OF Suc.prems(1), of "l + n"] Suc.prems(2) by simp
  show ?case
  proof (cases "same (arr_contents a ! (l + n))")
    case True
    then show ?thesis using g by (intro exI[of _ "int (l + n)"]) (auto simp: add.commute)
  next
    case False
    obtain r where "last_index same a (int l) n = Some r"
      "r = -1 \<and> (\<forall>k < n. \<not> same (arr_contents a ! (l + k))) \<or>
       (\<exists>k < n. r = int (l + k) \<and> same (arr_contents a ! (l + k)) \<and> (\<forall>j. k < j \<and> j < n \<longrightarrow> \<not> same (arr_contents a ! (l + j))))"
      using Suc.IH Suc.prems by auto
    then show ?thesis using g False by (intro exI[of _ r]) (auto simp: less_Suc_eq)
  qed
qed simp

lemma equal_values_ok:
  assumes "arr_inv a" "arr_inv b"
  shows "i + n \<le> length (arr_contents a) \<Longrightarrow> i + n \<le> length (arr_contents b) \<Longrightarrow>
    equal_values same a b (int i) n = Some (list_all2 same (take n (drop i (arr_contents a))) (take n (drop i (arr_contents b))))"
proof (induction n arbitrary: i)
  case (Suc n)
  have "take (Suc n) (drop i (arr_contents c)) = arr_contents c ! i # take n (drop (Suc i) (arr_contents c))" if "i < length (arr_contents c)" for c
    using that by (simp add: Cons_nth_drop_Suc[symmetric])
  then show ?case using Suc.IH[of "Suc i"] Suc.prems GetValueAtIndex_ok[OF assms(1), of i] GetValueAtIndex_ok[OF assms(2), of i]
    by (simp add: CFArrayGetValueAtIndex_def add.commute)
qed simp

lemma Equal_ok:
  assumes "arr_inv a" "arr_inv b" "ac_equal (CFArrayGetCallBacks env a) = ac_equal (CFArrayGetCallBacks env b)"
  shows "CFArrayEqual env a b = Some (list_all2 (same_value env a) (arr_contents a) (arr_contents b))"
proof (cases "length (arr_contents a) = length (arr_contents b)")
  case True
  then show ?thesis using equal_values_ok[OF assms(1,2), of 0 "length (arr_contents a)" "same_value env a"] assms(3)
    count_contents[OF assms(1)] count_contents[OF assms(2)] by (auto simp: CFArrayEqual_def)
next
  case False
  then show ?thesis using count_contents[OF assms(1)] count_contents[OF assms(2)] by (auto simp: CFArrayEqual_def dest: list_all2_lengthD)
qed

lemma GetValues_ok:
  assumes "arr_inv a" "l + n \<le> length (arr_contents a)" "n \<le> length buf"
  shows "CFArrayGetValues a (int l, int n) buf = Some (take n (drop l (arr_contents a)) @ drop n buf)"
proof (cases "n = 0")
  case False
  then have "arr_contents a \<noteq> []" using assms(2) by auto
  then obtain bs off where w: "CFArrayGetBucketsPtr a = Some (bs, off)" "0 \<le> off" "off + arr_count a \<le> int (length bs)"
    "\<And>i. i < length (arr_contents a) \<Longrightarrow> arr_contents a ! i = cell bs (off + int i)"
    using window[OF assms(1)] by blast
  have len: "nat (off + int l) + n \<le> length bs" using w(2,3) count_contents[OF assms(1)] assms(2) by linarith
  have "seg bs (nat (off + int l)) n = take n (drop l (arr_contents a))"
    by (rule nth_equalityI) (use len assms(2) w(2,4) in \<open>auto simp: cell_def seg_nth nat_add_distrib add.assoc\<close>)
  then show ?thesis using False w(1,2) len assms(2,3) by (simp add: CFArrayGetValues_def move_def memmove_put put_def)
qed (simp add: CFArrayGetValues_def)

lemma apply_values_ok:
  "arr_inv a \<Longrightarrow> l + n \<le> length (arr_contents a) \<Longrightarrow> apply_values f a (int l) n c = Some (fold f (take n (drop l (arr_contents a))) c)"
proof (induction n arbitrary: l c)
  case (Suc n)
  have "take (Suc n) (drop l (arr_contents a)) = arr_contents a ! l # take n (drop (Suc l) (arr_contents a))"
    using Suc.prems(2) by (simp add: Cons_nth_drop_Suc[symmetric])
  then show ?case using Suc.IH[of "Suc l"] Suc.prems GetValueAtIndex_ok[OF Suc.prems(1), of l] by (simp add: add.commute)
qed simp

section \<open>Creation and copies\<close>

definition callbacks_of :: "CFArrayCallBacks option \<Rightarrow> CFArrayCallBacks" where
  "callbacks_of c = (case c of None \<Rightarrow> kCFNullArrayCallBacks | Some c \<Rightarrow> c)"

lemma same_callbacks:
  assumes "CFArrayGetCallBacks env a = CFArrayGetCallBacks env b"
  shows "retaining env a = retaining env b" "releasing env a = releasing env b" "same_value env a = same_value env b"
  using assms by (simp_all add: retaining_def releasing_def same_value_def fun_eq_iff)

lemma inline_cells_ok: "n \<le> 2 ^ 28 \<Longrightarrow> inline_cells t (int n) = n"
  by (simp add: inline_cells_def CFArrayGetSizeOfType_def nat_add_distrib nat_mult_distrib)

lemma ArrayInit_ok:
  obtains a where "CFArrayInit env True ty capacity c = Some a" "CFArrayGetCallBacks env a = callbacks_of c" "arr_type a = ty"
    "arr_count a = 0" "arr_store a = None" "arr_log a = []" "arr_mutations a = (case ty of kCFArrayImmutable \<Rightarrow> 0 | kCFArrayDeque \<Rightarrow> 1)"
    "ty = kCFArrayImmutable \<Longrightarrow> length (arr_inline a) = inline_cells (arr_callbacks_type a) capacity"
proof -
  obtain a where a: "CFArrayInit env True ty capacity c = Some a" by (simp add: CFArrayInit_def Let_def)
  have "CFArrayGetCallBacks env a = callbacks_of c"
    using a by (auto simp: CFArrayInit_def Let_def CFArrayGetCallBacks_def callbacks_of_def CFArrayCallBacksMatchNull_def CFArrayCallBacksMatchCFType_def split: option.splits)
  then show ?thesis using that[OF a] a by (auto simp: CFArrayInit_def Let_def)
qed

text \<open>Filling a new immutable array with the values \<open>get\<close> returns.\<close>

lemma immutable_filled:
  assumes "arr_type a = kCFArrayImmutable" "length (arr_inline a) = n" "\<And>k. k < n \<Longrightarrow> get (int k) = Some (v k)" "arr_log a = []"
  shows "\<exists>a'. do { (bs, es) \<leftarrow> copy_in (retaining env a) get 0 (nat (int n)) (arr_inline a);
       Some (log_event es (a\<lparr>arr_inline := bs, arr_count := int n\<rparr>)) } = Some a' \<and> arr_inv a' \<and> arr_type a' = kCFArrayImmutable \<and>
    CFArrayGetCallBacks env a' = CFArrayGetCallBacks env a \<and>
    arr_contents a' = map (\<lambda>k. stored (retaining env a) (v k)) [0..<n] \<and> arr_log a' = retains (retaining env a) (map v [0..<n])"
proof -
  let ?bs = "map (\<lambda>k. stored (retaining env a) (v k)) [0..<n]"
  let ?a = "a\<lparr>arr_inline := ?bs, arr_count := int n\<rparr>"
  have "copy_in (retaining env a) get 0 n (arr_inline a) = Some (?bs, retains (retaining env a) (map v [0..<n]))"
    using copy_in_ok[of 0 n get v "arr_inline a" "retaining env a"] assms(2,3) by (simp add: put_def)
  moreover have "arr_inv ?a" "arr_contents ?a = ?bs" "arr_type ?a = kCFArrayImmutable" "arr_log ?a = []"
    using assms(1,4) by (simp_all add: arr_inv_def arr_contents_def CFArrayGetBucketsPtr_def cell_def)
  moreover have "CFArrayGetCallBacks env (log_event es ?a) = CFArrayGetCallBacks env a" for es
    by (simp add: CFArrayGetCallBacks_def log_event_def cong: CFArrayCallBacksType.case_cong)
  ultimately show ?thesis by simp
qed

lemma Create_ok:
  assumes "n \<le> length vals" "n \<le> 2 ^ 28"
  shows "\<exists>a. CFArrayCreate0 env True vals (int n) c = Some a \<and> arr_inv a \<and> arr_type a = kCFArrayImmutable \<and>
    CFArrayGetCallBacks env a = callbacks_of c \<and>
    arr_contents a = map (stored (retaining env a)) (take n vals) \<and> arr_log a = retains (retaining env a) (take n vals)"
proof -
  obtain a where a: "CFArrayInit env True kCFArrayImmutable (int n) c = Some a" "CFArrayGetCallBacks env a = callbacks_of c"
    "arr_type a = kCFArrayImmutable" "arr_log a = []" "length (arr_inline a) = n"
    by (rule ArrayInit_ok[of env kCFArrayImmutable "int n" c]) (use inline_cells_ok[OF assms(2)] in auto)
  have v: "load_at vals (int k) = Some (vals ! k)" if "k < n" for k using that assms(1) by (simp add: load_at_def load_def)
  have take: "map ((!) vals) [0..<n] = take n vals" "map (\<lambda>k. stored r (vals ! k)) [0..<n] = map (stored r) (take n vals)" for r
    using assms(1) by (auto intro!: nth_equalityI)
  obtain a' where a': "do { (bs, es) \<leftarrow> copy_in (retaining env a) (load_at vals) 0 (nat (int n)) (arr_inline a);
       Some (log_event es (a\<lparr>arr_inline := bs, arr_count := int n\<rparr>)) } = Some a'" "arr_inv a'" "arr_type a' = kCFArrayImmutable"
    "CFArrayGetCallBacks env a' = CFArrayGetCallBacks env a" "arr_contents a' = map (stored (retaining env a)) (take n vals)"
    "arr_log a' = retains (retaining env a) (take n vals)"
    using immutable_filled[where v = "(!) vals" and get = "load_at vals", OF a(3,5) v a(4), of env] unfolding take by blast
  then show ?thesis using a(1,2) same_callbacks(1)[OF a'(4)] by (simp add: CFArrayCreate0_def)
qed

lemma CreateCopy_ok:
  assumes "arr_inv b" "length (arr_contents b) \<le> 2 ^ 28"
  shows "\<exists>a. CFArrayCreateCopy0 env True b = Some a \<and> arr_inv a \<and> arr_type a = kCFArrayImmutable \<and>
    CFArrayGetCallBacks env a = CFArrayGetCallBacks env b \<and>
    arr_contents a = map (stored (retaining env b)) (arr_contents b) \<and> arr_log a = retains (retaining env b) (arr_contents b)"
proof -
  let ?n = "length (arr_contents b)"
  obtain a where a: "CFArrayInit env True kCFArrayImmutable (int ?n) (Some (CFArrayGetCallBacks env b)) = Some a"
    "CFArrayGetCallBacks env a = CFArrayGetCallBacks env b" "arr_type a = kCFArrayImmutable" "arr_log a = []" "length (arr_inline a) = ?n"
    by (rule ArrayInit_ok[of env kCFArrayImmutable "int ?n" "Some (CFArrayGetCallBacks env b)"])
      (use inline_cells_ok[OF assms(2)] in \<open>auto simp: callbacks_of_def\<close>)
  have v: "CFArrayGetValueAtIndex b (int k) = Some (arr_contents b ! k)" if "k < ?n" for k by (rule GetValueAtIndex_ok[OF assms(1) that])
  have all: "map ((!) (arr_contents b)) [0..<?n] = arr_contents b" "map (\<lambda>k. stored r (arr_contents b ! k)) [0..<?n] = map (stored r) (arr_contents b)" for r
    by (auto intro!: nth_equalityI)
  obtain a' where "do { (bs, es) \<leftarrow> copy_in (retaining env a) (CFArrayGetValueAtIndex b) 0 (nat (int ?n)) (arr_inline a);
       Some (log_event es (a\<lparr>arr_inline := bs, arr_count := int ?n\<rparr>)) } = Some a'" "arr_inv a'" "arr_type a' = kCFArrayImmutable"
    "CFArrayGetCallBacks env a' = CFArrayGetCallBacks env a" "arr_contents a' = map (stored (retaining env a)) (arr_contents b)"
    "arr_log a' = retains (retaining env a) (arr_contents b)"
    using immutable_filled[where v = "(!) (arr_contents b)" and get = "CFArrayGetValueAtIndex b", OF a(3,5) v a(4), of env] unfolding all by blast
  then show ?thesis using a(1,2) same_callbacks(1)[OF a(2)] count_contents[OF assms(1)] by (simp add: CFArrayCreateCopy0_def CFArrayGetCount_def)
qed

lemma append_values_ok:
  assumes "\<And>b k. arr_inv b \<Longrightarrow> (\<exists>ys. arr_contents b = xs @ ys) \<Longrightarrow> k < N \<Longrightarrow> CFArrayGetValueAtIndex (other b) (int k) = Some (v k)"
  shows "arr_inv a \<Longrightarrow> arr_type a = kCFArrayDeque \<Longrightarrow> \<exists>ys. arr_contents a = xs @ ys \<Longrightarrow> i + n \<le> N \<Longrightarrow>
    length (arr_contents a) + n \<le> 2 ^ 29 \<Longrightarrow>
    \<exists>a'. append_values env other (int i) n a = Some a' \<and>
      updates n a a' (arr_contents a @ map (\<lambda>k. stored (retaining env a) (v k)) [i..<i + n]) (retains (retaining env a) (map v [i..<i + n]))"
proof (induction n arbitrary: i a)
  case 0
  then show ?case by (simp add: updates_def)
next
  case (Suc n)
  have g: "CFArrayGetValueAtIndex (other a) (int i) = Some (v i)" using assms[OF Suc.prems(1,3)] Suc.prems(4) by simp
  obtain b where b: "CFArrayAppendValue env a (v i) = Some b"
    "updates 1 a b (arr_contents a @ [stored (retaining env a) (v i)]) (retains (retaining env a) [v i])"
    using Append_ok[OF Suc.prems(1,2), of env "v i"] Suc.prems(5) by auto
  note B = updatesD[OF b(2)]
  have pre: "\<exists>ys. arr_contents b = xs @ ys" using Suc.prems(3) B(3) by auto
  have len: "length (arr_contents b) + n \<le> 2 ^ 29" using Suc.prems(5) B(3) by simp
  have ty: "arr_type b = kCFArrayDeque" using B(6) Suc.prems(2) by simp
  obtain c where c: "append_values env other (int (Suc i)) n b = Some c"
    "updates n b c (arr_contents b @ map (\<lambda>k. stored (retaining env b) (v k)) [Suc i..<Suc i + n]) (retains (retaining env b) (map v [Suc i..<Suc i + n]))"
    using Suc.IH[OF B(1) ty pre _ len, of "Suc i"] Suc.prems(4) by auto
  have "append_values env other (int i) (Suc n) a = Some c" using g b(1) c(1) by (simp add: add.commute)
  moreover have "[i..<i + Suc n] = i # [Suc i..<Suc i + n]" by (simp add: upt_conv_Cons)
  ultimately show ?case using updates_trans[OF b(2) c(2)] B(3,7) by simp
qed

lemma SetCapacity_ok:
  assumes "arr_inv a" "arr_type a = kCFArrayDeque" "cap < 2 ^ 30"
    "\<And>d. arr_store a = Some d \<Longrightarrow> dq_capacity d \<le> cap"
  shows "\<exists>a'. CFArraySetCapacity env a cap = Some a' \<and> updates 0 a a' (arr_contents a) []"
proof -
  obtain c where c: "CFArrayDequeRoundUpCapacity cap = Some c" "cap \<le> c" "4 \<le> c" "c \<le> 2 ^ 30" using RoundUpCapacity_ok[OF assms(3)] by blast
  let ?cells = "map (fresh_cell env) [0..<nat c]"
  show ?thesis
  proof (cases "arr_store a")
    case None
    then have "updates 0 a (a\<lparr>arr_store := Some \<lparr>dq_leftIdx = half c, dq_capacity = c, dq_buckets = ?cells\<rparr>\<rparr>) (arr_contents a) []"
      using assms(1,2) c half_bounds[of c]
      by (simp add: updates_def arr_inv_def arr_contents_def CFArrayGetBucketsPtr_def alike_def deque_ok_def)
    then show ?thesis using None assms(2) c(1) by (simp add: CFArraySetCapacity_def)
  next
    case (Some d)
    have d: "0 \<le> dq_leftIdx d" "dq_leftIdx d + arr_count a \<le> dq_capacity d" "int (length (dq_buckets d)) = dq_capacity d" "0 \<le> arr_count a"
      using assms(1,2) Some by (simp_all add: arr_inv_def deque_ok_def)
    obtain bs where bs: "move ?cells 0 (dq_buckets d) 0 (dq_capacity d) = Some bs" "length bs = length ?cells"
      "\<And>i. 0 \<le> i \<Longrightarrow> i < int (length ?cells) \<Longrightarrow> cell bs i = (if 0 \<le> i \<and> i < 0 + dq_capacity d then cell (dq_buckets d) (0 + i - 0) else cell ?cells i)"
      using move_cell[of 0 0 "dq_capacity d" ?cells "dq_buckets d"] assms(4)[OF Some] c(2,3) d by auto
    let ?a = "a\<lparr>arr_store := Some \<lparr>dq_leftIdx = dq_leftIdx d, dq_capacity = c, dq_buckets = bs\<rparr>\<rparr>"
    have same: "arr_contents ?a = arr_contents a"
      using assms(2) Some bs(3) d c(2) assms(4)[OF Some] by (auto simp: arr_contents_def CFArrayGetBucketsPtr_def)
    moreover have "arr_inv ?a" using assms(2) bs(2) d c assms(4)[OF Some] by (simp add: arr_inv_def deque_ok_def)
    ultimately have "updates 0 a ?a (arr_contents a) []" by (simp add: updates_def alike_def)
    then show ?thesis using Some assms(2) c(1) bs(1) by (simp add: CFArraySetCapacity_def)
  qed
qed

lemma CreateMutableCopy_ok:
  assumes "arr_inv b" "length (arr_contents b) \<le> 2 ^ 29"
  shows "\<exists>a. CFArrayCreateMutableCopy0 env True capacity b = Some a \<and> arr_inv a \<and> arr_type a = kCFArrayDeque \<and>
    CFArrayGetCallBacks env a = CFArrayGetCallBacks env b \<and>
    arr_contents a = map (stored (retaining env b)) (arr_contents b) \<and> arr_log a = retains (retaining env b) (arr_contents b)"
proof -
  let ?n = "length (arr_contents b)"
  obtain a where a: "CFArrayInit env True kCFArrayDeque capacity (Some (CFArrayGetCallBacks env b)) = Some a"
    "CFArrayGetCallBacks env a = CFArrayGetCallBacks env b" "arr_type a = kCFArrayDeque" "arr_count a = 0" "arr_store a = None" "arr_log a = []"
    by (rule ArrayInit_ok[of env kCFArrayDeque capacity "Some (CFArrayGetCallBacks env b)"]) (auto simp: callbacks_of_def)
  have inv: "arr_inv a" "arr_contents a = []" using a(3-5) by (simp_all add: arr_inv_def arr_contents_def CFArrayGetBucketsPtr_def)
  have cnt: "CFArrayGetCount b = int ?n" using count_contents[OF assms(1)] by (simp add: CFArrayGetCount_def)
  obtain c where c: "(if 0 = capacity then CFArraySetCapacity env a (CFArrayGetCount b) else Some a) = Some c" "updates 0 a c [] []"
    using SetCapacity_ok[OF inv(1) a(3), of "int ?n" env] a(5) assms(2) inv cnt by (cases "0 = capacity") (auto simp: updates_def)
  note C = updatesD[OF c(2)]
  obtain a' where a': "append_values env (\<lambda>_. b) 0 ?n c = Some a'"
    "updates ?n c a' (map (\<lambda>k. stored (retaining env c) (arr_contents b ! k)) [0..<?n]) (retains (retaining env c) (map ((!) (arr_contents b)) [0..<?n]))"
    using append_values_ok[where xs = "[]" and N = ?n and other = "\<lambda>_. b" and v = "(!) (arr_contents b)" and a = c and i = 0 and n = ?n and env = env]
      GetValueAtIndex_ok[OF assms(1)] C(1,3,6) a(3) assms(2) by auto
  note A = updatesD[OF a'(2)]
  have "CFArrayCreateMutableCopy0 env True capacity b = Some a'"
    using a(1) c(1) a'(1) cnt by (simp add: CFArrayCreateMutableCopy0_def)
  moreover have "CFArrayGetCallBacks env a' = CFArrayGetCallBacks env b" using alike_callbacks(1)[OF A(2)] alike_callbacks(1)[OF C(2)] a(2) by simp
  moreover have "map ((!) (arr_contents b)) [0..<?n] = arr_contents b" "map (\<lambda>k. stored r (arr_contents b ! k)) [0..<?n] = map (stored r) (arr_contents b)" for r
    by (auto intro!: nth_equalityI)
  ultimately show ?thesis using A C a(3,6) same_callbacks(1)[OF a(2)] by simp
qed

lemma AppendArray_ok:
  assumes "arr_inv a" "arr_type a = kCFArrayDeque" "arr_inv b" "l + n \<le> length (arr_contents b)" "length (arr_contents a) + n \<le> 2 ^ 29"
    "other = None \<and> b = a \<or> other = Some b"
  shows "\<exists>a'. CFArrayAppendArray env a other (int l, int n) = Some a' \<and>
    updates n a a' (arr_contents a @ map (stored (retaining env a)) (take n (drop l (arr_contents b)))) (retains (retaining env a) (take n (drop l (arr_contents b))))"
proof -
  define xs where "xs = (if other = None then arr_contents a else [])"
  define f where "f = (case other of None \<Rightarrow> (\<lambda>a. a) | Some b \<Rightarrow> (\<lambda>_. b))"
  have g: "CFArrayGetValueAtIndex (f c) (int k) = Some (arr_contents b ! k)" if "arr_inv c" "\<exists>ys. arr_contents c = xs @ ys" "k < length (arr_contents b)" for c k
    using that assms(3,6) GetValueAtIndex_ok[of "f c" k] by (auto simp: f_def xs_def nth_append)
  have "map ((!) (arr_contents b)) [l..<l + n] = take n (drop l (arr_contents b))"
    "map (\<lambda>k. stored r (arr_contents b ! k)) [l..<l + n] = map (stored r) (take n (drop l (arr_contents b)))" for r
    using assms(4) by (auto intro!: nth_equalityI)
  moreover have "\<exists>ys. arr_contents a = xs @ ys" by (simp add: xs_def)
  ultimately show ?thesis
    using append_values_ok[where xs = xs and N = "length (arr_contents b)" and other = f and v = "(!) (arr_contents b)", OF g assms(1,2) _ assms(4,5), of env]
    by (auto simp: CFArrayAppendArray_def f_def[symmetric])
qed

section \<open>Sorting\<close>

text \<open>A comparator whose results for a pair and the swapped pair agree.\<close>

definition proper_order :: "('a \<Rightarrow> 'a \<Rightarrow> CFComparisonResult) \<Rightarrow> bool" where
  "proper_order cmp \<longleftrightarrow> total_preorder (cmp_le cmp) \<and> (\<forall>a b. comparison_value (cmp a b) < 0 \<longleftrightarrow> \<not> cmp_le cmp b a)"

fun bubble :: "('a \<Rightarrow> 'a \<Rightarrow> bool) \<Rightarrow> 'a list \<Rightarrow> 'a list" where
  "bubble le (x # y # zs) = (if le x y then x # bubble le (y # zs) else y # bubble le (x # zs))"
| "bubble le xs = xs"

lemma length_bubble [simp]: "length (bubble le xs) = length xs"
  by (induction le xs rule: bubble.induct) auto

lemma stable_perm_Cons: "stable_perm le xs ys \<Longrightarrow> stable_perm le (x # xs) (x # ys)"
  by (auto simp: stable_perm_def)

lemma bubble_stable: "total_preorder le \<Longrightarrow> stable_perm le xs (bubble le xs)"
proof (induction le xs rule: bubble.induct)
  case (1 le x y zs)
  show ?case
  proof (cases "le x y")
    case True
    then show ?thesis using 1 by (simp add: stable_perm_Cons)
  next
    case False
    have "stable_perm le (x # y # zs) (y # x # zs)" using stable_perm_swap[OF 1(3) False, of "[]" zs] by simp
    moreover have "stable_perm le (y # x # zs) (y # bubble le (x # zs))" using 1 False by (simp add: stable_perm_Cons)
    ultimately show ?thesis using False stable_perm_trans by auto
  qed
qed auto

lemma bubble_max: "total_preorder le \<Longrightarrow> z \<in> set (bubble le xs) \<Longrightarrow> le z (last (bubble le xs))"
proof (induction le xs arbitrary: z rule: bubble.induct)
  case (1 le x y zs)
  have ne: "bubble le (w # zs) \<noteq> []" for w by (metis length_bubble length_0_conv list.distinct(1))
  have mem: "w \<in> set (bubble le (w # zs))" for w
    using bubble_stable[OF 1(3), of "w # zs"] unfolding stable_perm_def by (metis list.set_intros(1) mset_eq_setD)
  show ?case
  proof (cases "le x y")
    case True
    have "le z (last (bubble le (y # zs)))" if "z = x"
      using 1(1)[OF True 1(3) mem[of y]] True that total_preorderD(3)[OF 1(3)] by blast
    then show ?thesis using True 1(1)[OF True 1(3)] 1(4) ne by auto
  next
    case False
    have "le z (last (bubble le (x # zs)))" if "z = y"
      using 1(2)[OF False 1(3) mem[of x]] False that total_preorderD(3)[OF 1(3)] not_le_swap[OF 1(3) False] by blast
    then show ?thesis using False 1(2)[OF False 1(3)] 1(4) ne by auto
  qed
qed (auto simp: total_preorderD)

text \<open>Arrays that differ in their contents and mutation count only.\<close>

definition permuted :: "CFArray \<Rightarrow> CFArray \<Rightarrow> ptr list \<Rightarrow> bool" where
  "permuted a a' xs \<longleftrightarrow> arr_inv a' \<and> alike a a' \<and> arr_contents a' = xs \<and> arr_log a' = arr_log a"

lemma permuted_trans: "permuted a b xs \<Longrightarrow> permuted b c ys \<Longrightarrow> permuted a c ys"
  using alike_trans[of a b c] by (simp add: permuted_def)

lemma updates_permuted: "updates k a a' xs [] \<Longrightarrow> permuted a a' xs"
  by (simp add: updates_def permuted_def)

lemma zsort_pass_ok:
  assumes "proper_order cmp"
  shows "arr_inv a \<Longrightarrow> arr_contents a = us @ ys @ vs \<Longrightarrow> length ys = Suc n \<Longrightarrow>
    \<exists>a'. zsort_pass cmp a (int (length us)) n = Some a' \<and> permuted a a' (us @ bubble (cmp_le cmp) ys @ vs)"
proof (induction n arbitrary: a us ys)
  case 0
  then have "bubble (cmp_le cmp) ys = ys" by (cases ys) auto
  then show ?case using 0 by (simp add: permuted_def)
next
  case (Suc n)
  obtain x y zs where ys: "ys = x # y # zs" "length zs = n" using Suc.prems(3) by (auto simp: length_Suc_conv)
  let ?i = "length us"
  have g: "CFArrayGetValueAtIndex a (int ?i) = Some x" "CFArrayGetValueAtIndex a (int ?i + 1) = Some y"
    using GetValueAtIndex_ok[OF Suc.prems(1), of ?i] GetValueAtIndex_ok[OF Suc.prems(1), of "Suc ?i"] Suc.prems(2) ys
    by (simp_all add: nth_append add.commute)
  define p where "p = (if cmp_le cmp x y then (x, y) else (y, x))"
  obtain b where b: "(if comparison_value (cmp y x) < 0 then CFArrayExchangeValuesAtIndices a (int ?i) (int ?i + 1) else Some a) = Some b"
    "permuted a b (us @ fst p # snd p # zs @ vs)"
  proof (cases "cmp_le cmp x y")
    case True
    then show ?thesis using that[of a] Suc.prems(1,2) ys assms unfolding p_def by (simp add: permuted_def proper_order_def)
  next
    case False
    have "(us @ x # y # zs @ vs)[?i := y, Suc ?i := x] = us @ y # x # zs @ vs" by (simp add: list_update_append)
    then show ?thesis using that Exchange_ok[OF Suc.prems(1), of ?i "Suc ?i"] updates_permuted False Suc.prems(2) ys assms unfolding p_def
      by (fastforce simp: proper_order_def nth_append add.commute)
  qed
  have B: "arr_inv b" "arr_contents b = (us @ [fst p]) @ (snd p # zs) @ vs" using b(2) by (simp_all add: permuted_def)
  obtain c where c: "zsort_pass cmp b (int (length (us @ [fst p]))) n = Some c" "permuted b c ((us @ [fst p]) @ bubble (cmp_le cmp) (snd p # zs) @ vs)"
    using Suc.IH[OF B] ys(2) by auto
  have "(us @ [fst p]) @ bubble (cmp_le cmp) (snd p # zs) @ vs = us @ bubble (cmp_le cmp) ys @ vs" using ys(1) by (simp add: p_def)
  moreover have "zsort_pass cmp a (int ?i) (Suc n) = Some c" using g b(1) c(1) by (simp add: add.commute)
  ultimately show ?case using permuted_trans[OF b(2) c(2)] by metis
qed

lemma CFZSort_ok:
  assumes "proper_order cmp"
  shows "arr_inv a \<Longrightarrow> arr_contents a = us @ ys @ vs \<Longrightarrow> length ys = n \<Longrightarrow>
    \<exists>a' zs. CFZSort cmp a (int (length us)) n = Some a' \<and> permuted a a' (us @ zs @ vs) \<and> stable_sort_of (cmp_le cmp) ys zs"
proof (induction n arbitrary: a ys vs)
  case 0
  then show ?case by (intro exI[of _ a] exI[of _ "[]"]) (auto simp: permuted_def stable_sort_small)
next
  case (Suc n)
  let ?le = "cmp_le cmp"
  have tp: "total_preorder ?le" using assms by (simp add: proper_order_def)
  show ?case
  proof (cases "n = 0")
    case True
    then show ?thesis using Suc.prems stable_sort_small[of ys ?le] by (intro exI[of _ a] exI[of _ ys]) (auto simp: permuted_def)
  next
    case False
    obtain b where b: "zsort_pass cmp a (int (length us)) n = Some b" "permuted a b (us @ bubble ?le ys @ vs)"
      using zsort_pass_ok[OF assms Suc.prems] by blast
    have ne: "bubble ?le ys \<noteq> []" using Suc.prems(3) by (metis length_bubble length_0_conv nat.distinct(1))
    define bs m where "bs = butlast (bubble ?le ys)" and "m = last (bubble ?le ys)"
    have split: "bubble ?le ys = bs @ [m]" "length bs = n" using ne Suc.prems(3) unfolding bs_def m_def by simp_all
    have B: "arr_inv b" "arr_contents b = us @ bs @ (m # vs)" using b(2) split(1) by (simp_all add: permuted_def)
    obtain c zs where c: "CFZSort cmp b (int (length us)) n = Some c" "permuted b c (us @ zs @ m # vs)" "stable_sort_of ?le bs zs"
      using Suc.IH[OF B split(2)] by blast
    have "stable_perm ?le (bs @ [m]) (zs @ [m])" using c(3) by (simp add: stable_sort_of_def stable_perm_append)
    then have "stable_perm ?le ys (zs @ [m])" using bubble_stable[OF tp, of ys] stable_perm_trans split(1) by metis
    moreover have "?le z m" if "z \<in> set zs" for z
    proof -
      have "z \<in> set bs" using c(3) that unfolding stable_sort_of_def stable_perm_def by (metis mset_eq_setD)
      then show ?thesis using bubble_max[OF tp, of z ys] split(1) by simp
    qed
    then have "sorted_wrt ?le (zs @ [m])" using c(3) by (simp add: stable_sort_of_def sorted_wrt_append)
    ultimately show ?thesis using b(1) c(1) False permuted_trans[OF b(2) c(2)]
      by (intro exI[of _ c] exI[of _ "zs @ [m]"]) (simp add: stable_sort_of_def)
  qed
qed

lemma sort_by_copy_ok:
  assumes "arr_inv a" "l + n \<le> length (arr_contents a)" "length (arr_contents a) \<le> 2 ^ 29" "total_preorder (cmp_le cmp)" "valid_schedule schedule"
  obtains ys where "stable_sort_of (cmp_le cmp) (take n (drop l (arr_contents a))) ys"
    "sort_by_copy env immutable cmp schedule cores junk a (int l, int n) =
       (if immutable then Some a else CFArrayReplaceValues env a (int l, int n) ys (int n))"
proof -
  let ?seg = "take n (drop l (arr_contents a))"
  have len: "length ?seg = n" using assms(2) by simp
  have small: "length ?seg \<le> INTPTR_MAX div 8" using len assms(2,3) by (simp add: INTPTR_MAX_def)
  obtain ys where ys: "CFQSortArray cmp schedule cores junk ?seg n 8 = Some ys" "stable_sort_of (cmp_le cmp) ?seg ys"
    using CFQSortArray_ok[OF assms(4,5) small, of 8] unfolding len by auto
  moreover have "CFArrayGetValues a (int l, int n) (map (fresh_cell env) [0..<n]) = Some ?seg"
    using GetValues_ok[OF assms(1,2), of "map (fresh_cell env) [0..<n]"] by simp
  ultimately show ?thesis using that[OF ys(2)] by (simp add: sort_by_copy_def)
qed

lemma SortValues_ok:
  assumes "arr_inv a" "arr_type a = kCFArrayDeque" "l + n \<le> length (arr_contents a)" "length (arr_contents a) \<le> 2 ^ 29"
    "proper_order cmp" "valid_schedule schedule"
  shows "\<exists>a' ys. CFArraySortValues env cmp schedule cores junk a (int l, int n) = Some a' \<and>
    stable_sort_of (cmp_le cmp) (take n (drop l (arr_contents a))) ys \<and>
    (if (retaining env a \<noteq> None) = releasing env a \<and> 2 \<le> n
     then updates 1 a a' (take l (arr_contents a) @ map (stored (retaining env a)) ys @ drop (l + n) (arr_contents a))
       (retains (retaining env a) ys @ releases (releasing env a) (take n (drop l (arr_contents a))))
     else permuted a a' (take l (arr_contents a) @ ys @ drop (l + n) (arr_contents a)))"
proof -
  let ?xs = "arr_contents a" and ?seg = "take n (drop l (arr_contents a))"
  have parts: "?xs = take l ?xs @ ?seg @ drop (l + n) ?xs" by (metis append_take_drop_id drop_drop add.commute)
  have len: "length (take l ?xs) = l" "length ?seg = n" using assms(3) by simp_all
  consider (bubble) "(retaining env a \<noteq> None) \<noteq> releasing env a" | (small) "(retaining env a \<noteq> None) = releasing env a" "n < 2"
    | (copy) "(retaining env a \<noteq> None) = releasing env a" "2 \<le> n" by linarith
  then show ?thesis
  proof cases
    case bubble
    then show ?thesis using CFZSort_ok[OF assms(5,1) parts len(2)] assms(2) unfolding len(1) by (auto simp: CFArraySortValues_def Let_def)
  next
    case small
    then have "CFArraySortValues env cmp schedule cores junk a (int l, int n) = Some a" by (simp add: CFArraySortValues_def Let_def)
    moreover have "permuted a a (take l ?xs @ ?seg @ drop (l + n) ?xs)" using assms(1) parts by (simp add: permuted_def)
    moreover have "stable_sort_of (cmp_le cmp) ?seg ?seg" using stable_sort_small small(2) len(2) by metis
    ultimately show ?thesis using small by auto
  next
    case copy
    have tp: "total_preorder (cmp_le cmp)" using assms(5) by (simp add: proper_order_def)
    obtain ys where ys: "stable_sort_of (cmp_le cmp) ?seg ys"
      "sort_by_copy env False cmp schedule cores junk a (int l, int n) = CFArrayReplaceValues env a (int l, int n) ys (int n)"
      using sort_by_copy_ok[OF assms(1,3,4) tp assms(6), of env False] by auto
    have "length ys = n" using ys(1) len(2) stable_perm_length unfolding stable_sort_of_def by fastforce
    then obtain a' where "CFArrayReplaceValues env a (int l, int n) ys (int n) = Some a'"
      "updates 1 a a' (take l ?xs @ map (stored (retaining env a)) ys @ drop (l + n) ?xs) (retains (retaining env a) ys @ releases (releasing env a) ?seg)"
      using ReplaceValues_ok[OF assms(1-3), of n ys env] assms(3,4) by auto
    then show ?thesis using copy ys assms(2) by (auto simp: CFArraySortValues_def Let_def)
  qed
qed

section \<open>Binary search\<close>

lemma bsearch_probe_ok:
  assumes "\<And>i. i < n \<Longrightarrow> CFArrayGetValueAtIndex a (int l + int i) = Some (xs ! i)" "\<And>i. i < n \<Longrightarrow> below (xs ! i) \<longleftrightarrow> i < k"
  shows "-1 \<le> idx \<Longrightarrow> idx + 1 \<le> int k \<Longrightarrow> int k \<le> idx + 2 ^ lg \<Longrightarrow> idx + 2 ^ lg \<le> int n \<Longrightarrow>
    bsearch_probe below a (int l) lg idx = Some (int k - 1)"
proof (induction lg arbitrary: idx)
  case (Suc lg)
  define j where "j = nat (idx + 2 ^ lg)"
  have pos: "(1 :: int) \<le> 2 ^ lg" by simp
  have dbl: "(2 :: int) ^ Suc lg = 2 ^ lg + 2 ^ lg" by simp
  have j: "idx + 2 ^ lg = int j" using Suc.prems(1) pos unfolding j_def by linarith
  have jn: "j < n" using Suc.prems(4) pos dbl j by linarith
  have "CFArrayGetValueAtIndex a (int l + idx + 2 ^ lg) = Some (xs ! j)" using assms(1)[OF jn] j by (simp add: add.assoc)
  then have "bsearch_probe below a (int l) (Suc lg) idx = bsearch_probe below a (int l) lg (if j < k then idx + 2 ^ lg else idx)"
    using assms(2)[OF jn] by simp
  also have "\<dots> = Some (int k - 1)"
  proof (cases "j < k")
    case True
    have "bsearch_probe below a (int l) lg (idx + 2 ^ lg) = Some (int k - 1)"
      by (rule Suc.IH) (use Suc.prems pos dbl j True in linarith)+
    then show ?thesis using True by simp
  next
    case False
    have "bsearch_probe below a (int l) lg idx = Some (int k - 1)"
      by (rule Suc.IH) (use Suc.prems pos dbl j False in linarith)+
    then show ?thesis using False by simp
  qed
  finally show ?case .
qed simp

lemma flsl_lg:
  assumes "0 < n"
  shows "2 ^ (flsl n - 1) \<le> n" "n < 2 * 2 ^ (flsl n - 1)"
proof -
  have p: "0 < flsl n" using flsl_pos[OF assms] by simp
  then have "n < 2 ^ Suc (flsl n - 1)" using flsl_bound[of n] by simp
  then show "n < 2 * 2 ^ (flsl n - 1)" by simp
  show "2 ^ (flsl n - 1) \<le> n" using p flsl_iff[of n "flsl n - 1"] by (simp add: not_less[symmetric])
qed

text \<open>The number of values that compare below the one searched for.\<close>

lemma BSearch_ok:
  assumes "arr_inv a" "l + n \<le> length (arr_contents a)" "n < 2 ^ 31" "proper_order cmp"
    "sorted_wrt (cmp_le cmp) (take n (drop l (arr_contents a)))"
  shows "\<exists>k \<le> n. CFArrayBSearchValues cmp a (int l, int n) v = Some (int (l + k)) \<and>
    (\<forall>i < n. (\<not> cmp_le cmp v (take n (drop l (arr_contents a)) ! i)) = (i < k))"
proof -
  let ?seg = "take n (drop l (arr_contents a))" and ?below = "\<lambda>x. \<not> cmp_le cmp v x"
  define k where "k = length (filter ?below ?seg)"
  have tp: "total_preorder (cmp_le cmp)" and lt: "\<And>a b. comparison_value (cmp a b) < 0 \<longleftrightarrow> \<not> cmp_le cmp b a"
    using assms(4) by (simp_all add: proper_order_def)
  have len: "length ?seg = n" using assms(2) by simp
  have g: "CFArrayGetValueAtIndex a (int l + int i) = Some (?seg ! i)" if "i < n" for i
    using GetValueAtIndex_ok[OF assms(1), of "l + i"] that assms(2) by simp
  have below: "?below (?seg ! i) \<longleftrightarrow> i < k" if "i < n" for i
  proof -
    have down: "cmp_le cmp a b \<Longrightarrow> ?below b \<Longrightarrow> ?below a" for a b using total_preorderD(3)[OF tp] by blast
    have "length (filter ?below (take m ?seg)) = min m k" for m
      unfolding k_def by (rule filter_take_sorted[OF assms(5)]) (rule down)
    from this[of i] this[of "Suc i"] show ?thesis
      using that len by (cases "?below (?seg ! i)") (auto simp: take_Suc_conv_app_nth simp del: take_take)
  qed
  have kn: "k \<le> n" unfolding k_def using length_filter_le[of ?below ?seg] len by simp
  have "CFArrayBSearchValues cmp a (int l, int n) v = Some (int (l + k))"
  proof (cases "n = 0")
    case True
    then show ?thesis using kn by (simp add: CFArrayBSearchValues_def)
  next
    case n: False
    have last: "CFArrayGetValueAtIndex a (int l + int n - 1) = Some (?seg ! (n - 1))" using g[of "n - 1"] n by (simp add: of_nat_diff add_diff_eq)
    have first: "CFArrayGetValueAtIndex a (int l) = Some (?seg ! 0)" using g[of 0] n by simp
    define lg where "lg = flsl n - 1"
    have lg: "2 ^ lg \<le> n" "n < 2 * 2 ^ lg" "lg < 31" using flsl_lg[of n] flsl_le[OF assms(3)] n unfolding lg_def by auto
    have ilg: "(2 :: int) ^ lg \<le> int n" "int n < 2 * 2 ^ lg" "int (2 ^ lg - 1) = 2 ^ lg - 1" using lg(1,2) by (simp_all add: of_nat_diff)
      (metis of_nat_less_iff of_nat_mult of_nat_numeral of_nat_power)
    have lgn: "2 ^ lg - 1 < n" using lg(1) n by linarith
    have probe: "CFArrayGetValueAtIndex a (int l + -1 + 2 ^ lg) = Some (?seg ! (2 ^ lg - 1))" using g[OF lgn] ilg(3) by (simp add: algebra_simps)
    consider "k = n" | "k < n" "\<not> cmp_le cmp (?seg ! 0) v" | "k < n" "cmp_le cmp (?seg ! 0) v" using kn by linarith
    then show ?thesis
    proof cases
      case 1
      then show ?thesis using n last below[of "n - 1"] lt by (simp add: CFArrayBSearchValues_def)
    next
      case 2
      then have "k = 0" using below[of 0] n not_le_swap[OF tp] by auto
      then show ?thesis using 2 n last first below[of "n - 1"] lt by (simp add: CFArrayBSearchValues_def)
    next
      case 3
      have "2 ^ lg \<le> k \<longleftrightarrow> ?below (?seg ! (2 ^ lg - 1))" unfolding below[OF lgn] by (simp add: Suc_le_eq[symmetric])
      moreover have "bsearch_probe ?below a (int l) lg (if 2 ^ lg \<le> k then int n - 2 ^ lg else -1) = Some (int k - 1)"
      proof (cases "2 ^ lg \<le> k")
        case True
        then have "(2 :: int) ^ lg \<le> int k" by (metis of_nat_le_iff of_nat_numeral of_nat_power)
        then have "bsearch_probe ?below a (int l) lg (int n - 2 ^ lg) = Some (int k - 1)"
          by (intro bsearch_probe_ok[where n = n and xs = ?seg] g below) (use ilg kn in linarith)+
        then show ?thesis using True by simp
      next
        case False
        then have "int k < (2 :: int) ^ lg" by (metis not_le of_nat_less_iff of_nat_numeral of_nat_power)
        then have "bsearch_probe ?below a (int l) lg (-1) = Some (int k - 1)"
          by (intro bsearch_probe_ok[where n = n and xs = ?seg] g below) (use ilg kn in linarith)+
        then show ?thesis using False by simp
      qed
      moreover have "\<not> n - Suc 0 < k" "flsl n - Suc 0 = lg" using 3(1) by (auto simp: lg_def)
      ultimately show ?thesis using 3 n last first below[of "n - 1"] lt probe lg(3)
        by (cases "2 ^ lg \<le> k") (simp_all add: CFArrayBSearchValues_def Let_def)
    qed
  qed
  then show ?thesis using kn below by blast
qed

section \<open>Enumeration\<close>

lemma FastEnumeration_ok:
  assumes "arr_inv a" "arr_contents a \<noteq> []" "\<not> fs_atend st"
  shows "\<exists>st' bs off. CFArrayFastEnumeration a st = Some (st', int (length (arr_contents a))) \<and> fs_items st' = (bs, off) \<and>
    map (\<lambda>i. cell bs (off + int i)) [0..<length (arr_contents a)] = arr_contents a \<and>
    CFArrayFastEnumeration a st' = Some (st', 0) \<and> (arr_type a = kCFArrayDeque \<longrightarrow> fs_mutations st' = arr_mutations a)"
proof -
  obtain bs off where w: "CFArrayGetBucketsPtr a = Some (bs, off)" "\<And>i. i < length (arr_contents a) \<Longrightarrow> arr_contents a ! i = cell bs (off + int i)"
    using window[OF assms(1,2)] by metis
  have "map (\<lambda>i. cell bs (off + int i)) [0..<length (arr_contents a)] = arr_contents a" using w(2) by (auto intro!: nth_equalityI)
  then show ?thesis using w(1) assms(2,3) count_contents[OF assms(1)] by (simp add: CFArrayFastEnumeration_def)
qed

section \<open>The properties\<close>

text \<open>C6: On a mutable array of less than \<open>2 ^ 29\<close> values the mutating operations succeed and are the list operations on its
  contents, wherever the values lie in the deque and whether it moves, shifts or grows: replacing a range, inserting,
  appending, setting, exchanging, removing one or all. New values are stored as the retain callback returns them, retained
  before the replaced ones are released, and each operation counts as one mutation.\<close>

theorem Array_mutations_refine:
  assumes "arr_inv a" "arr_type a = kCFArrayDeque" "length xs < 2 ^ 29" "xs = arr_contents a" "r = retaining env a" "rel = releasing env a"
  shows "(\<forall>l n vals. l + n \<le> length xs \<and> length xs - n + length vals \<le> 2 ^ 29 \<longrightarrow>
      (\<exists>a'. CFArrayReplaceValues env a (int l, int n) vals (int (length vals)) = Some a' \<and>
        updates 1 a a' (take l xs @ map (stored r) vals @ drop (l + n) xs) (retains r vals @ releases rel (take n (drop l xs))))) \<and>
    (\<forall>i v. i \<le> length xs \<longrightarrow> (\<exists>a'. CFArrayInsertValueAtIndex env a (int i) v = Some a' \<and>
        updates 1 a a' (take i xs @ [stored r v] @ drop i xs) (retains r [v]))) \<and>
    (\<forall>v. (\<exists>a'. CFArrayAppendValue env a v = Some a' \<and> updates 1 a a' (xs @ [stored r v]) (retains r [v])) \<and>
        CFArraySetValueAtIndex env a (int (length xs)) v = CFArrayAppendValue env a v) \<and>
    (\<forall>i v. i < length xs \<longrightarrow> (\<exists>a'. CFArraySetValueAtIndex env a (int i) v = Some a' \<and>
        updates 1 a a' (xs[i := stored r v]) (retains r [v] @ releases rel [xs ! i]))) \<and>
    (\<forall>i j. i < length xs \<and> j < length xs \<longrightarrow> (\<exists>a'. CFArrayExchangeValuesAtIndices a (int i) (int j) = Some a' \<and>
        updates 1 a a' (xs[i := xs ! j, j := xs ! i]) [])) \<and>
    (\<forall>i. i < length xs \<longrightarrow> (\<exists>a'. CFArrayRemoveValueAtIndex env a (int i) = Some a' \<and>
        updates 1 a a' (take i xs @ drop (Suc i) xs) (releases rel [xs ! i]))) \<and>
    (\<exists>a'. CFArrayRemoveAllValues env a = Some a' \<and> updates 1 a a' [] (releases rel xs))"
proof -
  have len: "length (arr_contents a) < 2 ^ 29" "length (arr_contents a) \<le> 2 ^ 29" using assms(3,4) by simp_all
  show ?thesis unfolding assms(4-6)
  proof (intro conjI allI impI)
    fix l n and vals :: "ptr list"
    assume h: "l + n \<le> length (arr_contents a) \<and> length (arr_contents a) - n + length vals \<le> 2 ^ 29"
    show "\<exists>a'. CFArrayReplaceValues env a (int l, int n) vals (int (length vals)) = Some a' \<and>
        updates 1 a a' (take l (arr_contents a) @ map (stored (retaining env a)) vals @ drop (l + n) (arr_contents a))
          (retains (retaining env a) vals @ releases (releasing env a) (take n (drop l (arr_contents a))))"
      using ReplaceValues_ok[OF assms(1,2) conjunct1[OF h] order_refl conjunct2[OF h], of env] by (simp only: take_all order_refl)
  qed (use Insert_ok[OF assms(1,2) _ len(1)] Append_ok[OF assms(1,2) len(1)] SetValue_end[OF assms(1,2) len(1)] SetValue_ok[OF assms(1,2)]
      Exchange_ok[OF assms(1)] Remove_ok[OF assms(1,2) _ len(2)] RemoveAll_ok[OF assms(1,2)] in blast)+
qed

text \<open>A mutable array of CFType objects with three values in a deque of eight cells.\<close>

definition sample_env :: array_env where
  "sample_env = \<lparr>kCFTypeArrayCallBacks = \<lparr>ac_retain = 1000, ac_release = 1001, ac_copyDescription = 1002, ac_equal = 1003\<rparr>,
     retain_at = (\<lambda>_ v. v), equal_at = (\<lambda>_ v w. v mod 10 = w mod 10), fresh_cell = (\<lambda>_. 77)\<rparr>"

definition sample_array :: CFArray where
  "sample_array = \<lparr>arr_type = kCFArrayDeque, arr_callbacks_type = kCFArrayHasCFTypeCallBacks, arr_callbacks = kCFNullArrayCallBacks,
     arr_inline = [], arr_count = 3, arr_mutations = 4, arr_mutInProgress = 0,
     arr_store = Some \<lparr>dq_leftIdx = 2, dq_capacity = 8, dq_buckets = [0, 0, 30, 12, 25, 0, 0, 0]\<rparr>, arr_log = []\<rparr>"

lemma sample_array_ok: "arr_inv sample_array" "arr_type sample_array = kCFArrayDeque" "arr_contents sample_array = [30, 12, 25]"
  by (simp_all add: sample_array_def arr_inv_def deque_ok_def arr_contents_def CFArrayGetBucketsPtr_def cell_def numeral_3_eq_3 numeral_nat)

lemma sample_array_callbacks: "retaining sample_env sample_array = Some (\<lambda>v. v)" "releasing sample_env sample_array"
  by (simp_all add: sample_env_def sample_array_def retaining_def releasing_def CFArrayGetCallBacks_def fun_eq_iff)

theorem Array_mutations_refine_witness:
  "(\<exists>a'. CFArrayReplaceValues sample_env sample_array (1, 1) [40, 41, 42] 3 = Some a' \<and> arr_contents a' = [30, 40, 41, 42, 25] \<and>
      arr_log a' = [Retain 40, Retain 41, Retain 42, Release 12]) \<and>
   (\<exists>a'. CFArrayExchangeValuesAtIndices sample_array 0 2 = Some a' \<and> arr_contents a' = [25, 12, 30] \<and> arr_mutations a' = 5)"
proof -
  have "length (arr_contents sample_array) < 2 ^ 29" by (simp add: sample_array_ok)
  note T = Array_mutations_refine[OF sample_array_ok(1,2) this refl refl refl, of sample_env]
  have "\<exists>a'. CFArrayReplaceValues sample_env sample_array (1, 1) [40, 41, 42] 3 = Some a' \<and> updates 1 sample_array a' [30, 40, 41, 42, 25] [Retain 40, Retain 41, Retain 42, Release 12]"
    using T[THEN conjunct1, rule_format, of 1 1 "[40, 41, 42]"] by (simp add: sample_array_ok sample_array_callbacks stored_def retains_def releases_def)
  moreover have "\<exists>a'. CFArrayExchangeValuesAtIndices sample_array 0 2 = Some a' \<and> updates 1 sample_array a' [25, 12, 30] []"
    using T[THEN conjunct2, THEN conjunct2, THEN conjunct2, THEN conjunct2, THEN conjunct1, rule_format, of 0 2]
    by (simp add: sample_array_ok)
  moreover have "arr_mutations sample_array = 4" "arr_log sample_array = []" by (simp_all add: sample_array_def)
  ultimately show ?thesis by (auto simp: updates_def)
qed

text \<open>C34: The readers of an array return what its contents say: the count, the value at an index and the error value out of
  range, the values of a range, the number of values identical or equal to a given one, whether there is one, the first and
  the last index of one or \<open>-1\<close>, the fold of an applier; an enumeration hands out all values once.\<close>

theorem Array_queries_correct:
  assumes "arr_inv a" "l + n \<le> length xs" "xs = arr_contents a" "same = same_value env a v" "part = take n (drop l xs)"
  shows "CFArrayGetCount a = int (length xs) \<and>
    (\<forall>i. CFArrayCheckAndGetValueAtIndex a i = Some (if 0 \<le> i \<and> i < int (length xs) then xs ! nat i else -1)) \<and>
    (\<forall>buf. n \<le> length buf \<longrightarrow> CFArrayGetValues a (int l, int n) buf = Some (part @ drop n buf)) \<and>
    CFArrayGetCountOfValue env a (int l, int n) v = Some (int (length (filter same part))) \<and>
    CFArrayContainsValue env a (int l, int n) v = Some (\<exists>x \<in> set part. same x) \<and>
    (\<exists>i. CFArrayGetFirstIndexOfValue env a (int l, int n) v = Some i \<and> (i = -1 \<and> (\<forall>k < n. \<not> same (xs ! (l + k))) \<or>
       (\<exists>k < n. i = int (l + k) \<and> same (xs ! (l + k)) \<and> (\<forall>j < k. \<not> same (xs ! (l + j)))))) \<and>
    (\<exists>i. CFArrayGetLastIndexOfValue env a (int l, int n) v = Some i \<and> (i = -1 \<and> (\<forall>k < n. \<not> same (xs ! (l + k))) \<or>
       (\<exists>k < n. i = int (l + k) \<and> same (xs ! (l + k)) \<and> (\<forall>j. k < j \<and> j < n \<longrightarrow> \<not> same (xs ! (l + j)))))) \<and>
    CFArrayApplyFunction a (int l, int n) f c = Some (fold f part c) \<and>
    (\<forall>st. xs \<noteq> [] \<and> \<not> fs_atend st \<longrightarrow> (\<exists>st' bs off. CFArrayFastEnumeration a st = Some (st', int (length xs)) \<and> fs_items st' = (bs, off) \<and>
       map (\<lambda>i. cell bs (off + int i)) [0..<length xs] = xs \<and> CFArrayFastEnumeration a st' = Some (st', 0)))"
proof -
  have ln: "l + n \<le> length (arr_contents a)" using assms(2,3) by simp
  have cnt: "arr_count a = int (length xs)" using count_contents[OF assms(1)] assms(3) by simp
  have "CFArrayCheckAndGetValueAtIndex a i = Some (if 0 \<le> i \<and> i < int (length xs) then xs ! nat i else -1)" for i
    using GetValueAtIndex_ok[OF assms(1), of "nat i"] cnt assms(3)
    by (auto simp: CFArrayCheckAndGetValueAtIndex_def CFArrayGetValueAtIndex_def)
  moreover obtain i where i: "first_index same a (int l) n = Some i" "i = -1 \<and> (\<forall>k < n. \<not> same (xs ! (l + k))) \<or>
       (\<exists>k < n. i = int (l + k) \<and> same (xs ! (l + k)) \<and> (\<forall>j < k. \<not> same (xs ! (l + j))))"
    using first_index_ok[OF assms(1) ln, of same] assms(3) by blast
  moreover have "(\<exists>x \<in> set part. same x) \<longleftrightarrow> (\<exists>k < n. same (xs ! (l + k)))" using assms(2,5) by (fastforce simp: in_set_conv_nth)
  then have "i \<noteq> -1 \<longleftrightarrow> (\<exists>x \<in> set part. same x)" using i(2) by auto
  moreover note last_index_ok[OF assms(1) ln, of same] count_of_value_ok[OF assms(1) ln, of same] GetValues_ok[OF assms(1) ln]
    apply_values_ok[OF assms(1) ln, of f c] FastEnumeration_ok[OF assms(1)]
  ultimately show ?thesis unfolding assms(3,5)
    using cnt assms(3) by (simp add: CFArrayGetCount_def CFArrayGetCountOfValue_def CFArrayContainsValue_def CFArrayGetFirstIndexOfValue_def
      CFArrayGetLastIndexOfValue_def CFArrayApplyFunction_def assms(4)[symmetric]) metis
qed

theorem Array_queries_correct_witness:
  "CFArrayGetCountOfValue sample_env sample_array (1, 2) 95 = Some 1 \<and> CFArrayContainsValue sample_env sample_array (0, 3) 4 = Some False \<and>
   CFArrayCheckAndGetValueAtIndex sample_array 3 = Some (-1) \<and> CFArrayGetValues sample_array (1, 2) [7, 8, 9] = Some [12, 25, 9]"
proof -
  have s: "same_value sample_env sample_array v w \<longleftrightarrow> v = w \<or> v mod 10 = w mod 10" for v w
    by (simp add: same_value_def sample_env_def sample_array_def CFArrayGetCallBacks_def)
  have "1 + 2 \<le> length (arr_contents sample_array)" "0 + 3 \<le> length (arr_contents sample_array)" by (simp_all add: sample_array_ok)
  note Q = Array_queries_correct[OF sample_array_ok(1) this(1) refl refl refl, of sample_env 95 "\<lambda>x c. c" "()"]
    Array_queries_correct[OF sample_array_ok(1) this(2) refl refl refl, of sample_env 4 "\<lambda>x c. c" "()"]
  show ?thesis using Q(1)[THEN conjunct2, THEN conjunct1, rule_format, of 3] Q(1)[THEN conjunct2, THEN conjunct2, THEN conjunct1, rule_format, of "[7, 8, 9]"]
      Q(1)[THEN conjunct2, THEN conjunct2, THEN conjunct2, THEN conjunct1] Q(2)[THEN conjunct2, THEN conjunct2, THEN conjunct2, THEN conjunct2, THEN conjunct1]
    by (simp add: sample_array_ok s)
qed

text \<open>C17: Sorting a range of a mutable array leaves the stable sorted order of the range, and the rest in place. With a retain
  and a release callback, or with neither, the values are copied out, sorted and put back, so each is retained once more
  and released once; with only one of the two they are exchanged in place and no callback is called. An immutable array
  is left as it is.\<close>

theorem Array_SortValues_correct:
  assumes "arr_inv a" "xs = arr_contents a" "l + n \<le> length xs" "length xs \<le> 2 ^ 29" "proper_order cmp" "valid_schedule schedule"
  shows "(arr_type a = kCFArrayDeque \<longrightarrow> (\<exists>a' ys. CFArraySortValues env cmp schedule cores junk a (int l, int n) = Some a' \<and>
       arr_inv a' \<and> alike a a' \<and> mset ys = mset (take n (drop l xs)) \<and> sorted_wrt (cmp_le cmp) ys \<and>
       (\<forall>z. filter (\<lambda>y. cmp_le cmp z y \<and> cmp_le cmp y z) ys = filter (\<lambda>y. cmp_le cmp z y \<and> cmp_le cmp y z) (take n (drop l xs))) \<and>
       (if (retaining env a \<noteq> None) = releasing env a \<and> 2 \<le> n
        then arr_contents a' = take l xs @ map (stored (retaining env a)) ys @ drop (l + n) xs \<and>
          arr_log a' = arr_log a @ retains (retaining env a) ys @ releases (releasing env a) (take n (drop l xs))
        else arr_contents a' = take l xs @ ys @ drop (l + n) xs \<and> arr_log a' = arr_log a))) \<and>
    (arr_type a = kCFArrayImmutable \<longrightarrow> CFArraySortValues env cmp schedule cores junk a (int l, int n) = Some a)"
proof (cases "arr_type a")
  case kCFArrayDeque
  obtain a' ys where a': "CFArraySortValues env cmp schedule cores junk a (int l, int n) = Some a'" "stable_sort_of (cmp_le cmp) (take n (drop l xs)) ys"
    "if (retaining env a \<noteq> None) = releasing env a \<and> 2 \<le> n
     then updates 1 a a' (take l xs @ map (stored (retaining env a)) ys @ drop (l + n) xs) (retains (retaining env a) ys @ releases (releasing env a) (take n (drop l xs)))
     else permuted a a' (take l xs @ ys @ drop (l + n) xs)"
    using SortValues_ok[OF assms(1) kCFArrayDeque assms(3,4)[unfolded assms(2)] assms(5,6), of env cores junk] unfolding assms(2) by blast
  show ?thesis
    by (rule conjI, intro impI exI[of _ a'] exI[of _ ys])
      (use a' kCFArrayDeque in \<open>auto simp: updates_def permuted_def stable_sort_of_def stable_perm_def split: if_splits\<close>)
next
  case kCFArrayImmutable
  have tp: "total_preorder (cmp_le cmp)" using assms(5) by (simp add: proper_order_def)
  show ?thesis using sort_by_copy_ok[OF assms(1) assms(3,4)[unfolded assms(2)] tp assms(6), of env True cores junk] kCFArrayImmutable
    by (auto simp: CFArraySortValues_def Let_def)
qed

definition by_value :: "ptr \<Rightarrow> ptr \<Rightarrow> CFComparisonResult" where
  "by_value a b = (if a < b then kCFCompareLessThan else if a = b then kCFCompareEqualTo else kCFCompareGreaterThan)"

lemma by_value_le [simp]: "cmp_le by_value = (\<le>)"
  by (auto simp: cmp_le_def by_value_def fun_eq_iff)

lemma by_value_proper: "proper_order by_value"
  by (auto simp: proper_order_def total_preorder_def by_value_def split: if_splits)

theorem Array_SortValues_correct_witness:
  "\<exists>a'. CFArraySortValues sample_env by_value (\<lambda>n. rev [0..<n]) 4 7 sample_array (0, 3) = Some a' \<and> arr_contents a' = [12, 25, 30]"
proof -
  have "0 + 3 \<le> length (arr_contents sample_array)" "length (arr_contents sample_array) \<le> 2 ^ 29" by (simp_all add: sample_array_ok)
  note T = Array_SortValues_correct[OF sample_array_ok(1) refl this by_value_proper backwards_valid, of sample_env 4 7]
  from T[THEN conjunct1, rule_format, OF sample_array_ok(2)]
  obtain a' ys where a': "CFArraySortValues sample_env by_value (\<lambda>n. rev [0..<n]) 4 7 sample_array (0, 3) = Some a'" "mset ys = {#30, 12, 25#}"
    "sorted_wrt (\<le>) ys" "arr_contents a' = ys"
    by (auto simp: sample_array_ok sample_array_callbacks stored_def map_idI)
  have "ys = sort [30, 12, 25]" using a'(2,3) by (intro properties_for_sort[symmetric]) auto
  then show ?thesis using a' by simp
qed

text \<open>C18: On a sorted range \<open>CFArrayBSearchValues\<close> returns the index of the first value that does not compare below the one
  searched for, or the end of the range: inserting it there keeps the range sorted.\<close>

theorem Array_BSearch_correct:
  assumes "arr_inv a" "l + n \<le> length (arr_contents a)" "n < 2 ^ 31" "proper_order cmp" "part = take n (drop l (arr_contents a))"
    "sorted_wrt (cmp_le cmp) part"
  shows "\<exists>k \<le> n. CFArrayBSearchValues cmp a (int l, int n) v = Some (int (l + k)) \<and>
    (\<forall>i < n. (\<not> cmp_le cmp v (part ! i)) = (i < k)) \<and> sorted_wrt (cmp_le cmp) (take k part @ [v] @ drop k part)"
proof -
  obtain k where k: "k \<le> n" "CFArrayBSearchValues cmp a (int l, int n) v = Some (int (l + k))"
    "\<And>i. i < n \<Longrightarrow> (\<not> cmp_le cmp v (part ! i)) = (i < k)"
    using BSearch_ok[OF assms(1-4) assms(6)[unfolded assms(5)], of v] unfolding assms(5) by blast
  have tp: "total_preorder (cmp_le cmp)" using assms(4) by (simp add: proper_order_def)
  have len: "length part = n" using assms(2,5) by simp
  have "cmp_le cmp x v" if "x \<in> set (take k part)" for x
    using that k(1,3) len not_le_swap[OF tp] by (fastforce simp: in_set_conv_nth)
  moreover have "cmp_le cmp v x" if x: "x \<in> set (drop k part)" for x
  proof -
    obtain j where "x = part ! (k + j)" "k + j < n" using x k(1) len by (auto simp: in_set_conv_nth)
    then show ?thesis using k(3)[of "k + j"] by simp
  qed
  moreover have "sorted_wrt (cmp_le cmp) (take k part @ drop k part)" using assms(6) by simp
  ultimately show ?thesis using k unfolding sorted_wrt_append by (intro exI[of _ k]) auto
qed

theorem Array_BSearch_correct_witness:
  "CFArrayBSearchValues by_value sample_array (1, 2) 20 = Some 2"
proof -
  have h: "1 + 2 \<le> length (arr_contents sample_array)" "(2 :: nat) < 2 ^ 31" "sorted_wrt (cmp_le by_value) (take 2 (drop 1 (arr_contents sample_array)))"
    by (simp_all add: sample_array_ok)
  obtain k where k: "k \<le> 2" "CFArrayBSearchValues by_value sample_array (int 1, int 2) 20 = Some (int (1 + k))"
    "\<And>i. i < 2 \<Longrightarrow> (\<not> cmp_le by_value 20 (take 2 (drop 1 (arr_contents sample_array)) ! i)) = (i < k)"
    using Array_BSearch_correct[OF sample_array_ok(1) h(1,2) by_value_proper refl h(3), of 20] by blast
  have "k = 1" using k(1) k(3)[of 0] k(3)[of 1] by (simp add: sample_array_ok)
  then show ?thesis using k(2) by simp
qed

text \<open>A copy of \<open>b\<close>: the same callbacks, each value retained, equal to \<open>b\<close> if retained values are equal to the originals.\<close>

definition copy_of :: "array_env \<Rightarrow> CFArray \<Rightarrow> CFArrayType \<Rightarrow> CFArray \<Rightarrow> bool" where
  "copy_of env b ty a \<longleftrightarrow> arr_inv a \<and> arr_type a = ty \<and> CFArrayGetCallBacks env a = CFArrayGetCallBacks env b \<and>
     arr_contents a = map (stored (retaining env b)) (arr_contents b) \<and> arr_log a = retains (retaining env b) (arr_contents b) \<and>
     ((\<forall>x \<in> set (arr_contents b). same_value env b x (stored (retaining env b) x)) \<longrightarrow> CFArrayEqual env b a = Some True)"

lemma copy_ofI:
  assumes "arr_inv b" "arr_inv a" "arr_type a = ty" "CFArrayGetCallBacks env a = CFArrayGetCallBacks env b"
    "arr_contents a = map (stored (retaining env b)) (arr_contents b)" "arr_log a = retains (retaining env b) (arr_contents b)"
  shows "copy_of env b ty a"
  using Equal_ok[OF assms(1,2), of env] assms by (simp add: copy_of_def list_all2_map2 list.rel_refl_strong)

lemma Create_roundtrip:
  assumes "length vals \<le> 2 ^ 28"
  shows "\<exists>a. CFArrayCreate0 env True vals (int (length vals)) c = Some a \<and> arr_inv a \<and> CFArrayGetCallBacks env a = callbacks_of c \<and>
    arr_contents a = map (stored (retaining env a)) vals \<and> arr_log a = retains (retaining env a) vals \<and>
    (ac_retain (callbacks_of c) = NULL \<longrightarrow> CFArrayGetValues a (0, int (length vals)) (replicate (length vals) NULL) = Some vals)"
proof -
  obtain a where a: "CFArrayCreate0 env True vals (int (length vals)) c = Some a" "arr_inv a" "CFArrayGetCallBacks env a = callbacks_of c"
    "arr_contents a = map (stored (retaining env a)) vals" "arr_log a = retains (retaining env a) vals"
    using Create_ok[OF order_refl assms, of env c] by auto
  have "CFArrayGetValues a (0, int (length vals)) (replicate (length vals) NULL) = Some vals" if "ac_retain (callbacks_of c) = NULL"
    using GetValues_ok[OF a(2), of 0 "length vals" "replicate (length vals) NULL"] a(3,4) that by (simp add: retaining_def stored_def map_idI)
  then show ?thesis using a by blast
qed

text \<open>C29: A created array holds the given values, a copy those of the original, as the retain callback of the array returns
  them, each retained once; copies have the callbacks of the original and compare equal to it as far as retained values
  compare equal to the originals. Values read out of an array without retain callback are those it was created from.
  Appending a range of an array, possibly of the array itself, appends its values.\<close>

theorem Array_copies_correct:
  assumes "arr_inv b" "length (arr_contents b) \<le> 2 ^ 28"
  shows "(\<exists>a. CFArrayCreateCopy0 env True b = Some a \<and> copy_of env b kCFArrayImmutable a) \<and>
    (\<forall>capacity. \<exists>a. CFArrayCreateMutableCopy0 env True capacity b = Some a \<and> copy_of env b kCFArrayDeque a) \<and>
    (\<forall>vals c. length vals \<le> 2 ^ 28 \<longrightarrow> (\<exists>a. CFArrayCreate0 env True vals (int (length vals)) c = Some a \<and> arr_inv a \<and>
      CFArrayGetCallBacks env a = callbacks_of c \<and> arr_contents a = map (stored (retaining env a)) vals \<and> arr_log a = retains (retaining env a) vals \<and>
      (ac_retain (callbacks_of c) = NULL \<longrightarrow> CFArrayGetValues a (0, int (length vals)) (replicate (length vals) NULL) = Some vals))) \<and>
    (\<forall>a l n other. arr_inv a \<and> arr_type a = kCFArrayDeque \<and> l + n \<le> length (arr_contents b) \<and> length (arr_contents a) \<le> 2 ^ 28 \<and>
        (other = None \<and> b = a \<or> other = Some b) \<longrightarrow>
      (\<exists>a'. CFArrayAppendArray env a other (int l, int n) = Some a' \<and>
        updates n a a' (arr_contents a @ map (stored (retaining env a)) (take n (drop l (arr_contents b))))
          (retains (retaining env a) (take n (drop l (arr_contents b))))))"
proof (intro conjI allI impI)
  show "\<exists>a. CFArrayCreateCopy0 env True b = Some a \<and> copy_of env b kCFArrayImmutable a"
    using CreateCopy_ok[OF assms, of env] copy_ofI[OF assms(1)] by metis
  have len: "length (arr_contents b) \<le> 2 ^ 29" using assms(2) by simp
  show "\<exists>a. CFArrayCreateMutableCopy0 env True capacity b = Some a \<and> copy_of env b kCFArrayDeque a" for capacity
    using CreateMutableCopy_ok[OF assms(1) len, of env capacity] copy_ofI[OF assms(1)] by metis
next
  fix a l n other
  assume h: "arr_inv a \<and> arr_type a = kCFArrayDeque \<and> l + n \<le> length (arr_contents b) \<and> length (arr_contents a) \<le> 2 ^ 28 \<and>
    (other = None \<and> b = a \<or> other = Some b)"
  then have "length (arr_contents a) + n \<le> 2 ^ 29" using assms(2) by auto
  then show "\<exists>a'. CFArrayAppendArray env a other (int l, int n) = Some a' \<and>
      updates n a a' (arr_contents a @ map (stored (retaining env a)) (take n (drop l (arr_contents b)))) (retains (retaining env a) (take n (drop l (arr_contents b))))"
    using AppendArray_ok[of a b l n other env] h assms(1) by blast
qed (rule Create_roundtrip)

theorem Array_copies_correct_witness:
  "(\<exists>a. CFArrayCreateCopy0 sample_env True sample_array = Some a \<and> arr_contents a = [30, 12, 25] \<and> arr_log a = [Retain 30, Retain 12, Retain 25] \<and>
      CFArrayEqual sample_env sample_array a = Some True) \<and>
   (\<exists>a. CFArrayAppendArray sample_env sample_array None (1, 2) = Some a \<and> arr_contents a = [30, 12, 25, 12, 25])"
proof -
  have "length (arr_contents sample_array) \<le> 2 ^ 28" by (simp add: sample_array_ok)
  note T = Array_copies_correct[OF sample_array_ok(1) this, of sample_env]
  have "same_value sample_env sample_array x x" for x by (simp add: same_value_def)
  then have "\<exists>a. CFArrayCreateCopy0 sample_env True sample_array = Some a \<and> arr_contents a = [30, 12, 25] \<and> arr_log a = [Retain 30, Retain 12, Retain 25] \<and>
      CFArrayEqual sample_env sample_array a = Some True"
    using T[THEN conjunct1] by (auto simp: copy_of_def sample_array_ok sample_array_callbacks stored_def retains_def)
  moreover have "\<exists>a. CFArrayAppendArray sample_env sample_array None (1, 2) = Some a \<and> arr_contents a = [30, 12, 25, 12, 25]"
    using T[THEN conjunct2, THEN conjunct2, THEN conjunct2, rule_format, of sample_array 1 2 None]
    by (auto simp: sample_array_ok sample_array_callbacks stored_def updates_def)
  ultimately show ?thesis by blast
qed

text \<open>Mutable arrays as clients build them: created, then changed within the limit on the number of values.\<close>

inductive array_built :: "array_env \<Rightarrow> CFArray \<Rightarrow> bool" for env where
  create: "CFArrayCreateMutable0 env True capacity c = Some a \<Longrightarrow> array_built env a"
| replace: "array_built env a \<Longrightarrow> l + n \<le> length (arr_contents a) \<Longrightarrow> length (arr_contents a) - n + length vals \<le> 2 ^ 29 \<Longrightarrow>
    CFArrayReplaceValues env a (int l, int n) vals (int (length vals)) = Some a' \<Longrightarrow> array_built env a'"
| set: "array_built env a \<Longrightarrow> i < length (arr_contents a) \<Longrightarrow> CFArraySetValueAtIndex env a (int i) v = Some a' \<Longrightarrow> array_built env a'"
| exchange: "array_built env a \<Longrightarrow> i < length (arr_contents a) \<Longrightarrow> j < length (arr_contents a) \<Longrightarrow>
    CFArrayExchangeValuesAtIndices a (int i) (int j) = Some a' \<Longrightarrow> array_built env a'"
| remove_all: "array_built env a \<Longrightarrow> CFArrayRemoveAllValues env a = Some a' \<Longrightarrow> array_built env a'"
| sort: "array_built env a \<Longrightarrow> l + n \<le> length (arr_contents a) \<Longrightarrow> proper_order cmp \<Longrightarrow> valid_schedule schedule \<Longrightarrow>
    CFArraySortValues env cmp schedule cores junk a (int l, int n) = Some a' \<Longrightarrow> array_built env a'"

text \<open>What is stored or was released is what the retain callback returned for the values it was called on.\<close>

definition owns_contents :: "array_env \<Rightarrow> CFArray \<Rightarrow> bool" where
  "owns_contents env a \<longleftrightarrow> mset (arr_contents a) + released (arr_log a) = image_mset (stored (retaining env a)) (retained (arr_log a))"

definition owner :: "array_env \<Rightarrow> CFArray \<Rightarrow> bool" where
  "owner env a \<longleftrightarrow> retaining env a \<noteq> None \<and> releasing env a"

lemma owns_contents_updates:
  assumes "owner env a" "owns_contents env a" "updates k a a' ys (retains (retaining env a) new @ releases (releasing env a) old)"
    "mset ys + mset old = mset (arr_contents a) + image_mset (stored (retaining env a)) (mset new)"
  shows "owns_contents env a'"
proof -
  note U = updatesD[OF assms(3)]
  have "mset ys + (released (arr_log a) + mset old) = image_mset (stored (retaining env a)) (retained (arr_log a) + mset new)"
  proof -
    have "mset ys + (released (arr_log a) + mset old) = (mset ys + mset old) + released (arr_log a)" by (simp add: ac_simps)
    also have "\<dots> = (mset (arr_contents a) + released (arr_log a)) + image_mset (stored (retaining env a)) (mset new)"
      unfolding assms(4) by (simp add: ac_simps)
    finally show ?thesis unfolding assms(2)[unfolded owns_contents_def] image_mset_union .
  qed
  then show ?thesis using assms(1) U(3,4) U(7)[of env] by (auto simp: owns_contents_def owner_def retains_def releases_def split: option.splits)
qed

lemma mset_parts: "mset xs = mset (take l xs) + mset (take n (drop l xs)) + mset (drop (l + n) xs)"
  by (metis append_take_drop_id drop_drop add.commute mset_append add.assoc)

definition built_ok :: "array_env \<Rightarrow> CFArray \<Rightarrow> bool" where
  "built_ok env a \<longleftrightarrow> arr_inv a \<and> arr_type a = kCFArrayDeque \<and> length (arr_contents a) \<le> 2 ^ 29 \<and> (owner env a \<longrightarrow> owns_contents env a)"

lemma built_okI:
  assumes "built_ok env a" "updates k a a' ys (retains (retaining env a) new @ releases (releasing env a) old)" "length ys \<le> 2 ^ 29"
    "mset ys + mset old = mset (arr_contents a) + image_mset (stored (retaining env a)) (mset new)"
  shows "built_ok env a'"
  using assms(1,3) updatesD[OF assms(2)] owns_contents_updates[OF _ _ assms(2,4)] by (auto simp: built_ok_def owner_def)

lemma built_ok_run:
  assumes "array_built env a"
  shows "built_ok env a"
  using assms
proof induction
  case (create capacity c a)
  obtain b where "CFArrayInit env True kCFArrayDeque capacity c = Some b" "arr_type b = kCFArrayDeque" "arr_count b = 0" "arr_store b = None" "arr_log b = []"
    by (rule ArrayInit_ok[of env kCFArrayDeque capacity c]) auto
  then show ?case using create
    by (simp add: CFArrayCreateMutable0_def built_ok_def arr_inv_def arr_contents_def CFArrayGetBucketsPtr_def owns_contents_def)
next
  case (replace a l n vals a')
  let ?xs = "arr_contents a"
  have ok: "arr_inv a" "arr_type a = kCFArrayDeque" using replace.IH by (simp_all add: built_ok_def)
  have u: "updates 1 a a' (take l ?xs @ map (stored (retaining env a)) vals @ drop (l + n) ?xs) (retains (retaining env a) vals @ releases (releasing env a) (take n (drop l ?xs)))"
    using ReplaceValues_ok[OF ok replace.hyps(2) order_refl replace.hyps(3), of env] replace.hyps(4) by (simp only: take_all order_refl) auto
  show ?case by (rule built_okI[OF replace.IH u]) (use replace.hyps(2,3) mset_parts[of ?xs l n] in \<open>auto simp: ac_simps\<close>)
next
  case (set a i v a')
  let ?xs = "arr_contents a"
  have ok: "arr_inv a" "arr_type a = kCFArrayDeque" "length ?xs \<le> 2 ^ 29" using set.IH by (simp_all add: built_ok_def)
  have u: "updates 1 a a' (?xs[i := stored (retaining env a) v]) (retains (retaining env a) [v] @ releases (releasing env a) [?xs ! i])"
    using SetValue_ok[OF ok(1,2) set.hyps(2), of env v] set.hyps(3) by auto
  have "mset (?xs[i := w]) + {#?xs ! i#} = mset ?xs + {#w#}" for w
    using set.hyps(2) mset_update[OF set.hyps(2), of w] by (simp add: insert_DiffM)
  then show ?case by (intro built_okI[OF set.IH u]) (use ok(3) in auto)
next
  case (exchange a i j a')
  let ?xs = "arr_contents a"
  have ok: "arr_inv a" "length ?xs \<le> 2 ^ 29" using exchange.IH by (simp_all add: built_ok_def)
  have u: "updates 1 a a' (?xs[i := ?xs ! j, j := ?xs ! i]) (retains (retaining env a) [] @ releases (releasing env a) [])"
    using Exchange_ok[OF ok(1) exchange.hyps(2,3)] exchange.hyps(4) by auto
  show ?case by (rule built_okI[OF exchange.IH u]) (use ok(2) exchange.hyps(2,3) in \<open>auto simp: mset_swap\<close>)
next
  case (remove_all a a')
  have ok: "arr_inv a" "arr_type a = kCFArrayDeque" using remove_all.IH by (simp_all add: built_ok_def)
  have u: "updates 1 a a' [] (retains (retaining env a) [] @ releases (releasing env a) (arr_contents a))"
    using RemoveAll_ok[OF ok, of env] remove_all.hyps(2) by auto
  show ?case by (rule built_okI[OF remove_all.IH u]) auto
next
  case (sort a l n cmp schedule cores junk a')
  let ?xs = "arr_contents a" and ?part = "take n (drop l (arr_contents a))"
  have ok: "arr_inv a" "arr_type a = kCFArrayDeque" "length ?xs \<le> 2 ^ 29" using sort.IH by (simp_all add: built_ok_def)
  obtain ys where ys: "stable_sort_of (cmp_le cmp) ?part ys"
    "if (retaining env a \<noteq> None) = releasing env a \<and> 2 \<le> n
     then updates 1 a a' (take l ?xs @ map (stored (retaining env a)) ys @ drop (l + n) ?xs) (retains (retaining env a) ys @ releases (releasing env a) ?part)
     else permuted a a' (take l ?xs @ ys @ drop (l + n) ?xs)"
    using SortValues_ok[OF ok(1,2) sort.hyps(2) ok(3) sort.hyps(3,4), of env cores junk] sort.hyps(5) by auto
  have m: "mset ys = mset ?part" "length ys = n"
    using ys(1) sort.hyps(2) stable_perm_length unfolding stable_sort_of_def stable_perm_def by (blast, fastforce)
  show ?case
  proof (cases "(retaining env a \<noteq> None) = releasing env a \<and> 2 \<le> n")
    case True
    then have u: "updates 1 a a' (take l ?xs @ map (stored (retaining env a)) ys @ drop (l + n) ?xs) (retains (retaining env a) ys @ releases (releasing env a) ?part)"
      using ys(2) by simp
    show ?thesis by (rule built_okI[OF sort.IH u]) (use m(2) ok(3) sort.hyps(2) mset_parts[of ?xs l n] in \<open>auto simp: ac_simps\<close>)
  next
    case False
    then have p: "permuted a a' (take l ?xs @ ys @ drop (l + n) ?xs)" using ys(2) by (simp add: if_not_P)
    have "mset (take l ?xs @ ys @ drop (l + n) ?xs) = mset ?xs" using mset_parts[of ?xs l n] m(1) by (simp add: ac_simps)
    moreover have "length (arr_contents a') = length ?xs" using p m(2) sort.hyps(2) by (simp add: permuted_def)
    moreover have "retaining env a' = retaining env a" "releasing env a' = releasing env a" "arr_type a' = arr_type a"
      using p alike_callbacks(2,3)[of a a' env] by (auto simp: permuted_def alike_def)
    ultimately show ?thesis using sort.IH p by (auto simp: built_ok_def permuted_def owner_def owns_contents_def)
  qed
qed

text \<open>C11: A mutable array built by any sequence of changes keeps its form: the values lie inside the block of the deque, the
  count is theirs and the type flags say deque. With retain and release callbacks it owns exactly its values: what it holds and
  what it released are, together, what the retain callback returned.\<close>

theorem Array_built_wellformed:
  assumes "array_built env a"
  shows "arr_inv a \<and> arr_type a = kCFArrayDeque \<and> arr_count a = int (length (arr_contents a)) \<and>
    (\<forall>d. arr_store a = Some d \<longrightarrow> 0 \<le> dq_leftIdx d \<and> dq_leftIdx d + arr_count a \<le> dq_capacity d \<and> int (length (dq_buckets d)) = dq_capacity d) \<and>
    (retaining env a \<noteq> None \<and> releasing env a \<longrightarrow>
       mset (arr_contents a) + released (arr_log a) = image_mset (stored (retaining env a)) (retained (arr_log a)))"
  using built_ok_run[OF assms] count_contents[of a]
  by (auto simp: built_ok_def owner_def owns_contents_def arr_inv_def deque_ok_def)

definition new_array :: CFArray where
  "new_array = \<lparr>arr_type = kCFArrayDeque, arr_callbacks_type = kCFArrayHasCFTypeCallBacks, arr_callbacks = kCFNullArrayCallBacks,
     arr_inline = [], arr_count = 0, arr_mutations = 1, arr_mutInProgress = 0, arr_store = None, arr_log = []\<rparr>"

lemma new_array_built: "array_built sample_env new_array"
  by (rule array_built.create[of _ 0 "Some (kCFTypeArrayCallBacks sample_env)"])
    (simp add: CFArrayCreateMutable0_def CFArrayInit_def Let_def CFArrayCallBacksMatchNull_def CFArrayCallBacksMatchCFType_def
      kCFNullArrayCallBacks_def sample_env_def new_array_def)

theorem Array_built_wellformed_witness:
  "\<exists>a. CFArrayReplaceValues sample_env new_array (0, 0) [5, 6] 2 = Some a \<and> arr_contents a = [5, 6] \<and> arr_count a = 2 \<and>
     {#5, 6#} + released (arr_log a) = image_mset (stored (retaining sample_env a)) (retained (arr_log a))"
proof -
  have n: "arr_inv new_array" "arr_type new_array = kCFArrayDeque" "arr_contents new_array = []"
    "retaining sample_env new_array = Some (\<lambda>v. v)" "releasing sample_env new_array"
    by (simp_all add: new_array_def arr_inv_def arr_contents_def CFArrayGetBucketsPtr_def sample_env_def retaining_def releasing_def
        CFArrayGetCallBacks_def fun_eq_iff)
  obtain a where a: "CFArrayReplaceValues sample_env new_array (0, 0) [5, 6] 2 = Some a" "updates 1 new_array a [5, 6] [Retain 5, Retain 6]"
    using ReplaceValues_ok[OF n(1,2), of 0 0 2 "[5, 6]" sample_env] n by (auto simp: stored_def retains_def releases_def)
  have "array_built sample_env a" using array_built.replace[OF new_array_built, of 0 0 "[5, 6]" a] a(1) n(3) by simp
  from Array_built_wellformed[OF this] show ?thesis using a updatesD[OF a(2)] n(4,5) by auto
qed

text \<open>Copying more values than there are cells runs off the block.\<close>

lemma copy_in_overrun: "length bs < i + n \<Longrightarrow> i \<le> length bs \<Longrightarrow> copy_in r get (int i) n bs = None"
proof (induction n arbitrary: i bs)
  case (Suc n)
  show ?case
  proof (cases "i < length bs")
    case True
    have "copy_in r get (int (Suc i)) n bs' = None" if "length bs' = length bs" for bs' using Suc.IH[of bs' "Suc i"] Suc.prems True that by simp
    then show ?thesis by (auto simp: add.commute store_at_def store_def split: bind_splits if_splits)
  next
    case False
    then show ?thesis by (auto simp: store_at_def store_def split: bind_splits)
  qed
qed simp

lemma RoundUpCapacity_pos: "CFArrayDequeRoundUpCapacity c = Some k \<Longrightarrow> 0 < k"
  by (auto simp: CFArrayDequeRoundUpCapacity_def split: if_splits)

text \<open>C38: Two blocks can be too small. The size of an immutable array is computed in 32 bits, so creating one from \<open>2 ^ 29\<close> up to
  \<open>2 ^ 30\<close> values writes past it, and so does a copy of an array of that size. Setting a capacity that rounds to less than the
  current one copies the old block over the end of the new one, although every value would fit.\<close>

theorem Array_block_overruns:
  assumes "2 ^ 29 \<le> n" "n < 2 ^ 30"
  shows "CFArrayCreate0 env True vals (int n) c = None \<and>
    (arr_count b = int n \<longrightarrow> CFArrayCreateCopy0 env True b = None) \<and>
    (\<forall>a d cap capacity. arr_type a = kCFArrayDeque \<and> arr_store a = Some d \<and> CFArrayDequeRoundUpCapacity cap = Some capacity \<and> capacity < dq_capacity d \<longrightarrow>
       CFArraySetCapacity env a cap = None)"
proof -
  have cells: "inline_cells t (int n) < n" for t
  proof -
    let ?h = "CFArrayGetSizeOfType t - 16"
    have h: "0 \<le> ?h" by (simp add: CFArrayGetSizeOfType_def)
    have "(?h + int n * 8 - 2 ^ 32) mod 2 ^ 32 \<le> ?h + int n * 8 - 2 ^ 32" using h assms(1) by (intro zmod_le_nonneg_dividend) auto
    then have "(?h + int n * 8) mod 2 ^ 32 \<le> ?h + int n * 8 - 2 ^ 32" by (simp only: minus_mod_self2)
    then have "nat ((?h + int n * 8) mod 2 ^ 32) - nat ?h \<le> n * 8 - 2 ^ 32" using h by auto
    then have "inline_cells t (int n) \<le> (n * 8 - 2 ^ 32) div 8" unfolding inline_cells_def by (rule div_le_mono)
    then show ?thesis using assms by auto
  qed
  have over: "copy_in r get 0 n bs = None" if "length bs < n" for r get and bs :: "ptr list" using copy_in_overrun[of bs 0 n r get] that by simp
  have fits: "length (arr_inline a) < n" if "CFArrayInit env True kCFArrayImmutable (int n) c = Some a" for c a
    using that cells by (auto simp: CFArrayInit_def Let_def)
  have "CFArraySetCapacity env a cap = None" if "arr_type a = kCFArrayDeque" "arr_store a = Some d" "CFArrayDequeRoundUpCapacity cap = Some capacity" "capacity < dq_capacity d" for a d cap capacity
    using that RoundUpCapacity_pos[OF that(3)] by (auto simp: CFArraySetCapacity_def move_def memmove_def Let_def)
  moreover have "CFArrayCreate0 env True vals (int n) c = None" using over fits by (auto simp: CFArrayCreate0_def split: bind_splits)
  moreover have "CFArrayCreateCopy0 env True b = None" if "arr_count b = int n"
    using over fits that by (auto simp: CFArrayCreateCopy0_def CFArrayGetCount_def Let_def split: bind_splits)
  ultimately show ?thesis by blast
qed

theorem Array_block_overruns_witness:
  "CFArrayCreate0 sample_env True [] (int (2 ^ 29)) None = None \<and> CFArraySetCapacity sample_env sample_array 3 = None"
proof -
  note T = Array_block_overruns[of "2 ^ 29" sample_env "[]" None sample_array]
  have "CFArraySetCapacity sample_env sample_array 3 = None"
    using T[THEN conjunct2, THEN conjunct2, rule_format, of sample_array _ 3 4] by (simp add: sample_array_def CFArrayDequeRoundUpCapacity_def)
  then show ?thesis using T by simp
qed

end
