(* ===== verification/Spec2Isabelle.thy ===== *)
theory Spec2Isabelle
  imports CF_BinaryHeap CF_BigNumber ObjC_DenseMap ObjC_TaggedPointer ObjC_Refcount_Safety CF_BitVector CF_Tree CF_Array_Ops
begin

text \<open>
  Verification of parts of the Objective-C runtime and of CoreFoundation.

  \<^bold>\<open>The program.\<close> The repository holds the Objective-C runtime 750 (\<open>src/runtime\<close>), CoreFoundation Lite
  (\<open>src/RuntimeLoop\<close>) and, for reading, a copy of the xnu kernel. The development covers two layers.

  The runtime layer is the life of an object. A reference is either a tagged pointer, which carries its value, or the
  address of an object whose first word is the \<open>isa\<close>. The \<open>isa\<close> packs the class, flags and an inline reference count;
  when the count overflows, half of it moves to the side table, which is a \<open>DenseMap\<close> from addresses to counts under a
  spinlock. Threads retain and release with compare-and-swap on the \<open>isa\<close> and take the lock only for the side table.

  The CoreFoundation layer is a set of containers and algorithms that work on client pointers through callbacks: heap,
  array, tree, bit vector, big number and sorting. The array and the tree sort their contents with the sort functions.

  \<^bold>\<open>Theories.\<close>

  \<^item> Prelude: machine types, comparison results, the log of retain and release calls, bounded memory access
    (\<open>load\<close>, \<open>store\<close>), and lemmas on lists, multisets and powers of two.

  \<^item> ObjC\_DenseMap (llvm-DenseMap.h, llvm-DenseMapInfo.h, llvm-MathExtras.h, DisguisedPtr of objc-private.h): the hash
    table, with 32-bit counters, as \<open>DenseMap\<close> and \<open>SmallDenseMap\<close>. The locale \<open>dense_keys\<close> is the contract of a key
    type and is interpreted for each key type of the header; \<open>dense_map_derived\<close> is what \<open>DenseMapBase\<close> expects from
    its derived class. Shown: probing ends, lookup finds what was stored, update and erase refine a function with default
    zero, and the invariant holds of every table that can be built.

  \<^item> ObjC\_TaggedPointer (objc-internal.h, \<open>getIsa\<close> of objc-object.h, registration in objc-runtime-new.mm): encoding for
    both tag positions and the two class tables. Shown: round trips, that registering a class makes its pointers have
    that class, and which registrations are fatal.

  \<^item> ObjC\_Isa (isa.h, \<open>isa_t\<close>, \<open>initIsa\<close>, \<open>ISA\<close>, \<open>changeIsa\<close> and the carry arithmetic of objc-os.h): the bit fields
    as words for ARM64 and x86-64.

  \<^item> ObjC\_SideTable (the \<open>sidetable_\<close> functions of NSObject.mm): counts with deallocating, weak and pinned bits, stored
    in the \<open>DenseMap\<close> of the theory above. Shown: each function refines its effect on one word per object.

  \<^item> ObjC\_Refcount, ObjC\_Refcount\_Inv, ObjC\_Refcount\_Safety (\<open>rootRetain\<close>, \<open>rootRelease\<close>, \<open>rootDealloc\<close>,
    \<open>rootRetainCount\<close>, \<open>changeIsa\<close>, \<open>setHasAssociatedObjects\<close> of objc-object.h; weak load, store and destroy and
    the side table paths of NSObject.mm): any finite number of threads on one object. Each access to shared memory is a
    step of the relation \<open>step\<close>, and the program counter of a thread holds the local variables of the function it runs.
    The second theory has the invariant. The third shows that no assertion fails and no freed memory is used, that the
    counts equal the references owned, that \<open>-dealloc\<close> runs once and after the last reference, that weak loads never
    resurrect an object, that some thread can always move, and that a thread running alone finishes.

  \<^item> CF\_BinaryHeap (CFBinaryHeap.c): \<open>CFBinaryHeap\<close> is the struct. The locale \<open>heap_comparison\<close> is the contract of a
    comparator and \<open>priority_queue\<close> that of the heap, interpreted on the functions of the file. Shown: insertion and
    removal of the minimum refine a multiset, and the values come out sorted.

  \<^item> CF\_BigNumber (CFBigNumber.c, \<open>CFNumberType\<close> of CFNumber.h): five base-1000000000 digits at their widths. Shown:
    conversions and decimal strings round trip, addition and subtraction are exact where they do not hit the carry flaw,
    and \<open>CFNumberCreateWithBigNum\<close> picks the narrowest type.

  \<^item> CF\_BitVector (CFBitVector.c): buckets with bounds. The locale \<open>bitwise_mapper\<close> is the contract of the mapper that
    is run over a range, interpreted for setting, clearing and flipping.

  \<^item> CF\_Sort (CFSortFunctions.c): merge sort in place and the concurrent odd-even merge of sections. \<open>dispatch_apply\<close>
    runs its blocks in an arbitrary order. Shown: for every schedule the result is the stable sorted order.

  \<^item> CF\_Tree (CFTree.c): a store of nodes linked by pointers. Shown: each operation on the links is the corresponding
    operation on the lists of children, and traversals visit them in order.

  \<^item> CF\_Array, CF\_Array\_Ops (CFArray.c): the deque and the moves inside its block in the first theory, the operations
    as list operations in the second. Shown: every mutation is a list operation with its retains and releases, arrays
    stay well formed, sorting and binary search are right, and two blocks can be too small.

  \<^bold>\<open>Conventions.\<close> An access outside a block, a dereference of \<open>NULL\<close>, an undefined shift, a failed assertion of the
  runtime or a fatal error is \<open>None\<close>, so that a theorem with a result \<open>Some\<close> also says that none of these happens.
  Functions that stand for callbacks of the client are parameters; their calls are logged where the order or number
  matters. \<open>NULL\<close> returned for lack of memory is a branch where the code tests it.

  \<^bold>\<open>Bounds and termination.\<close> No function uses fuel. Loops are structural recursions or functions with a measure,
  except those that walk links of memory or may spin: these are \<open>partial_function\<close>, and the theorems show that they
  return for well-formed memory. The probe loop of the hash table stops after as many probes as there are buckets, as the
  code does. Hash tables have at most \<open>2 ^ 31\<close> buckets, and the theorems state the bound on entries where it matters. The
  binary search of arrays shifts an \<open>int\<close>, hence the limit on the length of the range.

  \<^bold>\<open>Not modelled.\<close> The messengers and trampolines are assembly. Class loading, method caches, protocols,
  categories, exceptions, associated object tables, \<open>@synchronized\<close>, selectors and the autorelease pool page
  structure of \<open>src/runtime\<close> depend on the layout of Mach-O images or on the operating system, or are not covered yet; the
  weak table appears as the set of weak variables of an object. Of CoreFoundation, the remaining files (strings, URLs,
  bundles, preferences, streams, property lists, dates, locales, ports and the run loop) are mostly calls to the
  system or tables of data. Descriptions, type registration, toll-free bridging to Objective-C subclasses and the garbage
  collector are left out of each container. The xnu sources, the tests, the sample programs and the notes are not part of
  the library.
\<close>

end
